(* ===== verification/Prelude.thy ===== *)
theory Prelude
  imports Main "HOL-Library.Word"
begin

text \<open>
  Shared vocabulary of the development: the machine integers of the Rust sources, faults as
  values, the \<open>std\<close> integer operations the sources call, bit-mask arithmetic, byte buffers and
  the two \<open>named_theorems\<close> collections that the component theories add to.

  The target is a 64-bit platform, so \<open>usize\<close> is a 64-bit word.  The release profile of the
  workspace leaves overflow checks off, so the arithmetic operators of the sources are the
  wrapping operators of \<^typ>\<open>64 word\<close>.
\<close>

unbundle bit_operations_syntax

section \<open>Types\<close>

type_synonym u8 = "8 word"
type_synonym u16 = "16 word"
type_synonym u32 = "32 word"
type_synonym u64 = "64 word"
type_synonym usize = "64 word"
type_synonym bytes = "u8 list"

text \<open>
  A run that does not return a value panics, executes undefined behaviour (reads uninitialised or
  freed memory), or aborts the process because an allocation failed.  All are values, so that
  their absence is a theorem.
\<close>

datatype fault = Panic | UB | Abort

type_synonym 'a res = "fault + 'a"

text \<open>Rust's \<open>Result\<close>.\<close>

datatype ('a, 'e) result = Ok 'a | Err 'e

named_theorems word_facts \<open>moving word arithmetic and masks to natural numbers\<close>
named_theorems buffer_facts \<open>reads and writes of byte buffers\<close>

section \<open>Sequencing\<close>

text \<open>
  \<open>try_bind\<close> runs a computation that may fault, then the rest.  A loop that need not end has a
  result of type \<open>'a run\<close>: \<^term>\<open>None\<close> is divergence; \<open>run_bind\<close> sequences such loops and
  \<open>step_bind\<close> puts a single faulting access before the rest of a loop body.
\<close>

definition try_bind :: "'a res \<Rightarrow> ('a \<Rightarrow> 'b res) \<Rightarrow> 'b res" where
  "try_bind r f = (case r of Inl e \<Rightarrow> Inl e | Inr x \<Rightarrow> f x)"

type_synonym 'a run = "'a res option"

definition run_bind :: "'a run \<Rightarrow> ('a \<Rightarrow> 'b run) \<Rightarrow> 'b run" where
  "run_bind m f = Option.bind m (\<lambda>r. case r of Inl e \<Rightarrow> Some (Inl e) | Inr x \<Rightarrow> f x)"

definition step_bind :: "'a res \<Rightarrow> ('a \<Rightarrow> 'b run) \<Rightarrow> 'b run" where
  "step_bind r f = (case r of Inl e \<Rightarrow> Some (Inl e) | Inr x \<Rightarrow> f x)"

lemma try_bind_simps [simp]: "try_bind (Inl e) f = Inl e" "try_bind (Inr x) f = f x"
  by (simp_all add: try_bind_def)

lemma run_bind_simps [simp]:
  "run_bind None f = None" "run_bind (Some (Inl e)) f = Some (Inl e)" "run_bind (Some (Inr x)) f = f x"
  by (simp_all add: run_bind_def)

lemma step_bind_simps [simp]: "step_bind (Inl e) f = Some (Inl e)" "step_bind (Inr x) f = f x"
  by (simp_all add: step_bind_def)

lemma step_bind_mono [partial_function_mono]:
  "(\<And>x. mono_option (\<lambda>g. C x g)) \<Longrightarrow> mono_option (\<lambda>g. step_bind r (\<lambda>x. C x g))"
  by (cases r) (simp_all add: option.const_mono)

lemma run_bind_mono [partial_function_mono]:
  assumes "mono_option B" "\<And>x. mono_option (\<lambda>g. C x g)"
  shows "mono_option (\<lambda>g. run_bind (B g) (\<lambda>x. C x g))"
  unfolding run_bind_def
proof (intro bind_mono assms(1))
  show "mono_option (\<lambda>g. case y of Inl e \<Rightarrow> Some (Inl e) | Inr x \<Rightarrow> C x g)" for y
    by (cases y) (simp_all add: option.const_mono assms(2))
qed

section \<open>Integer operations of the standard library\<close>

text \<open>\<open>checked_add\<close> of \<open>usize\<close>.\<close>

definition checked_add :: "usize \<Rightarrow> usize \<Rightarrow> usize option" where
  "checked_add a b = (if unat a + unat b < 2 ^ 64 then Some (a + b) else None)"

definition checked_mul :: "usize \<Rightarrow> usize \<Rightarrow> usize option" where
  "checked_mul a b = (if unat a * unat b < 2 ^ 64 then Some (a * b) else None)"

definition saturating_add :: "u64 \<Rightarrow> u64 \<Rightarrow> u64" where
  "saturating_add a b = (if unat a + unat b < 2 ^ 64 then a + b else - 1)"

text \<open>\<open>is_power_of_two\<close>: exactly one bit is set.\<close>

definition is_power_of_two :: "usize \<Rightarrow> bool" where
  "is_power_of_two w \<longleftrightarrow> (\<exists>k\<in>{..<64}. w = 2 ^ k)"

text \<open>
  \<open>next_power_of_two\<close>: the least power of two that is at least the argument; where that is
  \<open>2 ^ 64\<close> the release build wraps to 0.
\<close>

definition next_power_of_two :: "usize \<Rightarrow> usize" where
  "next_power_of_two w = (case find (\<lambda>k. unat w \<le> 2 ^ k) [0..<64] of Some k \<Rightarrow> 2 ^ k | None \<Rightarrow> 0)"

text \<open>Little-endian bytes of a \<open>u32\<close> and of a \<open>u64\<close> (\<open>to_le_bytes\<close>).\<close>

definition le_bytes :: "nat \<Rightarrow> 'a::len word \<Rightarrow> bytes" where
  "le_bytes n w = map (\<lambda>i. ucast (drop_bit (8 * i) w)) [0..<n]"

section \<open>Words and masks\<close>

lemma unat_pow2 [word_facts]: "k < 64 \<Longrightarrow> unat (2 ^ k :: usize) = 2 ^ k"
proof -
  assume "k < 64"
  then have "(2 :: nat) ^ k < 2 ^ 64" by (rule power_strict_increasing) simp
  moreover have "unat (word_of_nat (2 ^ k) :: usize) = 2 ^ k mod 2 ^ 64"
    by (simp only: unat_of_nat) simp
  ultimately show ?thesis by simp
qed

lemma pow2_less_u64 [simp]: "k < 64 \<Longrightarrow> (2 :: nat) ^ k < 18446744073709551616"
  using power_strict_increasing [of k 64 "2 :: nat"] by simp

lemma pow2_dvd_u64 [simp]: "k < 64 \<Longrightarrow> (2 :: nat) ^ k dvd 18446744073709551616"
  using le_imp_power_dvd [of k 64 "2 :: nat"] by simp

lemma pow2_neq_0 [simp]: "k < 64 \<Longrightarrow> (2 ^ k :: usize) \<noteq> 0"
  using unat_pow2 [of k] by fastforce

lemma unat_add_no_wrap [word_facts]:
  "unat (a :: 'a::len word) + unat b < 2 ^ LENGTH('a) \<Longrightarrow> unat (a + b) = unat a + unat b"
  by (simp add: unat_word_ariths)

lemma unat_Suc_no_wrap: "unat (a :: u64) + 1 < 2 ^ 64 \<Longrightarrow> unat (a + 1) = unat a + 1"
  by (simp add: unat_word_ariths)

lemma unat_diff_le [word_facts]: "b \<le> (a :: 'a::len word) \<Longrightarrow> unat (a - b) = unat a - unat b"
  by (rule unat_sub)

lemma unat_and_mask:
  assumes "k < 64"
  shows "unat (w AND (2 ^ k - 1) :: usize) = unat w mod 2 ^ k"
proof -
  have "w AND (2 ^ k - 1) = take_bit k w"
    by (simp add: take_bit_eq_mask mask_eq_exp_minus_1)
  then show ?thesis
    by (simp only: unsigned_take_bit_eq) (simp only: take_bit_eq_mod)
qed

lemma is_power_of_two_pow2: "is_power_of_two w \<Longrightarrow> \<exists>k<64. w = 2 ^ k"
  by (auto simp: is_power_of_two_def)

lemma is_power_of_two_ge1: "is_power_of_two w \<Longrightarrow> 1 \<le> unat w"
  by (auto simp: is_power_of_two_def word_facts)

lemma of_nat_eq_small:
  "a < 2 ^ 64 \<Longrightarrow> b < 2 ^ 64 \<Longrightarrow> (of_nat a :: usize) = of_nat b \<longleftrightarrow> a = b"
  by (simp add: word_of_nat_eq_iff take_bit_eq_mod)

lemma of_nat_diff_word: "m \<le> n \<Longrightarrow> (of_nat n :: usize) - of_nat m = of_nat (n - m)"
  by simp

lemma mod_window_neq:
  assumes "(i::nat) < j" "j - i < c"
  shows "i mod c \<noteq> j mod c"
proof
  assume "i mod c = j mod c"
  then have "c dvd j - i" using assms(1) mod_eq_dvd_iff_nat [of i j c] by auto
  then show False using assms by (auto dest: dvd_imp_le)
qed

lemma find_upt_SomeD:
  assumes "find P [0..<b] = Some k"
  shows "k < b" "P k" "j < k \<Longrightarrow> \<not> P j"
  using assms by (auto simp: find_Some_iff)

lemma find_upt_NoneD: "find P [a..<b] = None \<Longrightarrow> a \<le> k \<Longrightarrow> k < b \<Longrightarrow> \<not> P k"
  by (auto simp: find_None_iff)

lemma next_power_of_two_cases:
  assumes "unat w \<le> 2 ^ 63"
  obtains k where "k < 64" "next_power_of_two w = 2 ^ k" "unat w \<le> 2 ^ k"
    "\<And>j. j < k \<Longrightarrow> 2 ^ j < unat w"
proof (cases "find (\<lambda>k. unat w \<le> 2 ^ k) [0..<64]")
  case None
  with assms find_upt_NoneD [OF None, of 63] show ?thesis by simp
next
  case (Some k)
  from find_upt_SomeD [OF Some] have "k < 64" "unat w \<le> 2 ^ k" "\<And>j. j < k \<Longrightarrow> 2 ^ j < unat w"
    by (auto simp: not_le)
  moreover from Some have "next_power_of_two w = 2 ^ k" by (simp add: next_power_of_two_def)
  ultimately show ?thesis using that by blast
qed

lemma next_power_of_two_pow2: "unat w \<le> 2 ^ 63 \<Longrightarrow> is_power_of_two (next_power_of_two w)"
  by (erule next_power_of_two_cases) (auto simp: is_power_of_two_def)

lemma next_power_of_two_ge: "unat w \<le> 2 ^ 63 \<Longrightarrow> unat w \<le> unat (next_power_of_two w)"
  by (erule next_power_of_two_cases) (simp add: word_facts)

lemma next_power_of_two_least:
  assumes "unat w \<le> 2 ^ 63" "is_power_of_two p" "unat w \<le> unat p"
  shows "unat (next_power_of_two w) \<le> unat p"
proof -
  from assms(2) obtain j where j: "j < 64" "p = 2 ^ j" by (auto simp: is_power_of_two_def)
  from assms(1) obtain k where k: "k < 64" "next_power_of_two w = 2 ^ k"
    and least: "\<And>j. j < k \<Longrightarrow> 2 ^ j < unat w" by (rule next_power_of_two_cases) blast
  have "\<not> j < k" using least [of j] j assms(3) by (auto simp: word_facts)
  then show ?thesis using j k by (simp add: word_facts)
qed

text \<open>Rounding up to a multiple of a power of two, as \<open>(x + a - 1) & !(a - 1)\<close>.\<close>

lemma and_not_mask:
  assumes "k < 64"
  shows "unat (w AND NOT (2 ^ k - 1) :: usize) = unat w div 2 ^ k * 2 ^ k"
proof -
  have eq: "w = (w AND (2 ^ k - 1)) OR (w AND NOT (2 ^ k - 1))"
    by (simp add: bit_eq_iff bit_simps) blast
  have "(w AND (2 ^ k - 1)) AND (w AND NOT (2 ^ k - 1)) = 0"
    by (simp add: bit_eq_iff bit_simps)
  then have "w = (w AND (2 ^ k - 1)) + (w AND NOT (2 ^ k - 1))"
    using eq by (metis disjunctive_add_eq_or)
  then have sub: "w AND NOT (2 ^ k - 1) = w - (w AND (2 ^ k - 1))"
    by (simp add: algebra_simps)
  have "w AND (2 ^ k - 1) \<le> w" by (rule word_and_le2)
  with sub have "unat (w AND NOT (2 ^ k - 1)) = unat w - unat w mod 2 ^ k"
    using assms by (simp add: unat_diff_le unat_and_mask)
  then show ?thesis by (simp add: minus_mod_eq_div_mult)
qed

section \<open>Byte buffers\<close>

text \<open>\<open>region off n buf\<close> is \<open>&buf[off..off + n]\<close>; \<open>write_at off xs buf\<close> is a \<open>memcpy\<close> to \<open>buf + off\<close>.\<close>

definition region :: "nat \<Rightarrow> nat \<Rightarrow> 'a list \<Rightarrow> 'a list" where
  "region off n buf = take n (drop off buf)"

definition write_at :: "nat \<Rightarrow> 'a list \<Rightarrow> 'a list \<Rightarrow> 'a list" where
  "write_at off xs buf = take off buf @ xs @ drop (off + length xs) buf"

lemma length_write_at [simp, buffer_facts]:
  "off + length xs \<le> length buf \<Longrightarrow> length (write_at off xs buf) = length buf"
  by (simp add: write_at_def)

lemma length_region [simp, buffer_facts]:
  "off + n \<le> length buf \<Longrightarrow> length (region off n buf) = n"
  by (simp add: region_def)

lemma region_write_same [simp, buffer_facts]:
  "off + length xs \<le> length buf \<Longrightarrow> region off (length xs) (write_at off xs buf) = xs"
  by (simp add: region_def write_at_def)

text \<open>A write leaves every region disjoint from it as it was.\<close>

lemma region_write_disjoint [buffer_facts]:
  assumes "off + length xs \<le> length buf" "o' + n \<le> length buf"
    and "o' + n \<le> off \<or> off + length xs \<le> o'"
  shows "region o' n (write_at off xs buf) = region o' n buf"
proof (rule nth_equalityI)
  show "length (region o' n (write_at off xs buf)) = length (region o' n buf)"
    using assms by simp
next
  fix i assume "i < length (region o' n (write_at off xs buf))"
  then have "i < n" using assms by simp
  then show "region o' n (write_at off xs buf) ! i = region o' n buf ! i"
    using assms by (auto simp: region_def write_at_def nth_append)
qed

lemma region_0_take [simp]: "region 0 n buf = take n buf"
  by (simp add: region_def)

lemma length_le_bytes [simp]: "length (le_bytes n w) = n"
  by (simp add: le_bytes_def)

end
