(* ===== verification/Interfaces.thy ===== *)
theory Interfaces
  imports Prelude
begin

text \<open>
  The contracts the components rely on, as locales: a bounded FIFO channel, a multi-producer
  stack that is drained as a whole, and a key-value index.  The lemmas a client needs are proved
  here once; the component theories interpret the locales on the definitions that model the code.
\<close>

section \<open>A bounded FIFO channel\<close>

text \<open>The abstract channel: a list of at most \<open>cap\<close> items.\<close>

definition fifo_enq :: "nat \<Rightarrow> 'a \<Rightarrow> 'a list \<Rightarrow> (unit, 'a) result \<times> 'a list" where
  "fifo_enq cap v xs = (if length xs < cap then (Ok (), xs @ [v]) else (Err v, xs))"

definition fifo_deq :: "'a list \<Rightarrow> 'a option \<times> 'a list" where
  "fifo_deq xs = (case xs of [] \<Rightarrow> (None, []) | x # xs' \<Rightarrow> (Some x, xs'))"

locale bounded_fifo =
  fixes ok :: "'q \<Rightarrow> bool"
    and items :: "'q \<Rightarrow> 'a list"
    and capacity :: "'q \<Rightarrow> nat"
    and enq :: "'a \<Rightarrow> 'q \<Rightarrow> ((unit, 'a) result \<times> 'q) res"
    and deq :: "'q \<Rightarrow> ('a option \<times> 'q) res"
  assumes bounded: "ok q \<Longrightarrow> length (items q) \<le> capacity q"
    and enq_full: "ok q \<Longrightarrow> length (items q) = capacity q \<Longrightarrow> enq v q = Inr (Err v, q)"
    and enq_room: "ok q \<Longrightarrow> length (items q) < capacity q \<Longrightarrow>
      \<exists>q'. enq v q = Inr (Ok (), q') \<and> ok q' \<and> items q' = items q @ [v] \<and> capacity q' = capacity q"
    and deq_empty: "ok q \<Longrightarrow> items q = [] \<Longrightarrow> deq q = Inr (None, q)"
    and deq_cons: "ok q \<Longrightarrow> items q = v # vs \<Longrightarrow>
      \<exists>q'. deq q = Inr (Some v, q') \<and> ok q' \<and> items q' = vs \<and> capacity q' = capacity q"
begin

lemma enq_cases:
  assumes "ok q"
  obtains (full) "length (items q) = capacity q" "enq v q = Inr (Err v, q)"
  | (room) q' where "length (items q) < capacity q" "enq v q = Inr (Ok (), q')" "ok q'"
      "items q' = items q @ [v]" "capacity q' = capacity q"
  using bounded [OF assms] enq_full [OF assms] enq_room [OF assms]
  by (metis le_neq_implies_less)

lemma deq_cases:
  assumes "ok q"
  obtains (empty) "items q = []" "deq q = Inr (None, q)"
  | (cons) v q' where "items q = v # items q'" "deq q = Inr (Some v, q')" "ok q'"
      "capacity q' = capacity q"
  using deq_empty [OF assms] deq_cons [OF assms] by (metis list.exhaust)

text \<open>The operations are the abstract ones under \<open>items\<close>, and never fault.\<close>

lemma enq_refines:
  assumes "ok q"
  shows "\<exists>q'. enq v q = Inr (fst (fifo_enq (capacity q) v (items q)), q') \<and> ok q' \<and>
    items q' = snd (fifo_enq (capacity q) v (items q)) \<and> capacity q' = capacity q"
  by (cases rule: enq_cases [OF assms, of v]) (use assms in \<open>auto simp: fifo_enq_def\<close>)

lemma deq_refines:
  assumes "ok q"
  shows "\<exists>q'. deq q = Inr (fst (fifo_deq (items q)), q') \<and> ok q' \<and>
    items q' = snd (fifo_deq (items q)) \<and> capacity q' = capacity q"
  by (cases rule: deq_cases [OF assms]) (use assms in \<open>auto simp: fifo_deq_def\<close>)

end

section \<open>A stack drained as a whole\<close>

text \<open>
  \<open>env\<close> is what a push takes from its surroundings, the allocator and the outcome of its
  compare-and-swaps.
\<close>

locale drained_stack =
  fixes env_ok :: "'e \<Rightarrow> bool"
    and ok :: "'q \<Rightarrow> bool"
    and contents :: "'q \<Rightarrow> 'a list"
    and push :: "'e \<Rightarrow> 'a \<Rightarrow> 'q \<Rightarrow> 'q run"
    and drain_all :: "'q \<Rightarrow> ('a list \<times> 'q) run"
  assumes push_law: "env_ok e \<Longrightarrow> ok q \<Longrightarrow> \<exists>q'. push e x q = Some (Inr q') \<and> ok q' \<and> contents q' = x # contents q"
    and drain_law: "ok q \<Longrightarrow> \<exists>q'. drain_all q = Some (Inr (contents q, q')) \<and> ok q' \<and> contents q' = []"
begin

fun push_each :: "('e \<times> 'a) list \<Rightarrow> 'q \<Rightarrow> 'q run" where
  "push_each [] q = Some (Inr q)"
| "push_each ((e, x) # xs) q = run_bind (push e x q) (push_each xs)"

text \<open>A drain returns the pushed items, the last one first.\<close>

lemma drain_push_each:
  assumes "ok q" "\<forall>(e, x) \<in> set xs. env_ok e"
  shows "\<exists>q'. run_bind (push_each xs q) drain_all = Some (Inr (rev (map snd xs) @ contents q, q')) \<and> ok q' \<and> contents q' = []"
  using assms
proof (induction xs arbitrary: q)
  case Nil
  then show ?case using drain_law by simp
next
  case (Cons p xs)
  obtain e x where p: "p = (e, x)" by (cases p)
  then obtain q1 where q1: "push e x q = Some (Inr q1)" "ok q1" "contents q1 = x # contents q"
    using push_law [of e q x] Cons.prems by auto
  show ?case using Cons.IH [OF q1(2)] Cons.prems q1 by (auto simp: p)
qed

end

section \<open>A key-value index\<close>

text \<open>
  The operations clients run against an index, and what they return on a finite map.  An insertion
  reports whether the key was new, a deletion whether it was present.
\<close>

datatype kv_op = is_put: Put bytes bytes | Get bytes | Del bytes

datatype kv_res = Inserted bool | Got "bytes option" | Deleted bool

fun map_op :: "kv_op \<Rightarrow> (bytes \<rightharpoonup> bytes) \<Rightarrow> kv_res \<times> (bytes \<rightharpoonup> bytes)" where
  "map_op (Put k v) m = (Inserted (m k = None), m(k \<mapsto> v))"
| "map_op (Get k) m = (Got (m k), m)"
| "map_op (Del k) m = (Deleted (m k \<noteq> None), m(k := None))"

fun map_ops :: "kv_op list \<Rightarrow> (bytes \<rightharpoonup> bytes) \<Rightarrow> kv_res list \<times> (bytes \<rightharpoonup> bytes)" where
  "map_ops [] m = ([], m)"
| "map_ops (x # xs) m =
     (let (r, m') = map_op x m; (rs, m'') = map_ops xs m' in (r # rs, m''))"

text \<open>
  The same operations on an implementation.  \<open>rng\<close> is the thread-local generator state that
  insertions draw levels from.
\<close>

fun kv_step ::
    "(u64 \<Rightarrow> bytes \<Rightarrow> bytes \<Rightarrow> 's \<Rightarrow> (bool \<times> u64 \<times> 's) run) \<Rightarrow> (bytes \<Rightarrow> 's \<Rightarrow> bytes option run) \<Rightarrow>
     (bytes \<Rightarrow> 's \<Rightarrow> (bool \<times> 's) run) \<Rightarrow> kv_op \<Rightarrow> u64 \<Rightarrow> 's \<Rightarrow> (kv_res \<times> u64 \<times> 's) run" where
  "kv_step ins look del (Put k v) rng s =
     run_bind (ins rng k v s) (\<lambda>(new, rng', s'). Some (Inr (Inserted new, rng', s')))"
| "kv_step ins look del (Get k) rng s = run_bind (look k s) (\<lambda>r. Some (Inr (Got r, rng, s)))"
| "kv_step ins look del (Del k) rng s =
     run_bind (del k s) (\<lambda>(was, s'). Some (Inr (Deleted was, rng, s')))"

fun kv_run ::
    "(u64 \<Rightarrow> bytes \<Rightarrow> bytes \<Rightarrow> 's \<Rightarrow> (bool \<times> u64 \<times> 's) run) \<Rightarrow> (bytes \<Rightarrow> 's \<Rightarrow> bytes option run) \<Rightarrow>
     (bytes \<Rightarrow> 's \<Rightarrow> (bool \<times> 's) run) \<Rightarrow> kv_op list \<Rightarrow> u64 \<Rightarrow> 's \<Rightarrow> (kv_res list \<times> u64 \<times> 's) run" where
  "kv_run ins look del [] rng s = Some (Inr ([], rng, s))"
| "kv_run ins look del (x # xs) rng s =
     run_bind (kv_step ins look del x rng s) (\<lambda>(r, rng, s).
     run_bind (kv_run ins look del xs rng s) (\<lambda>(rs, rng, s). Some (Inr (r # rs, rng, s))))"

text \<open>The size limits of an implementation apply to insertions.\<close>

fun op_fits :: "(bytes \<Rightarrow> bytes \<Rightarrow> bool) \<Rightarrow> kv_op \<Rightarrow> bool" where
  "op_fits fits (Put k v) = fits k v"
| "op_fits fits (Get k) = True"
| "op_fits fits (Del k) = True"

lemma op_fits_True [simp]: "op_fits (\<lambda>_ _. True) x"
  by (cases x) simp_all

text \<open>
  \<open>repr s m\<close>: the state \<open>s\<close> holds the map \<open>m\<close>.  \<open>env\<close> is what the operations take from their
  surroundings, the allocator; \<open>oom\<close> says that it can run out of memory, in which case the process
  aborts.
\<close>

locale kv_index =
  fixes env_ok :: "'e \<Rightarrow> bool"
    and oom :: "'e \<Rightarrow> bool"
    and fits :: "bytes \<Rightarrow> bytes \<Rightarrow> bool"
    and repr :: "'s \<Rightarrow> (bytes \<rightharpoonup> bytes) \<Rightarrow> bool"
    and ins :: "'e \<Rightarrow> u64 \<Rightarrow> bytes \<Rightarrow> bytes \<Rightarrow> 's \<Rightarrow> (bool \<times> u64 \<times> 's) run"
    and look :: "bytes \<Rightarrow> 's \<Rightarrow> bytes option run"
    and del :: "bytes \<Rightarrow> 's \<Rightarrow> (bool \<times> 's) run"
    and count :: "'s \<Rightarrow> usize"
  assumes ins_law: "env_ok e \<Longrightarrow> fits k v \<Longrightarrow> repr s m \<Longrightarrow>
      (ins e rng k v s = Some (Inl Abort) \<and> oom e) \<or>
      (\<exists>rng' s'. ins e rng k v s = Some (Inr (m k = None, rng', s')) \<and> repr s' (m(k \<mapsto> v)))"
    and look_law: "repr s m \<Longrightarrow> look k s = Some (Inr (m k))"
    and del_law: "repr s m \<Longrightarrow>
      \<exists>s'. del k s = Some (Inr (m k \<noteq> None, s')) \<and> repr s' (m(k := None))"
    and count_law: "repr s m \<Longrightarrow> finite (dom m) \<and> count s = of_nat (card (dom m))"
begin

lemma step_refines:
  assumes "env_ok e" "repr s m" "op_fits fits x"
  shows "(kv_step (ins e) look del x rng s = Some (Inl Abort) \<and> oom e) \<or>
    (\<exists>rng' s'. kv_step (ins e) look del x rng s = Some (Inr (fst (map_op x m), rng', s')) \<and>
       repr s' (snd (map_op x m)))"
proof (cases x)
  case (Put k v)
  then show ?thesis using ins_law [OF assms(1) _ assms(2), of k v rng] assms(3) by auto
next
  case (Get k)
  then show ?thesis using look_law [OF assms(2), of k] assms(2) by simp
next
  case (Del k)
  then show ?thesis using del_law [OF assms(2), of k] by auto
qed

text \<open>Any sequence of operations returns what it returns on the map.\<close>

lemma run_refines:
  assumes "env_ok e" "repr s m" "\<forall>x \<in> set xs. op_fits fits x"
  shows "(kv_run (ins e) look del xs rng s = Some (Inl Abort) \<and> oom e) \<or>
    (\<exists>rng' s'. kv_run (ins e) look del xs rng s = Some (Inr (fst (map_ops xs m), rng', s')) \<and>
       repr s' (snd (map_ops xs m)))"
  using assms(2,3)
proof (induction xs arbitrary: rng s m)
  case Nil
  then show ?case by simp
next
  case (Cons x xs)
  have x: "op_fits fits x" and xs: "\<forall>x \<in> set xs. op_fits fits x" using Cons.prems(2) by simp_all
  from step_refines [OF assms(1) Cons.prems(1) x, of rng] show ?case
  proof (elim disjE exE conjE)
    fix rng' s'
    assume s: "kv_step (ins e) look del x rng s = Some (Inr (fst (map_op x m), rng', s'))"
      and r: "repr s' (snd (map_op x m))"
    show ?thesis
      using Cons.IH [OF r xs, of rng'] by (auto simp: s Let_def split: prod.splits)
  qed simp
qed

text \<open>Without insertions nothing is allocated.\<close>

lemma no_put_no_abort:
  assumes "repr s m" "\<forall>x \<in> set xs. \<not> is_put x"
  shows "kv_run (ins e) look del xs rng s \<noteq> Some (Inl Abort)"
  using assms
proof (induction xs arbitrary: rng s m)
  case (Cons x xs)
  show ?case
  proof (cases x)
    case (Get k)
    then show ?thesis
      using look_law [OF Cons.prems(1), of k] Cons.IH [OF Cons.prems(1)] Cons.prems(2)
      by (auto simp: run_bind_def split: bind_splits sum.splits)
  next
    case (Del k)
    obtain s' where s': "del k s = Some (Inr (m k \<noteq> None, s'))" "repr s' (m(k := None))"
      using del_law [OF Cons.prems(1), of k] by blast
    then show ?thesis
      using Del Cons.IH [OF s'(2)] Cons.prems(2) by (auto simp: run_bind_def split: bind_splits sum.splits)
  qed (use Cons.prems(2) in simp)
qed simp

lemma one_put:
  assumes "env_ok e" "fits k v" "repr s m" "ins e rng k v s \<noteq> Some (Inl Abort)" "\<forall>x \<in> set xs. \<not> is_put x"
  shows "kv_run (ins e) look del (Put k v # xs) rng s \<noteq> Some (Inl Abort)"
proof -
  obtain rng' s' where "ins e rng k v s = Some (Inr (m k = None, rng', s'))" "repr s' (m(k \<mapsto> v))"
    using ins_law [OF assms(1,2,3), of rng] assms(4) by blast
  then show ?thesis
    using no_put_no_abort [OF _ assms(5)] by (auto simp: run_bind_def split: bind_splits sum.splits)
qed

end

end
