(* ===== verification/Spsc.thy ===== *)
theory Spsc
  imports Interfaces
begin

text \<open>
  The single-producer/single-consumer ring of \<open>crates/zerokv/src/spsc.rs\<close>: the ring record,
  \<open>channel\<close>, \<open>push\<close>, \<open>pop\<close>, \<open>drain\<close> and the destructor as functions, and the interleaving of
  one producer with one consumer at the granularity of the single loads, slot accesses and
  stores of the code.  The atomics are modelled sequentially consistent.

  A slot is an \<open>option\<close>: \<open>None\<close> is \<open>MaybeUninit::uninit()\<close>, and reading it is \<^const>\<open>UB\<close>.
  \<open>assume_init_read\<close> copies the slot and leaves its bytes, so a read does not change the slot.
\<close>

section \<open>The ring and its operations\<close>

record 'a ring =
  ring_buf :: "'a option list"
  ring_mask :: usize
  ring_tail :: usize
  ring_head :: usize

definition channel :: "usize \<Rightarrow> 'a ring" where
  "channel capacity =
     (let cap = next_power_of_two (max capacity 2)
      in \<lparr>ring_buf = replicate (unat cap) None, ring_mask = cap - 1, ring_tail = 0, ring_head = 0\<rparr>)"

definition ring_slot :: "'a ring \<Rightarrow> usize \<Rightarrow> nat" where
  "ring_slot r i = unat (i AND ring_mask r)"

definition ring_full :: "'a ring \<Rightarrow> usize \<Rightarrow> usize \<Rightarrow> bool" where
  "ring_full r t h \<longleftrightarrow> t - h = of_nat (length (ring_buf r))"

definition slot_write :: "'a ring \<Rightarrow> usize \<Rightarrow> 'a \<Rightarrow> 'a ring res" where
  "slot_write r i v =
     (if ring_slot r i < length (ring_buf r)
      then Inr (r\<lparr>ring_buf := (ring_buf r)[ring_slot r i := Some v]\<rparr>) else Inl Panic)"

definition slot_read :: "'a ring \<Rightarrow> usize \<Rightarrow> 'a res" where
  "slot_read r i =
     (if ring_slot r i < length (ring_buf r)
      then (case ring_buf r ! ring_slot r i of None \<Rightarrow> Inl UB | Some v \<Rightarrow> Inr v) else Inl Panic)"

definition push :: "'a \<Rightarrow> 'a ring \<Rightarrow> ((unit, 'a) result \<times> 'a ring) res" where
  "push v r =
     (let t = ring_tail r; h = ring_head r
      in if ring_full r t h then Inr (Err v, r)
         else case slot_write r t v of
             Inl e \<Rightarrow> Inl e
           | Inr r' \<Rightarrow> Inr (Ok (), r'\<lparr>ring_tail := t + 1\<rparr>))"

definition pop :: "'a ring \<Rightarrow> ('a option \<times> 'a ring) res" where
  "pop r =
     (let h = ring_head r; t = ring_tail r
      in if h = t then Inr (None, r)
         else case slot_read r h of
             Inl e \<Rightarrow> Inl e
           | Inr v \<Rightarrow> Inr (Some v, r\<lparr>ring_head := h + 1\<rparr>))"

text \<open>\<open>drain(max, f)\<close>: the callback is a state transformer \<open>f\<close>; the count handled is returned.\<close>

fun drain_from :: "nat \<Rightarrow> nat \<Rightarrow> ('a \<Rightarrow> 's \<Rightarrow> 's) \<Rightarrow> 'a ring \<Rightarrow> 's \<Rightarrow> (nat \<times> 'a ring \<times> 's) res" where
  "drain_from 0 n f r s = Inr (n, r, s)"
| "drain_from (Suc k) n f r s =
     (case pop r of
        Inl e \<Rightarrow> Inl e
      | Inr (Some v, r') \<Rightarrow> drain_from k (n + 1) f r' (f v s)
      | Inr (None, r') \<Rightarrow> Inr (n, r', s))"

definition drain :: "usize \<Rightarrow> ('a \<Rightarrow> 's \<Rightarrow> 's) \<Rightarrow> 'a ring \<Rightarrow> 's \<Rightarrow> (nat \<times> 'a ring \<times> 's) res" where
  "drain max_n f r s = drain_from (unat max_n) 0 f r s"

text \<open>\<open>Drop for Ring\<close>: the values dropped, in order, from \<open>i\<close> up to \<open>t\<close>.\<close>

function drop_range :: "'a ring \<Rightarrow> usize \<Rightarrow> usize \<Rightarrow> 'a list res" where
  "drop_range r i t =
     (if i = t then Inr []
      else case slot_read r i of
          Inl e \<Rightarrow> Inl e
        | Inr v \<Rightarrow> (case drop_range r (i + 1) t of Inl e \<Rightarrow> Inl e | Inr vs \<Rightarrow> Inr (v # vs)))"
  by pat_completeness auto
termination
proof (relation "measure (\<lambda>(r, i, t). unat (t - i))")
  fix r :: "'a ring" and i t :: usize and v :: 'a
  assume "i \<noteq> t"
  then have "t - i \<noteq> 0" by simp
  then have "unat (t - i - 1) < unat (t - i)" by (simp add: unat_gt_0 unat_minus_one)
  then show "((r, i + 1, t), r, i, t) \<in> measure (\<lambda>(r, i, t). unat (t - i))"
    by (simp add: diff_diff_add)
qed simp

declare drop_range.simps [simp del]

definition drop_ring :: "'a ring \<Rightarrow> 'a list res" where
  "drop_ring r = drop_range r (ring_head r) (ring_tail r)"

section \<open>The ring holds a window of its history\<close>

text \<open>
  \<open>ring_inv r ps n\<close>: \<open>ps\<close> is everything ever pushed and \<open>n\<close> of it has been popped.  The cursors
  are the two counts modulo \<open>2 ^ 64\<close>, the window between them fits the buffer, and each of its
  slots holds the value pushed at that count.
\<close>

definition cap_ok :: "'a ring \<Rightarrow> bool" where
  "cap_ok r \<longleftrightarrow> (\<exists>k\<in>{1..<64}. length (ring_buf r) = 2 ^ k \<and> ring_mask r = 2 ^ k - 1)"

definition ring_inv :: "'a ring \<Rightarrow> 'a list \<Rightarrow> nat \<Rightarrow> bool" where
  "ring_inv r ps n \<longleftrightarrow>
     cap_ok r \<and> ring_tail r = of_nat (length ps) \<and> ring_head r = of_nat n \<and>
     n \<le> length ps \<and> length ps - n \<le> length (ring_buf r) \<and>
     (\<forall>i. n \<le> i \<and> i < length ps \<longrightarrow> ring_buf r ! (i mod length (ring_buf r)) = Some (ps ! i))"

definition ring_ok :: "'a ring \<Rightarrow> bool" where
  "ring_ok r \<longleftrightarrow> (\<exists>ps n. ring_inv r ps n)"

text \<open>The queued values, oldest first.\<close>

definition contents :: "'a ring \<Rightarrow> 'a list" where
  "contents r = map (\<lambda>i. the (ring_buf r ! ring_slot r (ring_head r + of_nat i)))
     [0..<unat (ring_tail r - ring_head r)]"

abbreviation ring_capacity :: "'a ring \<Rightarrow> nat" where
  "ring_capacity r \<equiv> length (ring_buf r)"

lemma cap_okE:
  assumes "cap_ok r"
  obtains k where "1 \<le> k" "k < 64" "length (ring_buf r) = 2 ^ k" "ring_mask r = 2 ^ k - 1"
  using assms by (auto simp: cap_ok_def)

lemma cap_ok_bounds:
  assumes "cap_ok r"
  shows "2 \<le> ring_capacity r" "ring_capacity r < 2 ^ 64"
proof -
  from assms obtain k where k: "1 \<le> k" "k < 64" "length (ring_buf r) = 2 ^ k"
    by (rule cap_okE)
  then have "(2::nat) * 1 \<le> 2 ^ k" by (cases k) simp_all
  with k show "2 \<le> ring_capacity r" "ring_capacity r < 2 ^ 64" by simp_all
qed

lemma ring_slot_of_nat [word_facts]:
  assumes "cap_ok r"
  shows "ring_slot r (of_nat i) = i mod ring_capacity r"
proof -
  from assms obtain k where k: "k < 64" "length (ring_buf r) = 2 ^ k" "ring_mask r = 2 ^ k - 1"
    by (rule cap_okE)
  then show ?thesis
    by (simp add: ring_slot_def unat_and_mask unat_of_nat mod_mod_cancel)
qed

lemma ring_full_of_nat:
  assumes "cap_ok r" "m \<le> n" "n - m \<le> ring_capacity r"
  shows "ring_full r (of_nat n) (of_nat m) \<longleftrightarrow> n - m = ring_capacity r"
proof -
  from assms(1) have "ring_capacity r < 2 ^ 64" by (rule cap_ok_bounds)
  moreover from this assms(3) have "n - m < 2 ^ 64" by linarith
  ultimately show ?thesis
    unfolding ring_full_def of_nat_diff_word [OF assms(2)] by (rule of_nat_eq_small [rotated])
qed

lemma window_eq_iff:
  assumes "cap_ok r" "m \<le> n" "n - m \<le> ring_capacity r"
  shows "(of_nat m :: usize) = of_nat n \<longleftrightarrow> m = n"
proof -
  have "n - m < 2 ^ 64" using assms(1,3) cap_ok_bounds(2) [of r] by linarith
  have "(of_nat m :: usize) = of_nat n \<longleftrightarrow> (of_nat (n - m) :: usize) = of_nat 0"
    using of_nat_diff_word [OF assms(2)] by auto
  also have "\<dots> \<longleftrightarrow> n - m = 0"
    using \<open>n - m < 2 ^ 64\<close> by (intro of_nat_eq_small) auto
  finally show ?thesis using assms(2) by auto
qed

lemma ring_inv_capacity: "ring_inv r ps n \<Longrightarrow> 2 \<le> ring_capacity r"
  by (simp add: ring_inv_def cap_ok_bounds)

lemma ring_inv_channel:
  assumes "unat c \<le> 2 ^ 63"
  shows "ring_inv (channel c) [] 0"
proof -
  have "unat (max c 2) \<le> 2 ^ 63" using assms by (auto simp: max_def)
  then obtain k where k: "k < 64" "next_power_of_two (max c 2) = 2 ^ k" "unat (max c 2) \<le> 2 ^ k"
    by (rule next_power_of_two_cases)
  have "2 \<le> unat (max c 2)" by (simp add: max_def word_le_nat_alt)
  with k(3) have "k \<noteq> 0" by (cases k) auto
  with k show ?thesis
    by (auto simp: ring_inv_def channel_def cap_ok_def Let_def word_facts)
qed

lemma ring_inv_write:
  assumes "ring_inv r ps n" "length ps - n < ring_capacity r"
  shows "slot_write r (of_nat (length ps)) v =
     Inr (r\<lparr>ring_buf := (ring_buf r)[length ps mod ring_capacity r := Some v]\<rparr>)"
  using assms by (auto simp: slot_write_def ring_inv_def ring_slot_of_nat intro!: mod_less_divisor)

text \<open>Writing the slot at the producer's cursor does not touch the window.\<close>

lemma ring_inv_slot_write:
  assumes "ring_inv r ps n" "length ps - n < ring_capacity r"
  shows "ring_inv (r\<lparr>ring_buf := (ring_buf r)[length ps mod ring_capacity r := Some v]\<rparr>) ps n"
proof -
  have "length ps mod ring_capacity r \<noteq> i mod ring_capacity r"
    if "n \<le> i" "i < length ps" for i
    using that assms(2) by (intro mod_window_neq [symmetric]) auto
  then show ?thesis using assms(1) by (simp add: ring_inv_def cap_ok_def)
qed

lemma ring_inv_publish:
  assumes "ring_inv r ps n" "length ps - n < ring_capacity r"
    and "ring_buf r ! (length ps mod ring_capacity r) = Some v"
  shows "ring_inv (r\<lparr>ring_tail := of_nat (length ps) + 1\<rparr>) (ps @ [v]) n"
  using assms by (auto simp: ring_inv_def cap_ok_def nth_append less_Suc_eq)

lemma ring_inv_read:
  assumes "ring_inv r ps n" "n < length ps"
  shows "slot_read r (of_nat n) = Inr (ps ! n)"
proof -
  have "n mod ring_capacity r < ring_capacity r"
    using ring_inv_capacity [OF assms(1)] by (intro mod_less_divisor) linarith
  then show ?thesis using assms by (auto simp: slot_read_def ring_inv_def ring_slot_of_nat)
qed

lemma ring_inv_advance:
  "ring_inv r ps n \<Longrightarrow> n < length ps \<Longrightarrow> ring_inv (r\<lparr>ring_head := of_nat n + 1\<rparr>) ps (Suc n)"
  by (auto simp: ring_inv_def cap_ok_def)

lemma contents_inv:
  assumes "ring_inv r ps n"
  shows "contents r = drop n ps"
proof -
  have cap: "cap_ok r" and le: "n \<le> length ps" and w: "length ps - n \<le> ring_capacity r"
    and t: "ring_tail r = of_nat (length ps)" and h: "ring_head r = of_nat n"
    using assms by (auto simp: ring_inv_def)
  have len: "unat (ring_tail r - ring_head r) = length ps - n"
  proof -
    have "length ps - n < 2 ^ 64" using w cap_ok_bounds(2) [OF cap] by linarith
    then show ?thesis unfolding t h of_nat_diff_word [OF le] by (simp add: unat_of_nat)
  qed
  show ?thesis
  proof (rule nth_equalityI)
    show "length (contents r) = length (drop n ps)" by (simp add: contents_def len)
  next
    fix i assume "i < length (contents r)"
    then have i: "i < length ps - n" by (simp add: contents_def len)
    have "ring_head r + of_nat i = of_nat (n + i)" by (simp add: h)
    then have "ring_buf r ! ring_slot r (ring_head r + of_nat i) = Some (ps ! (n + i))"
      using assms i by (simp only: ring_slot_of_nat [OF cap]) (simp add: ring_inv_def)
    then show "contents r ! i = drop n ps ! i"
      using i le by (simp add: contents_def len)
  qed
qed

section \<open>What push and pop do to the queue\<close>

lemma push_inv_full:
  assumes "ring_inv r ps n" "length ps - n = ring_capacity r"
  shows "push v r = Inr (Err v, r)"
  using assms ring_full_of_nat [of r n "length ps"] by (simp add: push_def Let_def ring_inv_def)

lemma push_inv_room:
  assumes "ring_inv r ps n" "length ps - n < ring_capacity r"
  obtains r' where "push v r = Inr (Ok (), r')" "ring_inv r' (ps @ [v]) n"
    "ring_capacity r' = ring_capacity r"
proof -
  let ?r = "r\<lparr>ring_buf := (ring_buf r)[length ps mod ring_capacity r := Some v]\<rparr>"
  have nf: "\<not> ring_full r (ring_tail r) (ring_head r)"
    using assms ring_full_of_nat [of r n "length ps"] by (simp add: ring_inv_def)
  have t: "ring_tail r = of_nat (length ps)" using assms(1) by (simp add: ring_inv_def)
  have inv: "ring_inv ?r ps n" using assms by (rule ring_inv_slot_write)
  have "ring_inv (?r\<lparr>ring_tail := of_nat (length ps) + 1\<rparr>) (ps @ [v]) n"
  proof (rule ring_inv_publish [OF inv])
    have "length ps mod ring_capacity r < ring_capacity r"
      using assms(2) by (intro mod_less_divisor) linarith
    then show "ring_buf ?r ! (length ps mod ring_capacity ?r) = Some v" by simp
  qed (use assms(2) in simp)
  moreover have "push v r = Inr (Ok (), ?r\<lparr>ring_tail := of_nat (length ps) + 1\<rparr>)"
    using nf ring_inv_write [OF assms, of v] by (simp add: push_def Let_def t)
  ultimately show ?thesis using that by simp
qed

lemma pop_inv_empty: "ring_inv r ps n \<Longrightarrow> n = length ps \<Longrightarrow> pop r = Inr (None, r)"
  by (simp add: pop_def ring_inv_def Let_def)

lemma pop_inv_some:
  assumes "ring_inv r ps n" "n < length ps"
  shows "pop r = Inr (Some (ps ! n), r\<lparr>ring_head := of_nat n + 1\<rparr>)"
    and "ring_inv (r\<lparr>ring_head := of_nat n + 1\<rparr>) ps (Suc n)"
proof -
  have "ring_head r \<noteq> ring_tail r"
    using assms window_eq_iff [of r n "length ps"] by (simp add: ring_inv_def)
  moreover have "ring_head r = of_nat n" using assms(1) by (simp add: ring_inv_def)
  ultimately show "pop r = Inr (Some (ps ! n), r\<lparr>ring_head := of_nat n + 1\<rparr>)"
    using ring_inv_read [OF assms] by (simp add: pop_def Let_def)
  show "ring_inv (r\<lparr>ring_head := of_nat n + 1\<rparr>) ps (Suc n)"
    using assms by (rule ring_inv_advance)
qed

lemma ring_ok_channel: "unat c \<le> 2 ^ 63 \<Longrightarrow> ring_ok (channel c)"
  unfolding ring_ok_def by (blast intro: ring_inv_channel)

lemma contents_channel: "unat c \<le> 2 ^ 63 \<Longrightarrow> contents (channel c) = []"
  using contents_inv [OF ring_inv_channel] by simp

lemma push_spec:
  assumes "ring_ok r"
  obtains "length (contents r) = ring_capacity r" "push v r = Inr (Err v, r)"
  | r' where "length (contents r) < ring_capacity r" "push v r = Inr (Ok (), r')" "ring_ok r'"
      "contents r' = contents r @ [v]" "ring_capacity r' = ring_capacity r"
proof -
  from assms obtain ps n where inv: "ring_inv r ps n" by (auto simp: ring_ok_def)
  have le: "n \<le> length ps" "length ps - n \<le> ring_capacity r" using inv by (auto simp: ring_inv_def)
  have c: "contents r = drop n ps" using inv by (rule contents_inv)
  show ?thesis
  proof (cases "length ps - n = ring_capacity r")
    case True
    with push_inv_full [OF inv True] c that(1) show ?thesis by simp
  next
    case False
    with le have "length ps - n < ring_capacity r" by simp
    then obtain r' where r': "push v r = Inr (Ok (), r')" "ring_inv r' (ps @ [v]) n"
      "ring_capacity r' = ring_capacity r" using push_inv_room [OF inv] by blast
    show ?thesis
    proof (rule that(2))
      show "contents r' = contents r @ [v]" using contents_inv [OF r'(2)] c le by simp
      show "ring_ok r'" using r'(2) by (auto simp: ring_ok_def)
      show "length (contents r) < ring_capacity r" using le False c by simp
    qed fact+
  qed
qed

lemma pop_spec:
  assumes "ring_ok r"
  obtains "contents r = []" "pop r = Inr (None, r)"
  | v vs r' where "contents r = v # vs" "pop r = Inr (Some v, r')" "ring_ok r'" "contents r' = vs"
      "ring_capacity r' = ring_capacity r"
proof -
  from assms obtain ps n where inv: "ring_inv r ps n" by (auto simp: ring_ok_def)
  have le: "n \<le> length ps" using inv by (auto simp: ring_inv_def)
  have c: "contents r = drop n ps" using inv by (rule contents_inv)
  show ?thesis
  proof (cases "n = length ps")
    case True
    with pop_inv_empty [OF inv True] c that(1) show ?thesis by simp
  next
    case False
    with le have n: "n < length ps" by simp
    have "contents r = ps ! n # drop (Suc n) ps" using n c by (simp add: Cons_nth_drop_Suc)
    moreover note pop_inv_some [OF inv n]
    ultimately show ?thesis
      using that(2) [of "ps ! n" "drop (Suc n) ps"]
        contents_inv [of "r\<lparr>ring_head := of_nat n + 1\<rparr>" ps "Suc n"]
      by (force simp: ring_ok_def)
  qed
qed

interpretation ring: bounded_fifo ring_ok contents ring_capacity push pop
proof unfold_locales
  fix q :: "'a ring" and v :: 'a and vs
  assume ok: "ring_ok q"
  then obtain ps n where inv: "ring_inv q ps n" by (auto simp: ring_ok_def)
  show "length (contents q) \<le> ring_capacity q"
    using inv contents_inv [OF inv] by (simp add: ring_inv_def)
  show "push v q = Inr (Err v, q)" if "length (contents q) = ring_capacity q"
    using push_spec [OF ok, of v] that by (metis less_irrefl)
  show "\<exists>q'. push v q = Inr (Ok (), q') \<and> ring_ok q' \<and> contents q' = contents q @ [v] \<and>
      ring_capacity q' = ring_capacity q" if "length (contents q) < ring_capacity q"
    using push_spec [OF ok, of v] that by (metis less_irrefl)
  show "pop q = Inr (None, q)" if "contents q = []"
    using pop_spec [OF ok] that by (metis list.distinct(1))
  show "\<exists>q'. pop q = Inr (Some v, q') \<and> ring_ok q' \<and> contents q' = vs \<and>
      ring_capacity q' = ring_capacity q" if "contents q = v # vs"
    using pop_spec [OF ok] that by (metis list.distinct(1) list.inject)
qed

lemma drain_from_spec:
  assumes "ring_ok r"
  shows "\<exists>r'. drain_from k n f r s =
      Inr (n + min k (length (contents r)), r', fold f (take k (contents r)) s) \<and>
      ring_ok r' \<and> contents r' = drop k (contents r)"
  using assms
proof (induction k arbitrary: n r s)
  case (Suc k)
  from \<open>ring_ok r\<close> show ?case
  proof (cases rule: ring.deq_cases)
    case empty
    then show ?thesis using Suc.prems by simp
  next
    case (cons v q')
    then show ?thesis using Suc.IH [OF cons(3), of "n + 1" "f v s"] by simp
  qed
qed simp

lemma drop_range_inv:
  assumes "ring_inv r ps n" "n \<le> i" "i \<le> length ps"
  shows "drop_range r (of_nat i) (of_nat (length ps)) = Inr (drop i ps)"
  using assms(2,3)
proof (induction "length ps - i" arbitrary: i)
  case 0
  then show ?case by (simp add: drop_range.simps)
next
  case (Suc d)
  then have i: "i < length ps" by simp
  have cap: "cap_ok r" "length ps - n \<le> ring_capacity r" using assms(1) by (auto simp: ring_inv_def)
  have "i mod ring_capacity r < ring_capacity r"
    using ring_inv_capacity [OF assms(1)] by (intro mod_less_divisor) linarith
  then have rd: "slot_read r (of_nat i) = Inr (ps ! i)"
    using assms(1) i Suc.prems by (auto simp: slot_read_def ring_inv_def ring_slot_of_nat)
  have "(of_nat i :: usize) \<noteq> of_nat (length ps)"
    using window_eq_iff [OF cap(1), of i "length ps"] i cap(2) Suc.prems by simp
  moreover have "drop_range r (of_nat (Suc i)) (of_nat (length ps)) = Inr (drop (Suc i) ps)"
    using Suc.hyps(1) [of "Suc i"] Suc.hyps(2) Suc.prems i by simp
  ultimately show ?case
    using rd i by (subst drop_range.simps) (simp add: add.commute Cons_nth_drop_Suc)
qed

section \<open>One producer and one consumer, interleaved\<close>

text \<open>
  Where the producer stands in \<open>push\<close> and the consumer in \<open>pop\<close>, with the values they have
  loaded.  \<open>sp_pushed\<close> records the values whose \<open>push\<close> returned \<open>Ok\<close>, \<open>sp_popped\<close> those that
  \<open>pop\<close> returned.
\<close>

datatype 'a producer = PIdle | PTail 'a usize | PHead 'a usize usize | PWrote 'a usize

datatype 'a consumer = CIdle | CHead usize | CTail usize usize | CRead 'a usize

record 'a spsc =
  sp_ring :: "'a ring"
  sp_producer :: "'a producer"
  sp_consumer :: "'a consumer"
  sp_pushed :: "'a list"
  sp_popped :: "'a list"

definition spsc_init :: "usize \<Rightarrow> 'a spsc" where
  "spsc_init c = \<lparr>sp_ring = channel c, sp_producer = PIdle, sp_consumer = CIdle,
     sp_pushed = [], sp_popped = []\<rparr>"

inductive spsc_step :: "'a spsc \<Rightarrow> 'a spsc \<Rightarrow> bool" where
  load_own_tail: "sp_producer s = PIdle \<Longrightarrow>
    spsc_step s (s\<lparr>sp_producer := PTail v (ring_tail (sp_ring s))\<rparr>)"
| load_other_head: "sp_producer s = PTail v t \<Longrightarrow>
    spsc_step s (s\<lparr>sp_producer := PHead v t (ring_head (sp_ring s))\<rparr>)"
| push_full: "sp_producer s = PHead v t h \<Longrightarrow> ring_full (sp_ring s) t h \<Longrightarrow>
    spsc_step s (s\<lparr>sp_producer := PIdle\<rparr>)"
| push_write: "sp_producer s = PHead v t h \<Longrightarrow> \<not> ring_full (sp_ring s) t h \<Longrightarrow>
    slot_write (sp_ring s) t v = Inr r \<Longrightarrow>
    spsc_step s (s\<lparr>sp_ring := r, sp_producer := PWrote v t\<rparr>)"
| push_publish: "sp_producer s = PWrote v t \<Longrightarrow>
    spsc_step s (s\<lparr>sp_ring := (sp_ring s)\<lparr>ring_tail := t + 1\<rparr>, sp_producer := PIdle,
      sp_pushed := sp_pushed s @ [v]\<rparr>)"
| load_own_head: "sp_consumer s = CIdle \<Longrightarrow>
    spsc_step s (s\<lparr>sp_consumer := CHead (ring_head (sp_ring s))\<rparr>)"
| load_other_tail: "sp_consumer s = CHead h \<Longrightarrow>
    spsc_step s (s\<lparr>sp_consumer := CTail h (ring_tail (sp_ring s))\<rparr>)"
| pop_empty: "sp_consumer s = CTail h t \<Longrightarrow> h = t \<Longrightarrow>
    spsc_step s (s\<lparr>sp_consumer := CIdle\<rparr>)"
| pop_read: "sp_consumer s = CTail h t \<Longrightarrow> h \<noteq> t \<Longrightarrow> slot_read (sp_ring s) h = Inr v \<Longrightarrow>
    spsc_step s (s\<lparr>sp_consumer := CRead v h\<rparr>)"
| pop_advance: "sp_consumer s = CRead v h \<Longrightarrow>
    spsc_step s (s\<lparr>sp_ring := (sp_ring s)\<lparr>ring_head := h + 1\<rparr>, sp_consumer := CIdle,
      sp_popped := sp_popped s @ [v]\<rparr>)"

inductive spsc_reach :: "usize \<Rightarrow> 'a spsc \<Rightarrow> bool" for c where
  spsc_start: "spsc_reach c (spsc_init c)"
| spsc_next: "spsc_reach c s \<Longrightarrow> spsc_step s s' \<Longrightarrow> spsc_reach c s'"

definition producer_inv :: "'a spsc \<Rightarrow> bool" where
  "producer_inv s \<longleftrightarrow>
     (case sp_producer s of
        PIdle \<Rightarrow> True
      | PTail v t \<Rightarrow> t = ring_tail (sp_ring s)
      | PHead v t h \<Rightarrow> t = ring_tail (sp_ring s) \<and>
          (\<exists>m \<le> length (sp_popped s). h = of_nat m \<and>
             length (sp_pushed s) - m \<le> ring_capacity (sp_ring s))
      | PWrote v t \<Rightarrow> t = ring_tail (sp_ring s) \<and>
          length (sp_pushed s) - length (sp_popped s) < ring_capacity (sp_ring s) \<and>
          ring_buf (sp_ring s) ! (length (sp_pushed s) mod ring_capacity (sp_ring s)) = Some v)"

definition consumer_inv :: "'a spsc \<Rightarrow> bool" where
  "consumer_inv s \<longleftrightarrow>
     (case sp_consumer s of
        CIdle \<Rightarrow> True
      | CHead h \<Rightarrow> h = ring_head (sp_ring s)
      | CTail h t \<Rightarrow> h = ring_head (sp_ring s) \<and>
          (\<exists>m. length (sp_popped s) \<le> m \<and> m \<le> length (sp_pushed s) \<and> t = of_nat m)
      | CRead v h \<Rightarrow> h = ring_head (sp_ring s) \<and> length (sp_popped s) < length (sp_pushed s) \<and>
          v = sp_pushed s ! length (sp_popped s))"

definition spsc_inv :: "'a spsc \<Rightarrow> bool" where
  "spsc_inv s \<longleftrightarrow>
     ring_inv (sp_ring s) (sp_pushed s) (length (sp_popped s)) \<and>
     take (length (sp_popped s)) (sp_pushed s) = sp_popped s \<and> producer_inv s \<and> consumer_inv s"

lemmas spsc_inv_defs = spsc_inv_def producer_inv_def consumer_inv_def

lemma spsc_inv_tail: "spsc_inv s \<Longrightarrow> ring_tail (sp_ring s) = of_nat (length (sp_pushed s))"
  and spsc_inv_head: "spsc_inv s \<Longrightarrow> ring_head (sp_ring s) = of_nat (length (sp_popped s))"
  by (auto simp: spsc_inv_def ring_inv_def)

lemma spsc_inv_init: "unat c \<le> 2 ^ 63 \<Longrightarrow> spsc_inv (spsc_init c)"
  using ring_inv_channel [of c] by (simp add: spsc_inv_defs spsc_init_def)

text \<open>A producer past its full check has room, whatever the consumer did meanwhile.\<close>

lemma producer_room:
  assumes "spsc_inv s" "sp_producer s = PHead v t h" "\<not> ring_full (sp_ring s) t h"
  shows "length (sp_pushed s) - length (sp_popped s) < ring_capacity (sp_ring s)"
proof -
  from assms obtain m where m: "m \<le> length (sp_popped s)" "h = of_nat m"
    "length (sp_pushed s) - m \<le> ring_capacity (sp_ring s)"
    and t: "t = of_nat (length (sp_pushed s))"
    by (auto simp: spsc_inv_defs ring_inv_def)
  from assms(1) have le: "length (sp_popped s) \<le> length (sp_pushed s)" and cap: "cap_ok (sp_ring s)"
    by (auto simp: spsc_inv_def ring_inv_def)
  from m(1) le have "m \<le> length (sp_pushed s)" by (rule le_trans)
  from ring_full_of_nat [OF cap this m(3)] assms(3)
  have "length (sp_pushed s) - m \<noteq> ring_capacity (sp_ring s)" unfolding t m(2) by blast
  then show ?thesis using m(1,3) by linarith
qed

text \<open>A consumer past its empty check has a value to read.\<close>

lemma consumer_has_value:
  assumes "spsc_inv s" "sp_consumer s = CTail h t" "h \<noteq> t"
  shows "length (sp_popped s) < length (sp_pushed s)"
proof -
  from assms(1,2) obtain m where m: "length (sp_popped s) \<le> m" "m \<le> length (sp_pushed s)"
    "t = of_nat m" and "h = ring_head (sp_ring s)"
    by (auto simp: spsc_inv_def consumer_inv_def)
  with assms(3) spsc_inv_head [OF assms(1)] have "m \<noteq> length (sp_popped s)" by blast
  with m show ?thesis by linarith
qed

text \<open>Neither end looks at what the other one writes, beyond the two cursors and the counts.\<close>

lemma consumer_inv_frame:
  assumes "consumer_inv s" "sp_consumer s' = sp_consumer s" "sp_popped s' = sp_popped s"
    and "ring_head (sp_ring s') = ring_head (sp_ring s)" "sp_pushed s' = sp_pushed s @ vs"
  shows "consumer_inv s'"
  using assms by (cases "sp_consumer s") (auto simp: consumer_inv_def nth_append intro: trans_le_add1)

lemma producer_inv_frame:
  assumes "producer_inv s" "sp_producer s' = sp_producer s" "sp_pushed s' = sp_pushed s"
    and "ring_tail (sp_ring s') = ring_tail (sp_ring s)" "ring_buf (sp_ring s') = ring_buf (sp_ring s)"
    and "sp_popped s' = sp_popped s @ vs"
  shows "producer_inv s'"
  using assms by (cases "sp_producer s") (auto simp: producer_inv_def intro: trans_le_add1)

lemma spsc_inv_write:
  assumes "spsc_inv s" "sp_producer s = PHead v t h" "\<not> ring_full (sp_ring s) t h"
    and "slot_write (sp_ring s) t v = Inr r"
  shows "spsc_inv (s\<lparr>sp_ring := r, sp_producer := PWrote v t\<rparr>)"
proof -
  have room: "length (sp_pushed s) - length (sp_popped s) < ring_capacity (sp_ring s)"
    using assms(1-3) by (rule producer_room)
  have inv: "ring_inv (sp_ring s) (sp_pushed s) (length (sp_popped s))"
    using assms(1) by (simp add: spsc_inv_def)
  have t: "t = of_nat (length (sp_pushed s))" "ring_tail (sp_ring s) = t"
    using assms(1,2) spsc_inv_tail [OF assms(1)] by (auto simp: spsc_inv_def producer_inv_def)
  define i where "i = length (sp_pushed s) mod ring_capacity (sp_ring s)"
  have r: "r = (sp_ring s)\<lparr>ring_buf := (ring_buf (sp_ring s))[i := Some v]\<rparr>"
    using ring_inv_write [OF inv room, of v] assms(4) by (simp add: t(1) i_def)
  have lt: "i < ring_capacity (sp_ring s)"
    unfolding i_def using room by (intro mod_less_divisor) linarith
  show ?thesis
    unfolding spsc_inv_def
  proof (intro conjI)
    show "producer_inv (s\<lparr>sp_ring := r, sp_producer := PWrote v t\<rparr>)"
      by (simp add: producer_inv_def r t(2) room lt flip: i_def)
    show "consumer_inv (s\<lparr>sp_ring := r, sp_producer := PWrote v t\<rparr>)"
      by (rule consumer_inv_frame [of s _ "[]"]) (use assms(1) in \<open>auto simp: spsc_inv_def r\<close>)
    show "ring_inv (sp_ring (s\<lparr>sp_ring := r, sp_producer := PWrote v t\<rparr>))
        (sp_pushed (s\<lparr>sp_ring := r, sp_producer := PWrote v t\<rparr>))
        (length (sp_popped (s\<lparr>sp_ring := r, sp_producer := PWrote v t\<rparr>)))"
      using ring_inv_slot_write [OF inv room, of v] by (simp add: r i_def)
  qed (use assms(1) in \<open>simp add: spsc_inv_def\<close>)
qed

lemma spsc_inv_push_publish:
  assumes "spsc_inv s" "sp_producer s = PWrote v t"
  shows "spsc_inv (s\<lparr>sp_ring := (sp_ring s)\<lparr>ring_tail := t + 1\<rparr>, sp_producer := PIdle,
      sp_pushed := sp_pushed s @ [v]\<rparr>)"
proof -
  have inv: "ring_inv (sp_ring s) (sp_pushed s) (length (sp_popped s))"
    and room: "length (sp_pushed s) - length (sp_popped s) < ring_capacity (sp_ring s)"
    and slot: "ring_buf (sp_ring s) ! (length (sp_pushed s) mod ring_capacity (sp_ring s)) = Some v"
    and t: "t = of_nat (length (sp_pushed s))"
    using assms spsc_inv_tail [OF assms(1)] by (auto simp: spsc_inv_def producer_inv_def)
  have "ring_inv ((sp_ring s)\<lparr>ring_tail := t + 1\<rparr>) (sp_pushed s @ [v]) (length (sp_popped s))"
    unfolding t using inv room slot by (rule ring_inv_publish)
  moreover have "take (length (sp_popped s)) (sp_pushed s @ [v]) = sp_popped s"
    using assms(1) by (simp add: spsc_inv_def ring_inv_def)
  moreover have "consumer_inv (s\<lparr>sp_ring := (sp_ring s)\<lparr>ring_tail := t + 1\<rparr>, sp_producer := PIdle,
      sp_pushed := sp_pushed s @ [v]\<rparr>)"
    by (rule consumer_inv_frame [of s _ "[v]"]) (use assms(1) in \<open>auto simp: spsc_inv_def\<close>)
  ultimately show ?thesis by (simp add: spsc_inv_def producer_inv_def)
qed

lemma spsc_inv_pop_advance:
  assumes "spsc_inv s" "sp_consumer s = CRead v h"
  shows "spsc_inv (s\<lparr>sp_ring := (sp_ring s)\<lparr>ring_head := h + 1\<rparr>, sp_consumer := CIdle,
      sp_popped := sp_popped s @ [v]\<rparr>)"
proof -
  have inv: "ring_inv (sp_ring s) (sp_pushed s) (length (sp_popped s))"
    and pre: "take (length (sp_popped s)) (sp_pushed s) = sp_popped s"
    and lt: "length (sp_popped s) < length (sp_pushed s)"
    and v: "v = sp_pushed s ! length (sp_popped s)" and h: "h = of_nat (length (sp_popped s))"
    using assms spsc_inv_head [OF assms(1)] by (auto simp: spsc_inv_def consumer_inv_def)
  have "ring_inv ((sp_ring s)\<lparr>ring_head := h + 1\<rparr>) (sp_pushed s) (Suc (length (sp_popped s)))"
    using ring_inv_advance [OF inv lt] by (simp add: h)
  moreover have "take (Suc (length (sp_popped s))) (sp_pushed s) = sp_popped s @ [v]"
    using pre lt v by (simp add: take_Suc_conv_app_nth)
  moreover have "producer_inv (s\<lparr>sp_ring := (sp_ring s)\<lparr>ring_head := h + 1\<rparr>, sp_consumer := CIdle,
      sp_popped := sp_popped s @ [v]\<rparr>)"
    by (rule producer_inv_frame [of s _ "[v]"]) (use assms(1) in \<open>auto simp: spsc_inv_def\<close>)
  ultimately show ?thesis by (simp add: spsc_inv_def consumer_inv_def)
qed

lemma spsc_inv_pop_read:
  assumes "spsc_inv s" "sp_consumer s = CTail h t" "h \<noteq> t" "slot_read (sp_ring s) h = Inr v"
  shows "spsc_inv (s\<lparr>sp_consumer := CRead v h\<rparr>)"
proof -
  have lt: "length (sp_popped s) < length (sp_pushed s)"
    using assms(1-3) by (rule consumer_has_value)
  have "h = ring_head (sp_ring s)" using assms(1,2) by (simp add: spsc_inv_def consumer_inv_def)
  moreover from this have "v = sp_pushed s ! length (sp_popped s)"
    using ring_inv_read [OF _ lt, of "sp_ring s"] assms(1,4) spsc_inv_head [OF assms(1)]
    by (simp add: spsc_inv_def)
  moreover have "producer_inv (s\<lparr>sp_consumer := CRead v h\<rparr>)"
    by (rule producer_inv_frame [of s _ "[]"]) (use assms(1) in \<open>auto simp: spsc_inv_def\<close>)
  ultimately show ?thesis using assms(1) lt by (simp add: spsc_inv_def consumer_inv_def)
qed

lemma spsc_inv_producer_move:
  assumes "spsc_inv s" "producer_inv (s\<lparr>sp_producer := p\<rparr>)"
  shows "spsc_inv (s\<lparr>sp_producer := p\<rparr>)"
  using assms consumer_inv_frame [of s "s\<lparr>sp_producer := p\<rparr>" "[]"] by (simp add: spsc_inv_def)

lemma spsc_inv_consumer_move:
  assumes "spsc_inv s" "consumer_inv (s\<lparr>sp_consumer := p\<rparr>)"
  shows "spsc_inv (s\<lparr>sp_consumer := p\<rparr>)"
  using assms producer_inv_frame [of s "s\<lparr>sp_consumer := p\<rparr>" "[]"] by (simp add: spsc_inv_def)

lemma spsc_inv_step: "spsc_step s s' \<Longrightarrow> spsc_inv s \<Longrightarrow> spsc_inv s'"
proof (induction rule: spsc_step.induct)
  case (load_other_head s v t)
  then have "t = ring_tail (sp_ring s)" "ring_head (sp_ring s) = of_nat (length (sp_popped s))"
    "length (sp_pushed s) - length (sp_popped s) \<le> ring_capacity (sp_ring s)"
    by (auto simp: spsc_inv_def producer_inv_def ring_inv_def)
  with load_other_head show ?case
    by (auto simp: producer_inv_def intro!: spsc_inv_producer_move)
next
  case (load_other_tail s h)
  then have "h = ring_head (sp_ring s)" "ring_tail (sp_ring s) = of_nat (length (sp_pushed s))"
    "length (sp_popped s) \<le> length (sp_pushed s)"
    by (auto simp: spsc_inv_def consumer_inv_def ring_inv_def)
  with load_other_tail show ?case
    by (auto simp: consumer_inv_def intro!: spsc_inv_consumer_move)
next
  case (push_write s v t h r)
  from spsc_inv_write [OF push_write.prems push_write.hyps] show ?case .
next
  case (push_publish s v t)
  from spsc_inv_push_publish [OF push_publish.prems push_publish.hyps] show ?case .
next
  case (pop_read s h t v)
  from spsc_inv_pop_read [OF pop_read.prems pop_read.hyps] show ?case .
next
  case (pop_advance s v h)
  from spsc_inv_pop_advance [OF pop_advance.prems pop_advance.hyps] show ?case .
qed (rule spsc_inv_producer_move spsc_inv_consumer_move, assumption,
  simp add: producer_inv_def consumer_inv_def)+

lemma spsc_reach_inv: "spsc_reach c s \<Longrightarrow> unat c \<le> 2 ^ 63 \<Longrightarrow> spsc_inv s"
  by (induction rule: spsc_reach.induct) (auto intro: spsc_inv_init spsc_inv_step)

lemma spsc_step_capacity:
  "spsc_step s s' \<Longrightarrow> ring_capacity (sp_ring s') = ring_capacity (sp_ring s)"
  by (induction rule: spsc_step.induct) (auto simp: slot_write_def split: if_splits)

lemma spsc_reach_capacity:
  "spsc_reach c s \<Longrightarrow> ring_capacity (sp_ring s) = unat (next_power_of_two (max c 2))"
  by (induction rule: spsc_reach.induct)
    (auto simp: spsc_init_def channel_def Let_def spsc_step_capacity)

section \<open>Properties\<close>

text \<open>
  C39: whatever the interleaving of the producer with the consumer, the values popped so far are
  a prefix of the values pushed so far: nothing is lost, duplicated or reordered, also when the
  64-bit cursors wrap, and at most the capacity (the requested one rounded up to a power of two)
  is queued.
\<close>

theorem spsc_fifo:
  assumes "spsc_reach c s" "unat c \<le> 2 ^ 63"
  shows "\<exists>q. sp_pushed s = sp_popped s @ q \<and> length q \<le> unat (next_power_of_two (max c 2))"
proof -
  have inv: "spsc_inv s" using assms by (rule spsc_reach_inv)
  define n where "n = length (sp_popped s)"
  have "take n (sp_pushed s) = sp_popped s" "length (sp_pushed s) - n \<le> ring_capacity (sp_ring s)"
    using inv by (simp_all add: spsc_inv_def ring_inv_def n_def)
  then show ?thesis
    using spsc_reach_capacity [OF assms(1)] append_take_drop_id [of n "sp_pushed s"]
    by (intro exI [of _ "drop n (sp_pushed s)"]) simp
qed

text \<open>
  C40: the raw slot accesses of the two ends are sound in every interleaving: the producer's write
  and the consumer's read are in bounds, the consumer reads only slots the producer has written,
  and when both are about to access the buffer they access different slots.
\<close>

theorem spsc_accesses_sound:
  assumes "spsc_reach c s" "unat c \<le> 2 ^ 63"
  shows "(sp_producer s = PHead v t h \<and> \<not> ring_full (sp_ring s) t h \<longrightarrow>
      (\<exists>r. slot_write (sp_ring s) t v = Inr r)) \<and>
    (sp_consumer s = CTail h' t' \<and> h' \<noteq> t' \<longrightarrow> (\<exists>w. slot_read (sp_ring s) h' = Inr w)) \<and>
    (sp_producer s = PHead v t h \<and> \<not> ring_full (sp_ring s) t h \<and>
      sp_consumer s = CTail h' t' \<and> h' \<noteq> t' \<longrightarrow>
      ring_slot (sp_ring s) t \<noteq> ring_slot (sp_ring s) h')"
proof -
  have inv: "spsc_inv s" using assms by (rule spsc_reach_inv)
  have ring: "ring_inv (sp_ring s) (sp_pushed s) (length (sp_popped s))"
    using inv by (simp add: spsc_inv_def)
  have cap: "cap_ok (sp_ring s)" using ring by (simp add: ring_inv_def)
  have tail: "sp_producer s = PHead v t h \<Longrightarrow> t = of_nat (length (sp_pushed s))"
    using inv spsc_inv_tail [OF inv] by (simp add: spsc_inv_def producer_inv_def)
  have head: "sp_consumer s = CTail h' t' \<Longrightarrow> h' = of_nat (length (sp_popped s))"
    using inv spsc_inv_head [OF inv] by (simp add: spsc_inv_def consumer_inv_def)
  have "\<exists>r. slot_write (sp_ring s) t v = Inr r"
    if "sp_producer s = PHead v t h" "\<not> ring_full (sp_ring s) t h"
    using ring_inv_write [OF ring producer_room [OF inv that], of v] tail [OF that(1)] by simp
  moreover have "\<exists>w. slot_read (sp_ring s) h' = Inr w" if "sp_consumer s = CTail h' t'" "h' \<noteq> t'"
    using ring_inv_read [OF ring consumer_has_value [OF inv that]] head [OF that(1)] by simp
  moreover have "ring_slot (sp_ring s) t \<noteq> ring_slot (sp_ring s) h'"
    if "sp_producer s = PHead v t h" "\<not> ring_full (sp_ring s) t h"
      "sp_consumer s = CTail h' t'" "h' \<noteq> t'"
    using mod_window_neq [OF consumer_has_value [OF inv that(3,4)] producer_room [OF inv that(1,2)]]
    by (simp add: tail [OF that(1)] head [OF that(3)] ring_slot_of_nat [OF cap])
  ultimately show ?thesis by blast
qed

text \<open>
  used by one thread, \<open>push\<close> and \<open>pop\<close> are the operations of a bounded FIFO list: \<open>push\<close>
  hands the value back exactly when the list is at capacity and appends it otherwise, \<open>pop\<close> takes
  the oldest value; neither panics or reads an uninitialised slot.
\<close>

lemma ring_refines_fifo:
  assumes "ring_ok r"
  shows "(\<exists>r'. push v r = Inr (fst (fifo_enq (ring_capacity r) v (contents r)), r') \<and> ring_ok r' \<and>
      contents r' = snd (fifo_enq (ring_capacity r) v (contents r))) \<and>
    (\<exists>r'. pop r = Inr (fst (fifo_deq (contents r)), r') \<and> ring_ok r' \<and>
      contents r' = snd (fifo_deq (contents r)))"
  using ring.enq_refines [OF assms, of v] ring.deq_refines [OF assms] by blast

text \<open>
  dropping the ring drops exactly the values still queued, each once and oldest first, and
  \<open>drain\<close> hands at most \<open>max\<close> of them to its callback in that order.
\<close>

lemma ring_drop_and_drain:
  assumes "ring_ok r"
  shows "drop_ring r = Inr (contents r) \<and>
    (\<exists>r'. drain k f r s = Inr (min (unat k) (length (contents r)), r',
      fold f (take (unat k) (contents r)) s) \<and> ring_ok r' \<and> contents r' = drop (unat k) (contents r))"
proof
  from assms obtain ps n where inv: "ring_inv r ps n" by (auto simp: ring_ok_def)
  then have "ring_head r = of_nat n" "ring_tail r = of_nat (length ps)" "n \<le> length ps"
    by (auto simp: ring_inv_def)
  with drop_range_inv [OF inv, of n] contents_inv [OF inv] show "drop_ring r = Inr (contents r)"
    by (simp add: drop_ring_def)
  show "\<exists>r'. drain k f r s = Inr (min (unat k) (length (contents r)), r',
      fold f (take (unat k) (contents r)) s) \<and> ring_ok r' \<and> contents r' = drop (unat k) (contents r)"
    using drain_from_spec [OF assms, of "unat k" 0 f s] by (simp add: drain_def)
qed

section \<open>Witnesses\<close>

lemma npot_2: "next_power_of_two 2 = 2"
  by code_simp

text \<open>A run: 7 is published, the consumer is about to read it, the producer to write 8.\<close>

definition spsc_example :: "nat spsc" where
  "spsc_example =
     \<lparr>sp_ring = \<lparr>ring_buf = [Some 7, None], ring_mask = 1, ring_tail = 1, ring_head = 0\<rparr>,
      sp_producer = PHead 8 1 0, sp_consumer = CTail 0 1, sp_pushed = [7], sp_popped = []\<rparr>"

lemma spsc_example_reach: "spsc_reach 2 spsc_example"
proof -
  let ?r0 = "\<lparr>ring_buf = [None, None], ring_mask = 1, ring_tail = 0, ring_head = 0\<rparr> :: nat ring"
  let ?r1 = "\<lparr>ring_buf = [Some 7, None], ring_mask = 1, ring_tail = 0, ring_head = 0\<rparr> :: nat ring"
  let ?r2 = "\<lparr>ring_buf = [Some 7, None], ring_mask = 1, ring_tail = 1, ring_head = 0\<rparr> :: nat ring"
  let ?s = "\<lambda>r p c xs. \<lparr>sp_ring = r, sp_producer = p, sp_consumer = c, sp_pushed = xs, sp_popped = []\<rparr>"
  have "replicate 2 None = [None, None :: nat option]" by (simp add: numeral_2_eq_2)
  then have ch: "channel 2 = ?r0" by (simp add: channel_def npot_2)
  have "spsc_reach 2 (?s ?r0 PIdle CIdle [])"
    using spsc_start [of 2, where 'a = nat] by (simp add: spsc_init_def ch)
  from spsc_next [OF this load_own_tail [of _ 7]] have "spsc_reach 2 (?s ?r0 (PTail 7 0) CIdle [])"
    by simp
  from spsc_next [OF this load_other_head] have "spsc_reach 2 (?s ?r0 (PHead 7 0 0) CIdle [])"
    by simp
  from spsc_next [OF this push_write [of _ 7 0 0 ?r1]]
  have "spsc_reach 2 (?s ?r1 (PWrote 7 0) CIdle [])"
    by (simp add: ring_full_def slot_write_def ring_slot_def)
  from spsc_next [OF this push_publish] have "spsc_reach 2 (?s ?r2 PIdle CIdle [7])" by simp
  from spsc_next [OF this load_own_tail [of _ 8]] have "spsc_reach 2 (?s ?r2 (PTail 8 1) CIdle [7])"
    by simp
  from spsc_next [OF this load_other_head] have "spsc_reach 2 (?s ?r2 (PHead 8 1 0) CIdle [7])"
    by simp
  from spsc_next [OF this load_own_head] have "spsc_reach 2 (?s ?r2 (PHead 8 1 0) (CHead 0) [7])"
    by simp
  from spsc_next [OF this load_other_tail] show ?thesis by (simp add: spsc_example_def)
qed

theorem spsc_fifo_witness:
  "\<exists>q. sp_pushed spsc_example = sp_popped spsc_example @ q \<and> length q \<le> 2"
  using spsc_fifo [OF spsc_example_reach] by (simp add: npot_2)

theorem spsc_accesses_sound_witness:
  "(\<exists>r. slot_write (sp_ring spsc_example) 1 8 = Inr r) \<and>
   (\<exists>w. slot_read (sp_ring spsc_example) 0 = Inr w) \<and>
   ring_slot (sp_ring spsc_example) 1 \<noteq> ring_slot (sp_ring spsc_example) 0"
proof -
  have 1: "sp_producer spsc_example = PHead 8 1 0" "\<not> ring_full (sp_ring spsc_example) 1 0"
    and 2: "sp_consumer spsc_example = CTail 0 1" "(0 :: usize) \<noteq> 1"
    by (simp_all add: spsc_example_def ring_full_def)
  show ?thesis
    using spsc_accesses_sound [OF spsc_example_reach, of 8 1 0 0 1] 1 2 by simp
qed

definition ring_example :: "nat ring" where
  "ring_example = channel 2"

lemma ring_example_ok: "ring_ok ring_example"
  unfolding ring_example_def by (rule ring_ok_channel) simp

end
