(* ===== verification/Ebr.thy ===== *)
theory Ebr
  imports Prelude "HOL-Library.Multiset"
begin

text \<open>
  Epoch-based reclamation, \<open>crates/zerokv/src/ebr.rs\<close>.  The first part models the operations of
  \<open>Domain\<close> and \<open>Guard\<close> as functions on the domain record; the second part interleaves any number
  of threads at the granularity of the single atomic accesses of the code, sequentially
  consistent, together with what the clients of a guard do with pointers.

  A retired pointer and its \<open>drop_fn\<close> are one value of a type \<open>'p\<close>; it stands for one allocation,
  so an address that the allocator hands out again is a new value.  A Treiber stack is the list of
  its nodes, top first.
\<close>

section \<open>The domain\<close>

definition N_SLOTS :: nat where
  "N_SLOTS = 4096"

definition N_BAGS :: nat where
  "N_BAGS = 3"

definition FREE :: u64 where
  "FREE = - 1"

definition UNPINNED :: u64 where
  "UNPINNED = push_bit 62 1"

record 'p retired =
  rt_ptr :: 'p
  rt_epoch :: u64

record 'p ebr_domain =
  ebr_epoch :: u64
  ebr_slots :: "nat \<Rightarrow> u64"
  ebr_bags :: "nat \<Rightarrow> 'p retired list"
  ebr_hwm :: nat

definition domain_new :: "'p ebr_domain" where
  "domain_new = \<lparr>ebr_epoch = 0, ebr_slots = (\<lambda>_. FREE), ebr_bags = (\<lambda>_. []), ebr_hwm = 0\<rparr>"

text \<open>
  \<open>local_slot\<close>: the thread-local cache, or the first \<open>FREE\<close> slot at or after \<open>i\<close>, claimed; all
  slots taken is a panic.
\<close>

function probe_slot :: "'p ebr_domain \<Rightarrow> nat \<Rightarrow> nat option" where
  "probe_slot d i =
     (if i < N_SLOTS then (if ebr_slots d i = FREE then Some i else probe_slot d (Suc i)) else None)"
  by pat_completeness auto
termination
  by (relation "measure (\<lambda>(d, i). N_SLOTS - i)") auto

declare probe_slot.simps [simp del]

definition local_slot :: "nat option \<Rightarrow> 'p ebr_domain \<Rightarrow> (nat \<times> 'p ebr_domain) res" where
  "local_slot cached d =
     (case cached of
        Some i \<Rightarrow> Inr (i, d)
      | None \<Rightarrow>
          (case probe_slot d 0 of
             None \<Rightarrow> Inl Panic
           | Some i \<Rightarrow> Inr (i, d\<lparr>ebr_slots := (ebr_slots d)(i := UNPINNED),
                                ebr_hwm := max (ebr_hwm d) i\<rparr>)))"

text \<open>\<open>Domain::pin\<close>: the guard is the slot index.\<close>

definition pin :: "nat option \<Rightarrow> 'p ebr_domain \<Rightarrow> (nat \<times> 'p ebr_domain) res" where
  "pin cached d =
     (case local_slot cached d of
        Inl e \<Rightarrow> Inl e
      | Inr (i, d') \<Rightarrow> Inr (i, d'\<lparr>ebr_slots := (ebr_slots d')(i := ebr_epoch d')\<rparr>))"

definition bag_of :: "u64 \<Rightarrow> nat" where
  "bag_of e = unat e mod N_BAGS"

definition bag_push :: "nat \<Rightarrow> 'p retired \<Rightarrow> 'p ebr_domain \<Rightarrow> 'p ebr_domain" where
  "bag_push b r d = d\<lparr>ebr_bags := (ebr_bags d)(b := r # ebr_bags d b)\<rparr>"

definition retire :: "'p \<Rightarrow> 'p ebr_domain \<Rightarrow> 'p ebr_domain" where
  "retire p d = (let e = ebr_epoch d in bag_push (bag_of e) \<lparr>rt_ptr = p, rt_epoch = e\<rparr> d)"

text \<open>The scan of \<open>try_collect\<close> over the claimed prefix of the slots.\<close>

definition slot_pinned :: "u64 \<Rightarrow> bool" where
  "slot_pinned v \<longleftrightarrow> v \<noteq> FREE \<and> v \<noteq> UNPINNED"

definition blocks :: "u64 \<Rightarrow> u64 \<Rightarrow> bool" where
  "blocks g v \<longleftrightarrow> slot_pinned v \<and> v \<noteq> g"

definition scan_limit :: "'p ebr_domain \<Rightarrow> nat" where
  "scan_limit d = min (ebr_hwm d) (N_SLOTS - 1)"

definition can_advance :: "'p ebr_domain \<Rightarrow> u64 \<Rightarrow> bool" where
  "can_advance d g \<longleftrightarrow> list_all (\<lambda>i. \<not> blocks g (ebr_slots d i)) [0..<Suc (scan_limit d)]"

definition eligible :: "u64 \<Rightarrow> 'p retired \<Rightarrow> bool" where
  "eligible cur r \<longleftrightarrow> saturating_add (rt_epoch r) 2 \<le> cur"

text \<open>
  \<open>reclaim_bag\<close>: the detached chain is walked once, eligible nodes are freed, the others are
  threaded onto \<open>keep\<close>; then \<open>keep\<close> is pushed back node by node.
\<close>

fun sweep :: "u64 \<Rightarrow> 'p retired list \<Rightarrow> 'p retired list \<Rightarrow> 'p list \<Rightarrow> 'p retired list \<times> 'p list" where
  "sweep cur [] keep freed = (keep, freed)"
| "sweep cur (r # rs) keep freed =
     (if eligible cur r then sweep cur rs keep (freed @ [rt_ptr r]) else sweep cur rs (r # keep) freed)"

definition reclaim_bag :: "nat \<Rightarrow> u64 \<Rightarrow> 'p ebr_domain \<Rightarrow> 'p ebr_domain \<times> 'p list" where
  "reclaim_bag b cur d =
     (let chain = ebr_bags d b;
          d' = d\<lparr>ebr_bags := (ebr_bags d)(b := [])\<rparr>;
          (keep, freed) = sweep cur chain [] []
      in (fold (bag_push b) keep d', freed))"

definition reclaim_all :: "u64 \<Rightarrow> 'p ebr_domain \<Rightarrow> 'p ebr_domain \<times> 'p list" where
  "reclaim_all cur d =
     fold (\<lambda>b (d, freed). let (d', f) = reclaim_bag b cur d in (d', freed @ f)) [0..<N_BAGS] (d, [])"

definition try_collect :: "'p ebr_domain \<Rightarrow> 'p ebr_domain \<times> 'p list" where
  "try_collect d =
     (let g = ebr_epoch d;
          d' = (if can_advance d g then d\<lparr>ebr_epoch := g + 1\<rparr> else d)
      in reclaim_all (ebr_epoch d') d')"

text \<open>\<open>Drop for Guard\<close>: one unpin in \<open>COLLECT_INTERVAL\<close> of a thread collects.\<close>

definition COLLECT_INTERVAL :: u32 where
  "COLLECT_INTERVAL = 128"

definition guard_drop :: "nat \<Rightarrow> u32 \<Rightarrow> 'p ebr_domain \<Rightarrow> u32 \<times> 'p ebr_domain \<times> 'p list" where
  "guard_drop i tick d =
     (let d' = d\<lparr>ebr_slots := (ebr_slots d)(i := UNPINNED)\<rparr>;
          n = tick + 1
      in if n mod COLLECT_INTERVAL = 0 then (n, try_collect d') else (n, d', []))"

section \<open>What a collection does\<close>

lemma sweep_eq:
  "sweep cur rs keep freed =
     (rev (filter (\<lambda>r. \<not> eligible cur r) rs) @ keep, freed @ map rt_ptr (filter (eligible cur) rs))"
  by (induction rs arbitrary: keep freed) auto

lemma fold_bag_push:
  "fold (bag_push b) rs d = d\<lparr>ebr_bags := (ebr_bags d)(b := rev rs @ ebr_bags d b)\<rparr>"
  by (induction rs arbitrary: d) (auto simp: bag_push_def)

lemma reclaim_bag_eq:
  "reclaim_bag b cur d =
     (d\<lparr>ebr_bags := (ebr_bags d)(b := filter (\<lambda>r. \<not> eligible cur r) (ebr_bags d b))\<rparr>,
      map rt_ptr (filter (eligible cur) (ebr_bags d b)))"
  by (simp add: reclaim_bag_def sweep_eq fold_bag_push Let_def)

lemma reclaim_all_eq:
  "reclaim_all cur d =
     (d\<lparr>ebr_bags := (\<lambda>b. if b < N_BAGS then filter (\<lambda>r. \<not> eligible cur r) (ebr_bags d b)
                          else ebr_bags d b)\<rparr>,
      concat (map (\<lambda>b. map rt_ptr (filter (eligible cur) (ebr_bags d b))) [0..<N_BAGS]))"
  by (auto simp: reclaim_all_def reclaim_bag_eq N_BAGS_def eval_nat_numeral Let_def less_Suc_eq
      intro!: arg_cong [of _ _ "\<lambda>x. ebr_bags_update x d"] ext)

lemma eligible_unat:
  "unat (rt_epoch r) < 2 ^ 62 \<Longrightarrow> eligible cur r \<longleftrightarrow> unat (rt_epoch r) + 2 \<le> unat cur"
  by (simp add: eligible_def saturating_add_def word_le_nat_alt unat_add_no_wrap)

lemma probe_slot_hit: "i < N_SLOTS \<Longrightarrow> ebr_slots d i = FREE \<Longrightarrow> probe_slot d i = Some i"
  by (subst probe_slot.simps) simp

lemma try_collect_eq:
  "try_collect d =
    (let cur = (if can_advance d (ebr_epoch d) then ebr_epoch d + 1 else ebr_epoch d) in
     (d\<lparr>ebr_epoch := cur, ebr_bags := (\<lambda>b. if b < N_BAGS then filter (\<lambda>r. \<not> eligible cur r) (ebr_bags d b)
                          else ebr_bags d b)\<rparr>,
      concat (map (\<lambda>b. map rt_ptr (filter (eligible cur) (ebr_bags d b))) [0..<N_BAGS])))"
  by (simp add: try_collect_def reclaim_all_eq Let_def cong: if_cong)

lemma quiescent_can_advance: "\<forall>i. \<not> slot_pinned (ebr_slots d i) \<Longrightarrow> can_advance d g"
  by (simp add: can_advance_def blocks_def list_all_iff)

lemma eligible_after_two:
  assumes "unat (rt_epoch r) \<le> unat e" "unat e < 2 ^ 62"
  shows "eligible (2 + e) r"
proof -
  have "unat (2 + e) = 2 + unat e" using assms(2) by (simp add: unat_add_no_wrap)
  then show ?thesis using assms by (simp add: eligible_unat)
qed

lemma mset_concat_parts:
  "mset (concat (map (\<lambda>b. map h (filter P (g b))) bs)) + mset (concat (map (\<lambda>b. map h (filter (\<lambda>r. \<not> P r) (g b))) bs)) =
    (\<Sum>b \<leftarrow> bs. mset (map h (g b)))"
  by (induction bs) (simp_all flip: image_mset_union add: ac_simps)

lemma upt_bags: "[0..<N_BAGS] = [0, 1, 2]"
  by (simp add: N_BAGS_def upt_rec)

section \<open>Threads, interleaved\<close>

text \<open>
  Where a thread stands in \<open>pin\<close> (with \<open>local_slot\<close>), \<open>retire\<close> or \<open>try_collect\<close>, with the values
  it has loaded.  \<open>Sweep cur b rest keep\<close> is inside \<open>reclaim_bag\<close> on bag \<open>b\<close>.
\<close>

datatype 'p ebr_pc =
    Idle
  | Probe nat
  | ProbeCas nat
  | Claimed nat
  | PinStart
  | PinLoaded u64
  | Retiring 'p u64
  | ColG u64
  | Scan u64 nat nat
  | Adv u64
  | LoadCur
  | Bag u64 nat
  | Sweep u64 nat "'p retired list" "'p retired list"
  | Repush u64 nat "'p retired list"

text \<open>
  Where an allocation is: not yet allocated, reachable in the shared structure, unlinked and owned
  by a thread, inside a thread's \<open>retire\<close> or \<open>reclaim_bag\<close>, in a bag, or freed.
\<close>

datatype place = Fresh | Linked | Owned nat | InPc nat | InBag nat | Freed

text \<open>
  \<open>es_guard\<close>: a guard of the thread is alive; \<open>es_extra\<close>: how many more of its guards are;
  \<open>es_refs\<close>: the pointers loaded under them.
  History: \<open>es_birth\<close>, how often the epoch had advanced when the first of them was published,
  \<open>es_advances\<close>, how often it has advanced, \<open>es_place\<close>, \<open>es_freed\<close>, everything freed so far, and
  \<open>es_nested\<close>, whether some thread has called \<open>pin\<close> while a guard of its own was alive.
\<close>

record 'p ebr_sys =
  es_dom :: "'p ebr_domain"
  es_slot :: "nat \<Rightarrow> nat option"
  es_pc :: "nat \<Rightarrow> 'p ebr_pc"
  es_guard :: "nat \<Rightarrow> bool"
  es_extra :: "nat \<Rightarrow> nat"
  es_refs :: "nat \<Rightarrow> 'p set"
  es_birth :: "nat \<Rightarrow> nat"
  es_advances :: nat
  es_place :: "'p \<Rightarrow> place"
  es_freed :: "'p list"
  es_nested :: bool

definition ebr_init :: "'p ebr_sys" where
  "ebr_init = \<lparr>es_dom = domain_new, es_slot = (\<lambda>_. None), es_pc = (\<lambda>_. Idle),
     es_guard = (\<lambda>_. False), es_extra = (\<lambda>_. 0), es_refs = (\<lambda>_. {}), es_birth = (\<lambda>_. 0), es_advances = 0,
     es_place = (\<lambda>_. Fresh), es_freed = [], es_nested = False\<rparr>"

abbreviation slot_val :: "'p ebr_sys \<Rightarrow> nat \<Rightarrow> u64" where
  "slot_val s i \<equiv> ebr_slots (es_dom s) i"

abbreviation goto :: "nat \<Rightarrow> 'p ebr_pc \<Rightarrow> 'p ebr_sys \<Rightarrow> 'p ebr_sys" where
  "goto t pc s \<equiv> s\<lparr>es_pc := (es_pc s)(t := pc)\<rparr>"

definition set_slot :: "nat \<Rightarrow> u64 \<Rightarrow> 'p ebr_sys \<Rightarrow> 'p ebr_sys" where
  "set_slot i v s = s\<lparr>es_dom := (es_dom s)\<lparr>ebr_slots := (ebr_slots (es_dom s))(i := v)\<rparr>\<rparr>"

definition move :: "'p set \<Rightarrow> place \<Rightarrow> 'p ebr_sys \<Rightarrow> 'p ebr_sys" where
  "move P pl s = s\<lparr>es_place := (\<lambda>p. if p \<in> P then pl else es_place s p)\<rparr>"

text \<open>
  A thread may pin again while a guard of its own is alive, as the code allows; both guards then
  use the one slot, and dropping either stores \<open>UNPINNED\<close> there.  A guard may be used and dropped by
  another thread, so neither reading nor dropping asks where the thread that pinned stands.  What
  is retired has been unlinked, by the contract of \<open>retire\<close>, which asks for no guard.  Collections
  may start at any time, which covers the \<open>TICK\<close> of \<open>Drop for Guard\<close> and direct calls of
  \<open>try_collect\<close>.
\<close>

inductive ebr_step :: "'p ebr_sys \<Rightarrow> 'p ebr_sys \<Rightarrow> bool" where
  pin_cached: "es_pc s t = Idle \<Longrightarrow> es_slot s t = Some i \<Longrightarrow>
    ebr_step s (goto t PinStart (s\<lparr>es_nested := (es_nested s \<or> es_guard s t)\<rparr>))"
| pin_probe: "es_pc s t = Idle \<Longrightarrow> es_slot s t = None \<Longrightarrow> ebr_step s (goto t (Probe 0) s)"
| probe_taken: "es_pc s t = Probe i \<Longrightarrow> i < N_SLOTS \<Longrightarrow> slot_val s i \<noteq> FREE \<Longrightarrow>
    ebr_step s (goto t (Probe (Suc i)) s)"
| probe_free: "es_pc s t = Probe i \<Longrightarrow> i < N_SLOTS \<Longrightarrow> slot_val s i = FREE \<Longrightarrow>
    ebr_step s (goto t (ProbeCas i) s)"
| probe_cas_ok: "es_pc s t = ProbeCas i \<Longrightarrow> slot_val s i = FREE \<Longrightarrow>
    ebr_step s (goto t (Claimed i) (set_slot i UNPINNED s)\<lparr>es_slot := (es_slot s)(t := Some i)\<rparr>)"
| probe_cas_lost: "es_pc s t = ProbeCas i \<Longrightarrow> slot_val s i \<noteq> FREE \<Longrightarrow>
    ebr_step s (goto t (Probe (Suc i)) s)"
| publish_hwm: "es_pc s t = Claimed i \<Longrightarrow>
    ebr_step s (goto t PinStart
      (s\<lparr>es_dom := (es_dom s)\<lparr>ebr_hwm := max (ebr_hwm (es_dom s)) i\<rparr>\<rparr>))"
| pin_load: "es_pc s t = PinStart \<Longrightarrow> ebr_step s (goto t (PinLoaded (ebr_epoch (es_dom s))) s)"
| pin_store: "es_pc s t = PinLoaded e \<Longrightarrow> es_slot s t = Some i \<Longrightarrow>
    ebr_step s (goto t Idle (set_slot i e s)
      \<lparr>es_guard := (es_guard s)(t := True), es_extra := (es_extra s)(t := if es_guard s t then Suc (es_extra s t) else 0),
       es_birth := (es_birth s)(t := if es_guard s t then es_birth s t else es_advances s),
       es_refs := (es_refs s)(t := if es_guard s t then es_refs s t else {})\<rparr>)"
| client_link: "es_place s p = Fresh \<Longrightarrow> ebr_step s (move {p} Linked s)"
| client_read: "es_guard s t \<Longrightarrow> es_place s p = Linked \<Longrightarrow>
    ebr_step s (s\<lparr>es_refs := (es_refs s)(t := insert p (es_refs s t))\<rparr>)"
| client_unlink: "es_place s p = Linked \<Longrightarrow> ebr_step s (move {p} (Owned t) s)"
| retire_load: "es_pc s t = Idle \<Longrightarrow> es_place s p = Owned t \<Longrightarrow>
    ebr_step s (goto t (Retiring p (ebr_epoch (es_dom s))) (move {p} (InPc t) s))"
| retire_push: "es_pc s t = Retiring p e \<Longrightarrow>
    ebr_step s (goto t Idle (move {p} (InBag (bag_of e))
      (s\<lparr>es_dom := bag_push (bag_of e) \<lparr>rt_ptr = p, rt_epoch = e\<rparr> (es_dom s)\<rparr>)))"
| unpin: "es_guard s t \<Longrightarrow> es_slot s t = Some i \<Longrightarrow>
    ebr_step s ((set_slot i UNPINNED s)
      \<lparr>es_guard := (es_guard s)(t := es_extra s t \<noteq> 0), es_extra := (es_extra s)(t := es_extra s t - 1),
       es_refs := (es_refs s)(t := if es_extra s t = 0 then {} else es_refs s t)\<rparr>)"
| collect_load: "es_pc s t = Idle \<Longrightarrow> ebr_step s (goto t (ColG (ebr_epoch (es_dom s))) s)"
| collect_hwm: "es_pc s t = ColG g \<Longrightarrow> ebr_step s (goto t (Scan g (scan_limit (es_dom s)) 0) s)"
| scan_pass: "es_pc s t = Scan g h i \<Longrightarrow> i \<le> h \<Longrightarrow> \<not> blocks g (slot_val s i) \<Longrightarrow>
    ebr_step s (goto t (Scan g h (Suc i)) s)"
| scan_blocked: "es_pc s t = Scan g h i \<Longrightarrow> i \<le> h \<Longrightarrow> blocks g (slot_val s i) \<Longrightarrow>
    ebr_step s (goto t LoadCur s)"
| scan_done: "es_pc s t = Scan g h i \<Longrightarrow> h < i \<Longrightarrow> ebr_step s (goto t (Adv g) s)"
| advance_ok: "es_pc s t = Adv g \<Longrightarrow> ebr_epoch (es_dom s) = g \<Longrightarrow>
    ebr_step s (goto t LoadCur (s\<lparr>es_dom := (es_dom s)\<lparr>ebr_epoch := g + 1\<rparr>,
      es_advances := Suc (es_advances s)\<rparr>))"
| advance_lost: "es_pc s t = Adv g \<Longrightarrow> ebr_epoch (es_dom s) \<noteq> g \<Longrightarrow> ebr_step s (goto t LoadCur s)"
| load_cur: "es_pc s t = LoadCur \<Longrightarrow> ebr_step s (goto t (Bag (ebr_epoch (es_dom s)) 0) s)"
| bag_swap: "es_pc s t = Bag cur b \<Longrightarrow> b < N_BAGS \<Longrightarrow>
    ebr_step s (goto t (Sweep cur b (ebr_bags (es_dom s) b) [])
      (move (rt_ptr ` set (ebr_bags (es_dom s) b)) (InPc t)
        (s\<lparr>es_dom := (es_dom s)\<lparr>ebr_bags := (ebr_bags (es_dom s))(b := [])\<rparr>\<rparr>)))"
| bags_done: "es_pc s t = Bag cur b \<Longrightarrow> N_BAGS \<le> b \<Longrightarrow> ebr_step s (goto t Idle s)"
| sweep_free: "es_pc s t = Sweep cur b (r # rs) keep \<Longrightarrow> eligible cur r \<Longrightarrow>
    ebr_step s (goto t (Sweep cur b rs keep) (move {rt_ptr r} Freed s)
      \<lparr>es_freed := es_freed s @ [rt_ptr r]\<rparr>)"
| sweep_keep: "es_pc s t = Sweep cur b (r # rs) keep \<Longrightarrow> \<not> eligible cur r \<Longrightarrow>
    ebr_step s (goto t (Sweep cur b rs (r # keep)) s)"
| sweep_end: "es_pc s t = Sweep cur b [] keep \<Longrightarrow> ebr_step s (goto t (Repush cur b keep) s)"
| repush: "es_pc s t = Repush cur b (r # keep) \<Longrightarrow>
    ebr_step s (goto t (Repush cur b keep) (move {rt_ptr r} (InBag b)
      (s\<lparr>es_dom := bag_push b r (es_dom s)\<rparr>)))"
| repush_end: "es_pc s t = Repush cur b [] \<Longrightarrow> ebr_step s (goto t (Bag cur (Suc b)) s)"

inductive ebr_reach :: "'p ebr_sys \<Rightarrow> bool" where
  ebr_start: "ebr_reach ebr_init"
| ebr_next: "ebr_reach s \<Longrightarrow> ebr_step s s' \<Longrightarrow> ebr_reach s'"

section \<open>The epoch invariant\<close>

text \<open>The records a thread holds privately.\<close>

fun pc_records :: "'p ebr_pc \<Rightarrow> 'p retired list" where
  "pc_records (Retiring p e) = [\<lparr>rt_ptr = p, rt_epoch = e\<rparr>]"
| "pc_records (Sweep cur b rs keep) = rs @ keep"
| "pc_records (Repush cur b keep) = keep"
| "pc_records _ = []"

text \<open>
  A claimed slot belongs to one thread, holds \<open>UNPINNED\<close> or an epoch no newer than the guard, and
  is below the published high-water mark.
\<close>

definition slots_inv :: "'p ebr_sys \<Rightarrow> bool" where
  "slots_inv s \<longleftrightarrow>
     (\<forall>t i. es_slot s t = Some i \<longrightarrow> i < N_SLOTS \<and>
        (if es_guard s t then unat (slot_val s i) \<le> es_birth s t else slot_val s i = UNPINNED) \<and>
        (es_pc s t \<noteq> Claimed i \<longrightarrow> i \<le> ebr_hwm (es_dom s))) \<and>
     (\<forall>t t' i. es_slot s t = Some i \<and> es_slot s t' = Some i \<longrightarrow> t = t')"

text \<open>The epoch is at most one step ahead of every guard.\<close>

definition guards_inv :: "'p ebr_sys \<Rightarrow> bool" where
  "guards_inv s \<longleftrightarrow> unat (ebr_epoch (es_dom s)) = es_advances s \<and>
     (\<forall>t. es_extra s t = 0) \<and>
     (\<forall>t. es_guard s t \<longrightarrow> es_birth s t \<le> es_advances s \<and> es_advances s \<le> Suc (es_birth s t) \<and>
        (\<exists>i. es_slot s t = Some i))"

text \<open>
  A collector that scans for epoch \<open>g\<close> has not passed the slot of any guard older than \<open>g\<close>; one
  about to advance from \<open>g\<close> knows there is no such guard.
\<close>

definition pc_inv :: "'p ebr_sys \<Rightarrow> 'p ebr_pc \<Rightarrow> nat \<Rightarrow> bool" where
  "pc_inv s pc t \<longleftrightarrow>
     (case pc of
        Probe i \<Rightarrow> es_slot s t = None
      | ProbeCas i \<Rightarrow> es_slot s t = None \<and> i < N_SLOTS
      | Claimed i \<Rightarrow> es_slot s t = Some i \<and> \<not> es_guard s t
      | PinStart \<Rightarrow> \<not> es_guard s t
      | PinLoaded e \<Rightarrow> \<not> es_guard s t \<and> unat e \<le> es_advances s
      | ColG g \<Rightarrow> unat g \<le> es_advances s
      | Scan g h i \<Rightarrow> unat g \<le> es_advances s \<and>
          (\<forall>u j. es_guard s u \<and> es_birth s u < unat g \<and> es_slot s u = Some j \<longrightarrow> i \<le> j \<and> j \<le> h)
      | Adv g \<Rightarrow> unat g \<le> es_advances s \<and> (\<forall>u. es_guard s u \<longrightarrow> unat g \<le> es_birth s u)
      | Bag cur b \<Rightarrow> unat cur \<le> es_advances s
      | Sweep cur b rs keep \<Rightarrow> unat cur \<le> es_advances s
      | Repush cur b keep \<Rightarrow> unat cur \<le> es_advances s
      | _ \<Rightarrow> True)"

text \<open>A pointer some guard may hold was retired no earlier than that guard was published.\<close>

definition record_ok :: "'p ebr_sys \<Rightarrow> 'p retired \<Rightarrow> bool" where
  "record_ok s r \<longleftrightarrow> unat (rt_epoch r) \<le> es_advances s \<and>
     (\<forall>u. es_guard s u \<and> rt_ptr r \<in> es_refs s u \<longrightarrow> es_birth s u \<le> unat (rt_epoch r))"

definition records_inv :: "'p ebr_sys \<Rightarrow> bool" where
  "records_inv s \<longleftrightarrow>
     (\<forall>b. \<forall>r \<in> set (ebr_bags (es_dom s) b). record_ok s r) \<and>
     (\<forall>t. \<forall>r \<in> set (pc_records (es_pc s t)). record_ok s r)"

text \<open>Every retired allocation has exactly one record, and nothing a guard may hold is freed.\<close>

definition places_inv :: "'p ebr_sys \<Rightarrow> bool" where
  "places_inv s \<longleftrightarrow>
     (\<forall>b. distinct (map rt_ptr (ebr_bags (es_dom s) b)) \<and>
        (\<forall>r \<in> set (ebr_bags (es_dom s) b). es_place s (rt_ptr r) = InBag b)) \<and>
     (\<forall>t. distinct (map rt_ptr (pc_records (es_pc s t))) \<and>
        (\<forall>r \<in> set (pc_records (es_pc s t)). es_place s (rt_ptr r) = InPc t)) \<and>
     distinct (es_freed s) \<and> (\<forall>p \<in> set (es_freed s). es_place s p = Freed) \<and>
     (\<forall>t p. es_guard s t \<and> p \<in> es_refs s t \<longrightarrow> es_place s p \<noteq> Freed)"

definition ebr_inv :: "'p ebr_sys \<Rightarrow> bool" where
  "ebr_inv s \<longleftrightarrow> slots_inv s \<and> guards_inv s \<and> (\<forall>t. pc_inv s (es_pc s t) t) \<and>
     records_inv s \<and> places_inv s"

lemma ebr_inv_init: "ebr_inv ebr_init"
  by (simp add: ebr_inv_def slots_inv_def guards_inv_def pc_inv_def records_inv_def places_inv_def
      ebr_init_def domain_new_def)


lemmas step_simps = set_slot_def move_def bag_push_def

lemma ebr_epoch_bounds:
  "unat UNPINNED = 2 ^ 62" "unat FREE = 2 ^ 64 - 1"
  by (simp_all add: UNPINNED_def FREE_def unsigned_minus_1_eq_mask mask_eq_exp_minus_1)



lemma ebr_invD:
  assumes "ebr_inv s"
  shows "es_slot s t = Some i \<Longrightarrow> i < N_SLOTS"
    and "es_slot s t = Some i \<Longrightarrow> es_guard s t \<Longrightarrow> unat (slot_val s i) \<le> es_birth s t"
    and "es_slot s t = Some i \<Longrightarrow> \<not> es_guard s t \<Longrightarrow> slot_val s i = UNPINNED"
    and "es_slot s t = Some i \<Longrightarrow> es_pc s t \<noteq> Claimed i \<Longrightarrow> i \<le> ebr_hwm (es_dom s)"
    and "es_slot s t = Some i \<Longrightarrow> es_slot s t' = Some i \<Longrightarrow> t = t'"
    and "es_pc s t = pc \<Longrightarrow> pc_inv s pc t"
    and "unat (ebr_epoch (es_dom s)) = es_advances s"
    and "es_guard s t \<Longrightarrow> es_birth s t \<le> es_advances s"
    and "es_guard s t \<Longrightarrow> es_advances s \<le> Suc (es_birth s t)"
    and "es_guard s t \<Longrightarrow> \<exists>i. es_slot s t = Some i"
  using assms by (auto simp: ebr_inv_def slots_inv_def guards_inv_def split: if_splits)

lemma one_guard: "ebr_inv s \<Longrightarrow> es_extra s t = 0"
  by (simp add: ebr_inv_def guards_inv_def)

lemma small_not_sentinel: "unat v < 2 ^ 62 \<Longrightarrow> v \<noteq> FREE" "unat v < 2 ^ 62 \<Longrightarrow> v \<noteq> UNPINNED"
  using ebr_epoch_bounds by auto

lemma free_slot_unclaimed:
  assumes "ebr_inv s" "es_advances s < 2 ^ 62" "slot_val s i = FREE"
  shows "es_slot s t \<noteq> Some i"
proof
  assume a: "es_slot s t = Some i"
  have "UNPINNED \<noteq> FREE" by (simp add: UNPINNED_def FREE_def)
  then have "es_guard s t" using a assms ebr_invD(3) by metis
  then have "unat (slot_val s i) < 2 ^ 62"
    using ebr_invD(2,8) [OF assms(1)] a assms(2) by (meson le_trans order.strict_trans1)
  then show False using small_not_sentinel assms(3) by blast
qed

lemma slots_inv_step:
  assumes "ebr_step s s'" "ebr_inv s" "es_advances s < 2 ^ 62"
  shows "slots_inv s'"
  using assms(1)
proof (cases rule: ebr_step.cases)
  case (probe_cas_ok t i)
  then show ?thesis
    using ebr_invD [OF assms(2)] free_slot_unclaimed [OF assms(2,3)]
      ebr_invD(6) [OF assms(2) probe_cas_ok(2)] ebr_invD(10) [OF assms(2), of t]
    by (auto simp: slots_inv_def step_simps pc_inv_def)
next
  case (pin_store t e i)
  then show ?thesis
    using ebr_invD [OF assms(2)] ebr_invD(6) [OF assms(2) pin_store(2)]
    by (auto simp: slots_inv_def step_simps pc_inv_def)
next
  case (unpin t i)
  then show ?thesis
    using ebr_invD [OF assms(2)]
    by (auto simp: slots_inv_def step_simps one_guard [OF assms(2)])
next
  case (publish_hwm t i)
  then show ?thesis
    using ebr_invD [OF assms(2)] ebr_invD(6) [OF assms(2) publish_hwm(2)]
    by (auto simp: slots_inv_def step_simps pc_inv_def le_max_iff_disj)
qed (use assms(2) in \<open>auto simp: ebr_inv_def slots_inv_def step_simps split: if_splits\<close>)

lemma guards_inv_step:
  assumes "ebr_step s s'" "ebr_inv s" "es_advances s < 2 ^ 62"
  shows "guards_inv s'"
  using assms(1)
proof (cases rule: ebr_step.cases)
  case (pin_store t e i)
  then show ?thesis
    using ebr_invD [OF assms(2)] ebr_invD(6) [OF assms(2) pin_store(2)]
    by (auto simp: guards_inv_def step_simps pc_inv_def one_guard [OF assms(2)])
next
  case (probe_cas_ok t i)
  then show ?thesis
    using ebr_invD [OF assms(2)] by (auto simp: guards_inv_def step_simps one_guard [OF assms(2)])
next
  case (unpin t i)
  then show ?thesis
    using ebr_invD [OF assms(2)] by (auto simp: guards_inv_def step_simps one_guard [OF assms(2)])
next
  case (advance_ok t g)
  have "unat (g + 1) = Suc (unat g)"
    using unat_Suc_no_wrap [of g] advance_ok(3) ebr_invD(7) [OF assms(2)] assms(3) by simp
  then show ?thesis
    using advance_ok ebr_invD [OF assms(2)] ebr_invD(6) [OF assms(2) advance_ok(2)]
    by (auto simp: guards_inv_def step_simps pc_inv_def one_guard [OF assms(2)] intro: le_SucI)
qed (use assms(2) in \<open>auto simp: ebr_inv_def guards_inv_def step_simps\<close>)

lemma pc_inv_frame:
  assumes "pc_inv s pc u"
    and "es_slot s' = es_slot s" "es_guard s' = es_guard s" "es_birth s' = es_birth s"
      "es_advances s \<le> es_advances s'"
  shows "pc_inv s' pc u"
  using assms by (auto simp: pc_inv_def split: ebr_pc.splits)

text \<open>Only three steps change what the program counters of other threads rely on.\<close>

lemma pc_inv_others:
  assumes "ebr_step s s'" "ebr_inv s" "es_pc s' u = es_pc s u"
  shows "pc_inv s' (es_pc s u) u"
  using assms(1)
proof (cases rule: ebr_step.cases)
  case (probe_cas_ok t i)
  then show ?thesis
    using assms(3) ebr_invD(6) [OF assms(2) refl, of u] ebr_invD(6) [OF assms(2) probe_cas_ok(2)]
      ebr_invD(10) [OF assms(2), of t]
    by (auto simp: step_simps pc_inv_def split: ebr_pc.splits if_splits)
next
  case (pin_store t e i)
  then show ?thesis
    using assms(3) ebr_invD(6) [OF assms(2) refl, of u]
    by (auto simp: step_simps pc_inv_def split: ebr_pc.splits if_splits)
next
  case (unpin t i)
  then show ?thesis
    using assms(3) ebr_invD(6) [OF assms(2) refl, of u]
    by (auto simp: step_simps pc_inv_def split: ebr_pc.splits if_splits)
qed (auto intro!: pc_inv_frame [OF ebr_invD(6) [OF assms(2) refl, of u]] simp: step_simps)

lemma scan_pass_inv:
  assumes "ebr_inv s" "es_advances s < 2 ^ 62" "es_pc s t = Scan g h i" "\<not> blocks g (slot_val s i)"
  shows "pc_inv s (Scan g h (Suc i)) t"
proof -
  have "i \<noteq> j" if u: "es_guard s u" "es_birth s u < unat g" "es_slot s u = Some j" for u j
  proof
    assume "i = j"
    then have le: "unat (slot_val s i) \<le> es_birth s u" using ebr_invD(2) [OF assms(1) u(3,1)] by simp
    moreover have "es_birth s u < 2 ^ 62" using ebr_invD(8) [OF assms(1) u(1)] assms(2) by simp
    ultimately have "unat (slot_val s i) < 2 ^ 62" by simp
    then have "slot_pinned (slot_val s i)" by (simp add: slot_pinned_def small_not_sentinel)
    moreover have "slot_val s i \<noteq> g" using le u(2) by auto
    ultimately show False using assms(4) by (simp add: blocks_def)
  qed
  then show ?thesis
    using ebr_invD(6) [OF assms(1,3)] by (auto simp: pc_inv_def Suc_le_eq le_neq_implies_less)
qed

lemma collect_hwm_inv:
  assumes "ebr_inv s" "es_pc s t = ColG g"
  shows "pc_inv s (Scan g (scan_limit (es_dom s)) 0) t"
proof -
  have "j \<le> scan_limit (es_dom s)" if "es_guard s u" "es_slot s u = Some j" for u j
  proof -
    have "es_pc s u \<noteq> Claimed j" using ebr_invD(6) [OF assms(1), of u] that by (auto simp: pc_inv_def)
    then show ?thesis using ebr_invD(1,4) [OF assms(1) that(2)] by (simp add: scan_limit_def)
  qed
  then show ?thesis using ebr_invD(6) [OF assms] by (auto simp: pc_inv_def)
qed

lemma pc_inv_step:
  assumes "ebr_step s s'" "ebr_inv s" "es_advances s < 2 ^ 62" "\<not> es_nested s'"
  shows "pc_inv s' (es_pc s' u) u"
proof (cases "es_pc s' u = es_pc s u")
  case True
  then show ?thesis using pc_inv_others [OF assms(1,2)] by simp
next
  case False
  note D = ebr_invD(6) [OF assms(2)]
  show ?thesis
    using assms(1)
  proof (cases rule: ebr_step.cases)
    case (scan_pass t g h i)
    then show ?thesis
      using False scan_pass_inv [OF assms(2,3), of t g h i] by (auto simp: pc_inv_def split: if_splits)
  next
    case (collect_hwm t g)
    then show ?thesis
      using False collect_hwm_inv [OF assms(2), of t g] by (auto simp: pc_inv_def split: if_splits)
  next
    case (scan_done t g h i)
    then show ?thesis
      using False D [of t] ebr_invD(10) [OF assms(2)] by (force simp: pc_inv_def split: if_splits)
  qed (use False assms(4) D [of u] ebr_invD(7) [OF assms(2)] ebr_invD(10) [OF assms(2), of u] in \<open>auto simp: pc_inv_def step_simps split: if_splits\<close>)
qed

lemma record_ok_frame:
  assumes "record_ok s r" "es_advances s \<le> es_advances s'"
    and "\<And>u. es_guard s' u \<Longrightarrow> rt_ptr r \<in> es_refs s' u \<Longrightarrow>
      es_guard s u \<and> rt_ptr r \<in> es_refs s u \<and> es_birth s' u = es_birth s u"
  shows "record_ok s' r"
  using assms by (fastforce simp: record_ok_def)

lemma records_invD:
  assumes "ebr_inv s"
  shows "r \<in> set (ebr_bags (es_dom s) b) \<Longrightarrow> record_ok s r"
    and "es_pc s t = pc \<Longrightarrow> r \<in> set (pc_records pc) \<Longrightarrow> record_ok s r"
    and "r \<in> set (ebr_bags (es_dom s) b) \<Longrightarrow> es_place s (rt_ptr r) = InBag b"
    and "es_pc s t = pc \<Longrightarrow> r \<in> set (pc_records pc) \<Longrightarrow> es_place s (rt_ptr r) = InPc t"
    and "distinct (map rt_ptr (ebr_bags (es_dom s) b))"
    and "es_pc s t = pc \<Longrightarrow> distinct (map rt_ptr (pc_records pc))"
    and "distinct (es_freed s)"
    and "p \<in> set (es_freed s) \<Longrightarrow> es_place s p = Freed"
    and "es_guard s t \<Longrightarrow> p \<in> es_refs s t \<Longrightarrow> es_place s p \<noteq> Freed"
  using assms by (auto simp: ebr_inv_def records_inv_def places_inv_def)

lemma record_ok_step:
  assumes "ebr_step s s'" "ebr_inv s" "record_ok s r" "es_place s (rt_ptr r) \<noteq> Linked"
  shows "record_ok s' r"
  using assms(1)
proof (cases rule: ebr_step.cases)
  case (pin_store t e i)
  then show ?thesis using assms(3) by (auto simp: record_ok_def step_simps)
next
  case (client_read t p)
  then show ?thesis using assms(3,4) by (auto simp: record_ok_def split: if_splits)
next
  case (unpin t i)
  then show ?thesis using assms(3) by (auto simp: record_ok_def step_simps)
qed (use assms(3) in \<open>auto simp: record_ok_def step_simps\<close>)

lemma new_record_ok:
  assumes "ebr_inv s"
  shows "record_ok s \<lparr>rt_ptr = p, rt_epoch = ebr_epoch (es_dom s)\<rparr>"
  using ebr_invD(7,8) [OF assms] by (simp add: record_ok_def)

lemma records_origin:
  assumes "ebr_step s s'"
    and "r \<in> set (ebr_bags (es_dom s') b) \<or> r \<in> set (pc_records (es_pc s' t))"
  shows "(\<exists>b. r \<in> set (ebr_bags (es_dom s) b)) \<or> (\<exists>t. r \<in> set (pc_records (es_pc s t))) \<or>
    (rt_epoch r = ebr_epoch (es_dom s) \<and> (\<exists>t. es_place s (rt_ptr r) = Owned t))"
  using assms(1)
proof (cases rule: ebr_step.cases)
  case (retire_push u p e)
  then have "r = \<lparr>rt_ptr = p, rt_epoch = e\<rparr> \<longrightarrow> (\<exists>t. r \<in> set (pc_records (es_pc s t)))"
    by (intro impI exI [of _ u]) auto
  then show ?thesis using retire_push assms(2) by (auto simp: step_simps split: if_splits)
next
  case (sweep_keep u cur b r' rs keep)
  then have "r \<in> set (r' # rs @ keep) \<longrightarrow> (\<exists>t. r \<in> set (pc_records (es_pc s t)))"
    by (intro impI exI [of _ u]) auto
  then show ?thesis using sweep_keep assms(2) by (auto simp: step_simps split: if_splits)
next
  case (sweep_free u cur b r' rs keep)
  then have "r \<in> set (rs @ keep) \<longrightarrow> (\<exists>t. r \<in> set (pc_records (es_pc s t)))"
    by (intro impI exI [of _ u]) auto
  then show ?thesis using sweep_free assms(2) by (auto simp: step_simps split: if_splits)
next
  case (sweep_end u cur b keep)
  then have "r \<in> set keep \<longrightarrow> (\<exists>t. r \<in> set (pc_records (es_pc s t)))"
    by (intro impI exI [of _ u]) auto
  then show ?thesis using sweep_end assms(2) by (auto simp: step_simps split: if_splits)
next
  case (repush u cur b r' keep)
  then have "r \<in> set (r' # keep) \<longrightarrow> (\<exists>t. r \<in> set (pc_records (es_pc s t)))"
    by (intro impI exI [of _ u]) auto
  then show ?thesis using repush assms(2) by (auto simp: step_simps split: if_splits)
qed (use assms(2) in \<open>auto simp: step_simps split: if_splits\<close>)

lemma records_inv_step:
  assumes "ebr_step s s'" "ebr_inv s"
  shows "records_inv s'"
proof -
  have "record_ok s' r"
    if "r \<in> set (ebr_bags (es_dom s') b) \<or> r \<in> set (pc_records (es_pc s' t))" for r b t
  proof (rule record_ok_step [OF assms])
    show "record_ok s r"
      using records_origin [OF assms(1) that] records_invD(1,2) [OF assms(2)] new_record_ok [OF assms(2)]
      by (metis (full_types) retired.surjective unit.exhaust)
    show "es_place s (rt_ptr r) \<noteq> Linked"
      using records_origin [OF assms(1) that] records_invD(3,4) [OF assms(2)] by fastforce
  qed
  then show ?thesis by (auto simp: records_inv_def)
qed

lemma sweep_free_unreferenced:
  assumes "ebr_inv s" "es_advances s < 2 ^ 62"
    and "es_pc s t = Sweep cur b (r # rs) keep" "eligible cur r" "es_guard s u"
  shows "rt_ptr r \<notin> es_refs s u"
proof
  assume "rt_ptr r \<in> es_refs s u"
  then have b: "es_birth s u \<le> unat (rt_epoch r)"
    using records_invD(2) [OF assms(1,3), of r] assms(5) by (simp add: record_ok_def)
  have le: "unat (rt_epoch r) \<le> es_advances s"
    using records_invD(2) [OF assms(1,3), of r] by (simp add: record_ok_def)
  have "unat (rt_epoch r) + 2 \<le> unat cur"
    using assms(4) le assms(2) by (simp add: eligible_unat)
  also have "unat cur \<le> es_advances s" using ebr_invD(6) [OF assms(1,3)] by (simp add: pc_inv_def)
  also have "\<dots> \<le> Suc (es_birth s u)" by (rule ebr_invD(9) [OF assms(1,5)])
  finally show False using b by simp
qed

lemma places_invI:
  assumes "\<And>b. distinct (map rt_ptr (ebr_bags (es_dom s) b))"
    and "\<And>b r. r \<in> set (ebr_bags (es_dom s) b) \<Longrightarrow> es_place s (rt_ptr r) = InBag b"
    and "\<And>t. distinct (map rt_ptr (pc_records (es_pc s t)))"
    and "\<And>t r. r \<in> set (pc_records (es_pc s t)) \<Longrightarrow> es_place s (rt_ptr r) = InPc t"
    and "distinct (es_freed s)" "\<And>p. p \<in> set (es_freed s) \<Longrightarrow> es_place s p = Freed"
    and "\<And>t p. es_guard s t \<Longrightarrow> p \<in> es_refs s t \<Longrightarrow> es_place s p \<noteq> Freed"
  shows "places_inv s"
  using assms by (auto simp: places_inv_def)

lemma places_inv_step:
  assumes "ebr_step s s'" "ebr_inv s" "es_advances s < 2 ^ 62"
  shows "places_inv s'"
proof -
  note D = records_invD(3,5,7,8,9) [OF assms(2)]
  note E = records_invD(4,6) [OF assms(2) refl]
  note F = records_invD(4,6) [OF assms(2)]
  show ?thesis
    using assms(1)
  proof (cases rule: ebr_step.cases)
    case (client_link p)
    show ?thesis
      by (rule places_invI) (use client_link in \<open>auto simp: step_simps D(2,3) E(2) dest: D(1,4,5) E(1) split: if_splits\<close>)
  next
    case (client_unlink t p)
    show ?thesis
      by (rule places_invI) (use client_unlink in \<open>auto simp: step_simps D(2,3) E(2) dest: D(1,4,5) E(1) split: if_splits\<close>)
  next
    case (retire_load t p)
    show ?thesis
      by (rule places_invI) (use retire_load in \<open>auto simp: step_simps D(2,3) E(2) dest: D(1,4,5) E(1) split: if_splits\<close>)
  next
    case (retire_push t p e)
    show ?thesis
      by (rule places_invI) (use retire_push F [OF retire_push(2)] in \<open>auto simp: step_simps D(2,3) E(2) dest: D(1,4,5) E(1) split: if_splits\<close>)
  next
    case (bag_swap t cur b)
    have "rt_ptr x \<noteq> rt_ptr r" if "r \<in> set (ebr_bags (es_dom s) b)" "x \<in> set (ebr_bags (es_dom s) b')"
      "b' \<noteq> b" for r x b'
      using D(1) that by (metis place.inject(3))
    moreover have "rt_ptr x \<noteq> rt_ptr r" if "r \<in> set (ebr_bags (es_dom s) b)"
      "x \<in> set (pc_records (es_pc s u))" for r x u
      using D(1) [OF that(1)] E(1) [OF that(2)] by auto
    moreover have "rt_ptr r \<notin> set (es_freed s)" if "r \<in> set (ebr_bags (es_dom s) b)" for r
      using D(1) [OF that] D(4) by fastforce
    ultimately show ?thesis
      by (intro places_invI) (use bag_swap in \<open>auto simp: step_simps D(2,3) E(2) dest: D(1,4,5) E(1) split: if_splits\<close>)
  next
    case (sweep_free t cur b r rs keep)
    have "rt_ptr x \<noteq> rt_ptr r" if "x \<in> set (rs @ keep)" for x
      using F(2) [OF sweep_free(2)] that by (auto simp: image_iff)
    then show ?thesis
      by (intro places_invI) (use sweep_free F [OF sweep_free(2)] sweep_free_unreferenced [OF assms(2,3) sweep_free(2,3)]
       in \<open>auto simp: step_simps D(2,3) E(2) dest: D(1,4,5) E(1) split: if_splits\<close>)
  next
    case (sweep_keep t cur b r rs keep)
    show ?thesis
      by (rule places_invI) (use sweep_keep F [OF sweep_keep(2)] in \<open>auto simp: step_simps D(2,3) E(2) dest: D(1,4,5) E(1) split: if_splits\<close>)
  next
    case (repush t cur b r keep)
    have "rt_ptr x \<noteq> rt_ptr r" if "x \<in> set keep" for x
      using F(2) [OF repush(2)] that by (auto simp: image_iff)
    moreover have "rt_ptr r \<noteq> rt_ptr x" if "x \<in> set (ebr_bags (es_dom s) b')" for x b'
      using F(1) [OF repush(2), of r] D(1) [OF that] by auto
    ultimately show ?thesis
      by (intro places_invI) (use repush F [OF repush(2)] in \<open>auto simp: step_simps D(2,3) E(2) dest: D(1,4,5) E(1) split: if_splits\<close>)
  next
    case (sweep_end t cur b keep)
    show ?thesis
      by (rule places_invI) (use sweep_end F [OF sweep_end(2)] in \<open>auto simp: D(2,3) E(2) dest: D(1,4,5) E(1) split: if_splits\<close>)
  qed (use assms(2) in \<open>auto simp: ebr_inv_def places_inv_def step_simps split: if_splits\<close>)
qed

lemma ebr_inv_step: "ebr_step s s' \<Longrightarrow> ebr_inv s \<Longrightarrow> es_advances s < 2 ^ 62 \<Longrightarrow> \<not> es_nested s' \<Longrightarrow> ebr_inv s'"
  unfolding ebr_inv_def [of s']
  using slots_inv_step guards_inv_step pc_inv_step records_inv_step places_inv_step by blast

lemma ebr_advances_mono: "ebr_step s s' \<Longrightarrow> es_advances s \<le> es_advances s'"
  by (erule ebr_step.cases) (simp_all add: step_simps)

lemma ebr_nested_mono: "ebr_step s s' \<Longrightarrow> es_nested s \<Longrightarrow> es_nested s'"
  by (erule ebr_step.cases) (simp_all add: step_simps)

lemma ebr_inv_reach: "ebr_reach s \<Longrightarrow> es_advances s < 2 ^ 62 \<Longrightarrow> \<not> es_nested s \<Longrightarrow> ebr_inv s"
proof (induction rule: ebr_reach.induct)
  case ebr_start
  show ?case by (rule ebr_inv_init)
next
  case (ebr_next s s')
  then have "es_advances s < 2 ^ 62" using ebr_advances_mono by fastforce
  then show ?case using ebr_next ebr_inv_step ebr_nested_mono by blast
qed

section \<open>Properties\<close>

text \<open>
  C16: As long as no thread has called \<open>pin\<close> while a guard of its own was alive, and the epoch has
  advanced fewer than \<open>2 ^ 62\<close> times: while a guard is alive, no allocation loaded under it is freed,
  whatever any number of threads do in between; nothing that is still linked is freed, and no
  allocation is freed twice.
\<close>

theorem ebr_no_use_after_free:
  assumes "ebr_reach s" "es_advances s < 2 ^ 62" "\<not> es_nested s"
  shows "(\<forall>t p. es_guard s t \<and> p \<in> es_refs s t \<longrightarrow> p \<notin> set (es_freed s)) \<and>
    (\<forall>p. es_place s p = Linked \<longrightarrow> p \<notin> set (es_freed s)) \<and> distinct (es_freed s)"
  using records_invD(7,8,9) [OF ebr_inv_reach [OF assms]] by fastforce

text \<open>A run in which thread 0 pins, reads an allocation, unlinks it and retires it.\<close>

lemma ebr_reach_example:
  "\<exists>s :: nat ebr_sys. ebr_reach s \<and> es_advances s = 0 \<and> \<not> es_nested s \<and> es_guard s 0 \<and> 7 \<in> es_refs s 0 \<and>
     es_pc s 0 = Retiring 7 0"
proof -
  define st :: "nat ebr_pc \<Rightarrow> nat option \<Rightarrow> u64 \<Rightarrow> bool \<Rightarrow> nat set \<Rightarrow> (nat \<Rightarrow> place) \<Rightarrow> nat ebr_sys"
    where "st pc sl v g rf pl = \<lparr>es_dom = \<lparr>ebr_epoch = 0, ebr_slots = (\<lambda>_. FREE)(0 := v),
        ebr_bags = (\<lambda>_. []), ebr_hwm = 0\<rparr>, es_slot = (\<lambda>_. None)(0 := sl), es_pc = (\<lambda>_. Idle)(0 := pc),
        es_guard = (\<lambda>_. False)(0 := g), es_extra = (\<lambda>_. 0), es_refs = (\<lambda>_. {})(0 := rf), es_birth = (\<lambda>_. 0),
        es_advances = 0, es_place = pl, es_freed = [], es_nested = False\<rparr>" for pc sl v g rf pl
  note ex = st_def step_simps N_SLOTS_def
  let ?f = "\<lambda>_. Fresh"
  have "ebr_reach (st Idle None FREE False {} ?f)"
    using ebr_start by (simp add: st_def ebr_init_def domain_new_def fun_upd_idem)
  from ebr_next [OF this pin_probe [of _ 0]] have "ebr_reach (st (Probe 0) None FREE False {} ?f)"
    by (simp add: ex)
  from ebr_next [OF this probe_free [of _ 0]] have "ebr_reach (st (ProbeCas 0) None FREE False {} ?f)"
    by (simp add: ex)
  from ebr_next [OF this probe_cas_ok [of _ 0]]
  have "ebr_reach (st (Claimed 0) (Some 0) UNPINNED False {} ?f)" by (simp add: ex)
  from ebr_next [OF this publish_hwm [of _ 0]]
  have "ebr_reach (st PinStart (Some 0) UNPINNED False {} ?f)" by (simp add: ex)
  from ebr_next [OF this pin_load [of _ 0]]
  have "ebr_reach (st (PinLoaded 0) (Some 0) UNPINNED False {} ?f)" by (simp add: ex)
  from ebr_next [OF this pin_store [of _ 0]]
  have "ebr_reach (st Idle (Some 0) 0 True {} ?f)" by (simp add: ex fun_upd_idem)
  from ebr_next [OF this client_link [of _ 7]]
  obtain pl where "ebr_reach (st Idle (Some 0) 0 True {} pl)" "pl 7 = Linked" by (simp add: ex)
  with ebr_next [OF this(1) client_read [of _ 0 7]]
  have "ebr_reach (st Idle (Some 0) 0 True {7} pl)" "pl 7 = Linked" by (simp_all add: ex)
  from ebr_next [OF this(1) client_unlink [of _ 7 0]] this(2)
  obtain pl where "ebr_reach (st Idle (Some 0) 0 True {7} pl)" "pl 7 = Owned 0" by (simp add: ex)
  from ebr_next [OF this(1) retire_load [of _ 0 7]] this(2)
  obtain pl where "ebr_reach (st (Retiring 7 0) (Some 0) 0 True {7} pl)" by (simp add: ex)
  then show ?thesis by (rule exI [where x = "st _ _ _ _ _ _", OF conjI]) (simp add: ex)
qed

theorem ebr_no_use_after_free_witness:
  "\<exists>s :: nat ebr_sys. ebr_reach s \<and> es_guard s 0 \<and> 7 \<in> es_refs s 0 \<and> es_pc s 0 = Retiring 7 0 \<and> 7 \<notin> set (es_freed s)"
proof -
  obtain s :: "nat ebr_sys" where "ebr_reach s" "es_advances s = 0" "\<not> es_nested s" "es_guard s 0" "7 \<in> es_refs s 0"
    "es_pc s 0 = Retiring 7 0"
    using ebr_reach_example by blast
  then show ?thesis using ebr_no_use_after_free [of s] by (intro exI [of _ s]) auto
qed

text \<open>
  C17: With no thread pinned, two collections free every retired allocation, each once, and leave
  the bags empty.
\<close>

theorem quiescent_collect_frees_all:
  assumes "\<forall>i. \<not> slot_pinned (ebr_slots d i)" "unat (ebr_epoch d) < 2 ^ 62"
    and "\<forall>b < N_BAGS. \<forall>r \<in> set (ebr_bags d b). unat (rt_epoch r) \<le> unat (ebr_epoch d)"
    and "try_collect d = (d', f)" "try_collect d' = (d'', f')"
  shows "(\<forall>b < N_BAGS. ebr_bags d'' b = []) \<and>
    mset (f @ f') = (\<Sum>b \<leftarrow> [0..<N_BAGS]. mset (map rt_ptr (ebr_bags d b)))"
proof -
  let ?e = "ebr_epoch d"
  let ?old = "eligible (?e + 1)"
  have d': "d' = d\<lparr>ebr_epoch := ?e + 1,
      ebr_bags := (\<lambda>b. if b < N_BAGS then filter (\<lambda>r. \<not> ?old r) (ebr_bags d b) else ebr_bags d b)\<rparr>"
    and f: "f = concat (map (\<lambda>b. map rt_ptr (filter ?old (ebr_bags d b))) [0..<N_BAGS])"
    using assms(4) quiescent_can_advance [OF assms(1)] by (auto simp: try_collect_eq Let_def)
  have el: "eligible (2 + ?e) r" if "r \<in> set (ebr_bags d b)" "b < N_BAGS" for b r
    using that assms(2,3) by (intro eligible_after_two) auto
  have "\<forall>i. \<not> slot_pinned (ebr_slots d' i)" using assms(1) by (simp add: d')
  note adv = quiescent_can_advance [OF this]
  have d'': "ebr_bags d'' b = []" if "b < N_BAGS" for b
    using assms(5) adv that el [OF _ that] by (auto simp: try_collect_eq Let_def d' filter_empty_conv)
  have "?e + 1 + 1 = 2 + ?e" by simp
  then have "f' = concat (map (\<lambda>b. map rt_ptr (filter (eligible (2 + ?e)) (ebr_bags d' b))) [0..<N_BAGS])"
    using assms(5) adv by (simp add: try_collect_eq Let_def d')
  also have "\<dots> = concat (map (\<lambda>b. map rt_ptr (filter (\<lambda>r. \<not> ?old r) (ebr_bags d b))) [0..<N_BAGS])"
    using el by (intro arg_cong [where f = concat] map_cong) (auto simp: d' intro!: filter_cong)
  finally show ?thesis
    using d'' mset_concat_parts [of rt_ptr ?old "ebr_bags d" "[0..<N_BAGS]"] by (simp add: f)
qed

theorem quiescent_collect_frees_all_witness:
  "let d = retire (7 :: nat) domain_new; c = try_collect d; c' = try_collect (fst c)
   in mset (snd c @ snd c') = {#7#} \<and> ebr_bags (fst c') 0 = []"
proof -
  let ?d = "retire (7 :: nat) domain_new"
  have "(\<forall>b < N_BAGS. ebr_bags (fst (try_collect (fst (try_collect ?d)))) b = []) \<and>
      mset (snd (try_collect ?d) @ snd (try_collect (fst (try_collect ?d)))) =
        (\<Sum>b \<leftarrow> [0..<N_BAGS]. mset (map rt_ptr (ebr_bags ?d b)))"
    by (rule quiescent_collect_frees_all [of ?d])
      (auto simp: retire_def bag_push_def domain_new_def slot_pinned_def Let_def)
  then show ?thesis
    by (simp add: upt_bags retire_def bag_push_def domain_new_def Let_def bag_of_def)
      (simp add: N_BAGS_def)
qed

text \<open>
  What follows is about one thread that pins twice, while no other thread is pinned: with no slot
  pinned, two collections free what is retired; with one slot pinned at the current epoch, none does.
\<close>

lemma collect_unpinned:
  assumes "\<forall>j. \<not> slot_pinned (ebr_slots d j)"
  shows "ebr_epoch (fst (try_collect d)) = ebr_epoch d + 1" "ebr_slots (fst (try_collect d)) = ebr_slots d"
    "\<lbrakk>b < N_BAGS; r \<in> set (ebr_bags d b)\<rbrakk> \<Longrightarrow>
      if eligible (ebr_epoch d + 1) r then rt_ptr r \<in> set (snd (try_collect d))
      else r \<in> set (ebr_bags (fst (try_collect d)) b)"
  using quiescent_can_advance [OF assms] by (force simp: try_collect_eq Let_def)+

lemma retire_simps [simp]:
  "ebr_epoch (retire p d) = ebr_epoch d" "ebr_slots (retire p d) = ebr_slots d" "ebr_hwm (retire p d) = ebr_hwm d"
  "\<lparr>rt_ptr = p, rt_epoch = ebr_epoch d\<rparr> \<in> set (ebr_bags (retire p d) (bag_of (ebr_epoch d)))"
  by (simp_all add: retire_def bag_push_def Let_def)

lemma bag_of_less: "bag_of e < N_BAGS"
  by (simp add: bag_of_def N_BAGS_def)

lemma unpinned_retire_freed:
  assumes "\<forall>j. \<not> slot_pinned (ebr_slots d j)" "unat (ebr_epoch d) < 2 ^ 62"
  shows "p \<in> set (snd (try_collect (retire p d)) @ snd (try_collect (fst (try_collect (retire p d)))))"
proof -
  let ?r = "\<lparr>rt_ptr = p, rt_epoch = ebr_epoch d\<rparr>" and ?b = "bag_of (ebr_epoch d)" and ?d = "retire p d"
  have u: "\<forall>j. \<not> slot_pinned (ebr_slots ?d j)" "\<forall>j. \<not> slot_pinned (ebr_slots (fst (try_collect ?d)) j)"
    using assms(1) collect_unpinned(2) [of ?d] by simp_all
  have "eligible (2 + ebr_epoch d) ?r" using assms(2) by (intro eligible_after_two) auto
  moreover have "ebr_epoch (fst (try_collect ?d)) + 1 = 2 + ebr_epoch d" using collect_unpinned(1) [OF u(1)] by simp
  ultimately show ?thesis
    using collect_unpinned(3) [OF u(1) bag_of_less retire_simps(4)] collect_unpinned(3) [OF u(2) bag_of_less, of ?r "ebr_epoch d"]
    by (auto split: if_splits)
qed

text \<open>Slot \<open>i\<close> is pinned at \<open>e\<close>, the epoch is at most one ahead, and \<open>p\<close>, retired at \<open>e\<close>, is in its bag.\<close>

definition held_back :: "nat \<Rightarrow> u64 \<Rightarrow> 'p \<Rightarrow> 'p ebr_domain \<Rightarrow> bool" where
  "held_back i e p d \<longleftrightarrow> ebr_slots d i = e \<and> i \<le> scan_limit d \<and> ebr_epoch d \<in> {e, e + 1} \<and>
     \<lparr>rt_ptr = p, rt_epoch = e\<rparr> \<in> set (ebr_bags d (bag_of e))"

lemma held_back_collect:
  assumes "held_back i e p d" "unat e < 2 ^ 62"
  shows "held_back i e p (fst (try_collect d))"
proof -
  have e1: "unat (e + 1) = Suc (unat e)" using assms(2) by (simp add: unat_Suc_no_wrap)
  have pinned: "slot_pinned e" using assms(2) by (simp add: slot_pinned_def small_not_sentinel)
  have "e \<noteq> e + 1" using e1 by (metis n_not_Suc_n)
  then have "blocks (e + 1) (ebr_slots d i)" "i \<in> set [0..<Suc (scan_limit d)]"
    using assms(1) pinned by (auto simp: held_back_def blocks_def)
  then have "\<not> can_advance d (e + 1)" unfolding can_advance_def list_all_iff by blast
  then have "ebr_epoch (fst (try_collect d)) \<in> {e, e + 1}"
    using assms(1) by (auto simp: held_back_def try_collect_eq Let_def)
  moreover have "\<not> eligible c \<lparr>rt_ptr = p, rt_epoch = e\<rparr>" if "c \<in> {e, e + 1}" for c
    using that e1 assms(2) by (auto simp: eligible_unat)
  ultimately show ?thesis
    using assms(1) by (auto simp: held_back_def try_collect_eq Let_def scan_limit_def bag_of_less)
qed

text \<open>
  C18: Let a thread that owns slot \<open>i\<close> pin, pin again and drop the inner guard, in any domain in which
  no other thread is pinned.  Both guards share the slot, and two collections then free whatever is
  retired next, although the outer guard is still alive.  Under the outer guard alone no number of
  collections frees it.
\<close>

theorem nested_pin_frees_under_guard:
  assumes "i < N_SLOTS" "i \<le> ebr_hwm d" "\<forall>j. \<not> slot_pinned (ebr_slots d j)" "unat (ebr_epoch d) < 2 ^ 62 - 1"
    and "pin (Some i) d = Inr (outer, d1)" "pin (Some i) d1 = Inr (inner, d2)" "guard_drop inner tick d2 = (tick', d3, f)"
  shows "outer = i \<and> inner = i \<and>
    p \<in> set (snd (try_collect (retire p d3)) @ snd (try_collect (fst (try_collect (retire p d3))))) \<and>
    (\<forall>n. \<lparr>rt_ptr = p, rt_epoch = ebr_epoch d\<rparr> \<in>
      set (ebr_bags (((fst \<circ> try_collect) ^^ n) (retire p d1)) (bag_of (ebr_epoch d))))"
proof -
  let ?e = "ebr_epoch d"
  have d1: "outer = i" "d1 = d\<lparr>ebr_slots := (ebr_slots d)(i := ?e)\<rparr>" and d2: "inner = i" "d2 = d1"
    using assms(5,6) by (auto simp: pin_def local_slot_def)
  let ?u = "d1\<lparr>ebr_slots := (ebr_slots d1)(i := UNPINNED)\<rparr>"
  have u: "\<forall>j. \<not> slot_pinned (ebr_slots ?u j)" using assms(3) by (auto simp: d1 slot_pinned_def)
  have lt: "unat (?e + 1) = Suc (unat ?e)" using assms(4) by (simp add: unat_Suc_no_wrap)
  have "d3 = ?u \<or> d3 = fst (try_collect ?u)"
    using assms(7) by (auto simp: guard_drop_def d2 Let_def split: if_splits dest: arg_cong [where f = fst])
  then have "\<forall>j. \<not> slot_pinned (ebr_slots d3 j)" "unat (ebr_epoch d3) < 2 ^ 62"
    using u collect_unpinned(1,2) [OF u] lt assms(4) by (auto simp: d1)
  then have freed: "p \<in> set (snd (try_collect (retire p d3)) @ snd (try_collect (fst (try_collect (retire p d3)))))"
    by (rule unpinned_retire_freed)
  have "held_back i ?e p (retire p d1)"
    using assms(1,2) retire_simps(4) [of p d1] by (simp add: held_back_def d1 scan_limit_def)
  then have "held_back i ?e p (((fst \<circ> try_collect) ^^ n) (retire p d1))" for n
    using assms(4) by (induction n) (auto intro: held_back_collect)
  then show ?thesis using freed d1(1) d2(1) by (simp add: held_back_def)
qed

text \<open>The domain after thread 0 has dropped its first guard.\<close>

theorem nested_pin_frees_under_guard_witness:
  "let d = domain_new\<lparr>ebr_slots := (\<lambda>_. FREE)(0 := UNPINNED)\<rparr>; d1 = d\<lparr>ebr_slots := (\<lambda>_. FREE)(0 := 0)\<rparr>
   in pin (Some 0) d = Inr (0, d1) \<and> pin (Some 0) d1 = Inr (0, d1) \<and> guard_drop 0 5 d1 = (6, d, []) \<and>
     7 \<in> set (snd (try_collect (retire (7 :: nat) d)) @ snd (try_collect (fst (try_collect (retire 7 d)))))"
proof -
  let ?d = "domain_new\<lparr>ebr_slots := (\<lambda>_. FREE)(0 := UNPINNED)\<rparr> :: nat ebr_domain"
  let ?d1 = "?d\<lparr>ebr_slots := (\<lambda>_. FREE)(0 := 0)\<rparr>"
  have p: "pin (Some 0) ?d = Inr (0, ?d1)" "pin (Some 0) ?d1 = Inr (0, ?d1)"
    by (simp_all add: pin_def local_slot_def domain_new_def fun_upd_idem)
  have g: "guard_drop 0 5 ?d1 = (6, ?d, [])" by (simp add: guard_drop_def COLLECT_INTERVAL_def Let_def)
  show ?thesis unfolding Let_def
    using nested_pin_frees_under_guard [OF _ _ _ _ p g, of 7] p g
    by (simp add: domain_new_def slot_pinned_def N_SLOTS_def)
qed

end
