(* ===== verification/Backoff.thy ===== *)
theory Backoff
  imports Prelude
begin

text \<open>
  Exponential backoff with jitter, \<open>crates/zerokv/src/backoff.rs\<close>: the xorshift generator, the
  state machine of \<open>Backoff\<close> (\<open>spin\<close>, \<open>snooze\<close>, \<open>is_completed\<close>) and the level generator of the
  skip list.  A call returns the updated state next to its result; the pause instructions of a
  call are its iteration count, the \<open>yield_now\<close> of \<open>snooze\<close> a flag.  The stack address that seeds
  \<open>Backoff::new\<close> is an argument.
\<close>

section \<open>The generator\<close>

text \<open>The state update shared by \<open>Xorshift64::next\<close> and \<open>random_geometric_level\<close>.\<close>

definition xorshift :: "u64 \<Rightarrow> u64" where
  "xorshift x =
     (let x = x XOR drop_bit 12 x;
          x = x XOR push_bit 25 x
      in x XOR drop_bit 27 x)"

definition xorshift_new :: "u64 \<Rightarrow> u64" where
  "xorshift_new seed = seed OR 1"

definition xorshift_next :: "u64 \<Rightarrow> u64 \<times> u64" where
  "xorshift_next st = (let x = xorshift st in (x * 0x2545F4914F6CDD1D, x))"

section \<open>The state machine\<close>

definition SPIN_LIMIT :: u32 where
  "SPIN_LIMIT = 6"

definition YIELD_LIMIT :: u32 where
  "YIELD_LIMIT = 10"

record backoff =
  bo_step :: u32
  bo_rng :: u64

definition backoff_new :: "u64 \<Rightarrow> backoff" where
  "backoff_new addr = \<lparr>bo_step = 0, bo_rng = xorshift_new (addr * 0x9E3779B97F4A7C15)\<rparr>"

text \<open>\<open>spin\<close>: whether it is still cheap to spin, the number of pauses, and the new state.\<close>

definition spin :: "backoff \<Rightarrow> bool \<times> u64 \<times> backoff" where
  "spin bo =
     (let step = bo_step bo;
          base = push_bit (unat (min step SPIN_LIMIT)) 1;
          (r, st) = xorshift_next (bo_rng bo);
          jitter = r AND (max base 2 div 2 - 1);
          iters = base + jitter;
          bo' = bo\<lparr>bo_rng := st\<rparr>
      in (step \<le> SPIN_LIMIT, iters,
          if step \<le> YIELD_LIMIT then bo'\<lparr>bo_step := step + 1\<rparr> else bo'))"

text \<open>\<open>snooze\<close>: the pauses, whether the thread yields, and the new state.\<close>

definition snooze :: "backoff \<Rightarrow> u64 \<times> bool \<times> backoff" where
  "snooze bo =
     (if bo_step bo \<le> SPIN_LIMIT then (case spin bo of (_, iters, bo') \<Rightarrow> (iters, False, bo'))
      else (0, True, if bo_step bo \<le> YIELD_LIMIT then bo\<lparr>bo_step := bo_step bo + 1\<rparr> else bo))"

definition is_completed :: "backoff \<Rightarrow> bool" where
  "is_completed bo \<longleftrightarrow> YIELD_LIMIT < bo_step bo"

section \<open>The level generator\<close>

function level_loop :: "u64 \<Rightarrow> nat \<Rightarrow> nat \<Rightarrow> nat" where
  "level_loop bits max_level level =
     (if level < max_level \<and> bits AND 3 = 3 then level_loop (drop_bit 2 bits) max_level (Suc level)
      else level)"
  by pat_completeness auto
termination
  by (relation "measure (\<lambda>(bits, max_level, level). max_level - level)") auto

declare level_loop.simps [simp del]

definition random_geometric_level :: "u64 \<Rightarrow> nat \<Rightarrow> nat \<times> u64" where
  "random_geometric_level rng_state max_level =
     (let (r, x) = xorshift_next rng_state in (level_loop r max_level 1, x))"

section \<open>Lemmas\<close>

lemma xor_eq_0D: "(x :: u64) XOR y = 0 \<Longrightarrow> x = y"
  by (simp add: bit_eq_iff bit_xor_iff)

lemma xor_drop_bit_eq_0:
  assumes "(x :: u64) XOR drop_bit n x = 0" "0 < n"
  shows "x = 0"
proof (rule ccontr)
  assume "x \<noteq> 0"
  then have pos: "0 < unat x" by (simp add: unat_gt_0)
  have "unat (drop_bit n x) = unat x div 2 ^ n" 
    by (simp add: unat_drop_bit_eq) (simp add: drop_bit_eq_div)
  moreover have "unat x div 2 ^ n < unat x"
    using pos one_less_power [OF _ assms(2), of "2 :: nat"] by (intro div_less_dividend) auto
  ultimately show False using xor_eq_0D [OF assms(1)] by simp
qed

lemma xor_push_bit_eq_0:
  assumes "(x :: u64) XOR push_bit n x = 0" "0 < n"
  shows "x = 0"
proof -
  have eq: "bit x k = bit (push_bit n x) k" for k using xor_eq_0D [OF assms(1)] by simp
  have "\<not> bit x k" for k
  proof (induction k rule: less_induct)
    case (less k)
    then show ?case using assms(2) eq [of k] by (auto simp: bit_push_bit_iff)
  qed
  then show ?thesis by (intro bit_eqI) simp
qed

lemma xorshift_nonzero:
  assumes "x \<noteq> 0"
  shows "xorshift x \<noteq> 0"
proof -
  let ?y = "x XOR drop_bit 12 x"
  let ?z = "?y XOR push_bit 25 ?y"
  have "?y \<noteq> 0" using xor_drop_bit_eq_0 [of x 12] assms by auto
  then have "?z \<noteq> 0" using xor_push_bit_eq_0 [of ?y 25] by auto
  then have "?z XOR drop_bit 27 ?z \<noteq> 0" using xor_drop_bit_eq_0 [of ?z 27] by auto
  then show ?thesis by (simp add: xorshift_def Let_def)
qed

lemma level_loop_bounds:
  "level \<le> level_loop bits max_level level \<and> level_loop bits max_level level \<le> max level max_level"
proof (induction bits max_level level rule: level_loop.induct)
  case (1 bits max_level level)
  then show ?case by (subst (1 2) level_loop.simps) fastforce
qed

lemma low_bits_11: "(bits :: u64) AND 3 = 3 \<longleftrightarrow> bit bits 0 \<and> bit bits 1"
proof -
  have "(3 :: u64) = mask 2" by (simp add: mask_eq_exp_minus_1)
  moreover have "bits AND mask 2 = mask 2 \<longleftrightarrow> bit bits 0 \<and> bit bits 1"
    by (auto simp: bit_eq_iff [where ?'a = u64] bit_simps less_2_cases_iff)
      (metis One_nat_def one_less_numeral_iff semiring_norm(76) zero_less_numeral)+
  ultimately show ?thesis by simp
qed

lemma level_loop_ge:
  "level + k \<le> max_level \<Longrightarrow>
    level + k \<le> level_loop bits max_level level \<longleftrightarrow> (\<forall>i < 2 * k. bit bits i)"
proof (induction k arbitrary: bits level)
  case 0
  then show ?case using level_loop_bounds [of level bits max_level] by simp
next
  case (Suc k)
  have "(\<forall>i < 2 * Suc k. bit bits i) \<longleftrightarrow>
      bit bits 0 \<and> bit bits 1 \<and> (\<forall>i < 2 * k. bit (drop_bit 2 bits) i)"
    by (simp add: All_less_Suc2 bit_drop_bit_eq numeral_2_eq_2)
  then show ?case
    using Suc.IH [of "Suc level" "drop_bit 2 bits"] Suc.prems
    by (subst level_loop.simps, cases "bit bits 0 \<and> bit bits 1") (auto simp add: low_bits_11)
qed

lemma push_bit_1_pow: "push_bit n (1 :: u64) = 2 ^ n"
  by (simp add: push_bit_eq_mult)

text \<open>The jitter mask is the predecessor of a power of two, so it bounds the jitter.\<close>

lemma jitter_less:
  assumes "k \<le> 6"
  shows "unat (r AND (max (push_bit k 1) 2 div 2 - 1) :: u64) < max 1 (2 ^ k div 2)"
proof -
  have "k \<in> {0, 1, 2, 3, 4, 5, 6}" using assms by auto
  then have "unat (max (push_bit k (1 :: u64)) 2 div 2 - 1) < max 1 (2 ^ k div 2)"
    by (auto simp: push_bit_1_pow max_def word_le_nat_alt)
  moreover have "unat (r AND m) \<le> unat m" for m :: u64
    by (simp add: word_le_nat_alt [symmetric] word_and_le1)
  ultimately show ?thesis by (rule le_less_trans [rotated])
qed

lemma min_step: "unat (min (w :: u32) SPIN_LIMIT) = min (unat w) 6"
  by (auto simp: SPIN_LIMIT_def min_def word_le_nat_alt)

section \<open>Properties\<close>

text \<open>
  A call of \<open>spin\<close> at step \<open>k\<close> pauses at least \<open>2^k\<close> and less than \<open>1.5 * 2^k\<close> (at least 2 at
  step 0) times, \<open>k\<close> capped at 6, so never more than 95 times; the step never exceeds 11, and the
  generator stays away from the fixed point 0.
\<close>

lemma spin_bounds:
  assumes "spin bo = (cheap, iters, bo')" "bo_rng bo \<noteq> 0" "unat (bo_step bo) \<le> 11"
  shows "2 ^ min (unat (bo_step bo)) 6 \<le> unat iters \<and>
    unat iters < 2 ^ min (unat (bo_step bo)) 6 + max 1 (2 ^ min (unat (bo_step bo)) 6 div 2) \<and>
    unat iters \<le> 95 \<and> cheap = (unat (bo_step bo) \<le> 6) \<and>
    unat (bo_step bo') = min 11 (unat (bo_step bo) + 1) \<and> bo_rng bo' \<noteq> 0"
proof -
  define k where "k = min (unat (bo_step bo)) 6"
  define j where "j = fst (xorshift_next (bo_rng bo)) AND (max (push_bit k 1) 2 div 2 - 1)"
  have k: "k \<le> 6" by (simp add: k_def)
  have iters: "iters = push_bit k 1 + j"
    using assms(1) by (simp add: spin_def Let_def min_step k_def j_def split: prod.splits)
  have j: "unat j < max 1 (2 ^ k div 2)" unfolding j_def by (rule jitter_less [OF k])
  have cap: "(2 :: nat) ^ k \<le> 2 ^ 6" using k by (intro power_increasing) auto
  have "unat (push_bit k 1 :: u64) = 2 ^ k"
    using k by (simp add: push_bit_1_pow unat_pow2)
  then have u: "unat iters = 2 ^ k + unat j"
    using iters j cap by (simp add: unat_add_no_wrap)
  show ?thesis
    using assms u j cap xorshift_nonzero [of "bo_rng bo"]
    by (auto simp: spin_def xorshift_next_def Let_def word_le_nat_alt SPIN_LIMIT_def YIELD_LIMIT_def
        unat_word_ariths simp flip: k_def split: if_splits)
qed

lemma snooze_step:
  assumes "unat (bo_step bo) \<le> 11"
  shows "unat (bo_step (snd (snd (snooze bo)))) = min 11 (unat (bo_step bo) + 1)"
  using assms
  by (auto simp: snooze_def spin_def Let_def word_le_nat_alt SPIN_LIMIT_def YIELD_LIMIT_def
      unat_word_ariths split: prod.splits)

text \<open>
  A waiter that snoozes reaches the completed state after exactly eleven calls, and stays there.
\<close>

lemma snooze_completes:
  "is_completed (((\<lambda>bo. snd (snd (snooze bo))) ^^ n) (backoff_new addr)) \<longleftrightarrow> 11 \<le> n"
proof -
  have "unat (bo_step (((\<lambda>bo. snd (snd (snooze bo))) ^^ n) (backoff_new addr))) = min 11 n"
    by (induction n) (simp_all add: backoff_new_def snooze_step)
  then show ?thesis by (auto simp: is_completed_def word_less_nat_alt YIELD_LIMIT_def)
qed

text \<open>
  The level generator returns a level in \<open>[1, max_level]\<close>, and level \<open>k + 1\<close> is reached exactly
  when the \<open>2k\<close> low bits of the generated word are all ones, that is with probability \<open>4^-k\<close>; the
  generator state stays nonzero.
\<close>

lemma random_geometric_level_spec:
  assumes "random_geometric_level rng max_level = (level, rng')" "1 \<le> max_level"
  shows "1 \<le> level \<and> level \<le> max_level \<and> (rng \<noteq> 0 \<longrightarrow> rng' \<noteq> 0) \<and>
    (\<forall>k. Suc k \<le> max_level \<longrightarrow>
      (Suc k \<le> level \<longleftrightarrow> (\<forall>i < 2 * k. bit (fst (xorshift_next rng)) i)))"
proof -
  have l: "level = level_loop (fst (xorshift_next rng)) max_level 1" and r: "rng' = xorshift rng"
    using assms(1) by (auto simp: random_geometric_level_def xorshift_next_def Let_def)
  show ?thesis
    using assms(2) level_loop_bounds [of 1 "fst (xorshift_next rng)" max_level]
      level_loop_ge [of 1 _ max_level "fst (xorshift_next rng)"] xorshift_nonzero [of rng]
    by (auto simp: l r)
qed

end
