(* ===== verification/SkipList.thy ===== *)
theory SkipList
  imports Interfaces Backoff "HOL-Library.List_Lexorder"
begin

text \<open>
  The skip list index, \<open>crates/zerokv/src/skiplist.rs\<close>: keys, tagged links, nodes, and every
  operation of \<open>SkipList\<close> on an explicit memory.  The memory maps addresses to nodes and to value
  cells; an access to an address that holds none is undefined behaviour.  What \<open>insert\<close> and
  \<open>remove\<close> hand to the guard is a list of retired objects, which stay in memory until
  \<open>drop_node\<close> or \<open>drop_value\<close> frees them.

  The global allocator is an argument: from the memory it returns the address of a new object, or
  0 when it fails.  Loops are \<open>partial_function\<close>s with result \<^typ>\<open>'a run\<close>, so that returning at
  all is part of every statement.  The operations are run by one thread at a time; the retry
  branches of the code are modelled, and shown not to be taken.
\<close>

section \<open>Keys\<close>

definition MAX_HEIGHT :: nat where
  "MAX_HEIGHT = 16"

definition INLINE_CAP :: nat where
  "INLINE_CAP = 22"

datatype key_repr = Inline u8 bytes | Boxed bytes

definition key_new :: "bytes \<Rightarrow> key_repr" where
  "key_new key =
     (if length key \<le> INLINE_CAP
      then Inline (of_nat (length key)) (write_at 0 key (replicate INLINE_CAP 0))
      else Boxed key)"

fun as_bytes :: "key_repr \<Rightarrow> bytes" where
  "as_bytes (Inline len buf) = take (unat len) buf"
| "as_bytes (Boxed b) = b"

datatype bound_key = NegInf | Fin key_repr | PosInf

text \<open>Byte slices compare lexicographically, which is the order of \<open>List_Lexorder\<close>.\<close>

fun key_lt :: "bound_key \<Rightarrow> bytes \<Rightarrow> bool" where
  "key_lt NegInf target = True"
| "key_lt PosInf target = False"
| "key_lt (Fin k) target = (as_bytes k < target)"

fun key_eq :: "bound_key \<Rightarrow> bytes \<Rightarrow> bool" where
  "key_eq (Fin k) target = (as_bytes k = target)"
| "key_eq NegInf target = False"
| "key_eq PosInf target = False"

section \<open>Tagged links\<close>

type_synonym addr = usize

definition pack :: "addr \<Rightarrow> bool \<Rightarrow> usize" where
  "pack ptr mark = ptr OR (if mark then 1 else 0)"

definition ptr_of :: "usize \<Rightarrow> addr" where
  "ptr_of v = v AND NOT 1"

definition mark_of :: "usize \<Rightarrow> bool" where
  "mark_of v \<longleftrightarrow> v AND 1 = 1"

section \<open>Nodes and memory\<close>

record node =
  nd_key :: bound_key
  nd_value :: addr
  nd_top :: nat
  nd_links :: "usize list"

text \<open>What \<open>insert\<close> and \<open>remove\<close> retire: a node (with its value cell), or a displaced value cell.\<close>

datatype retiree = RNode addr | RValue addr

text \<open>The first three fields are the struct, the others are the memory it owns.\<close>

record skiplist =
  sl_head :: addr
  sl_max_level :: nat
  sl_len :: usize
  sl_nodes :: "addr \<rightharpoonup> node"
  sl_vals :: "addr \<rightharpoonup> bytes"
  sl_retired :: "retiree list"

type_synonym alloc = "skiplist \<Rightarrow> addr"

text \<open>\<open>Box::new (ValueRecord ...)\<close>.\<close>

definition value_new :: "alloc \<Rightarrow> bytes \<Rightarrow> skiplist \<Rightarrow> (addr \<times> skiplist) res" where
  "value_new al val sl =
     (let a = al sl in
      if a = 0 then Inl Abort else Inr (a, sl\<lparr>sl_vals := (sl_vals sl)(a \<mapsto> val)\<rparr>))"

text \<open>\<open>Node::new\<close>: all links null.\<close>

definition node_new :: "alloc \<Rightarrow> bound_key \<Rightarrow> addr \<Rightarrow> nat \<Rightarrow> skiplist \<Rightarrow> (addr \<times> skiplist) res" where
  "node_new al key value top_level sl =
     (let a = al sl in
      if a = 0 then Inl Abort
      else Inr (a, sl\<lparr>sl_nodes := (sl_nodes sl)(a \<mapsto>
             \<lparr>nd_key = key, nd_value = value, nd_top = top_level,
              nd_links = replicate (top_level + 1) 0\<rparr>)\<rparr>))"

text \<open>Dereferencing a node pointer.\<close>

definition node_at :: "addr \<Rightarrow> skiplist \<Rightarrow> node res" where
  "node_at a sl = (case sl_nodes sl a of None \<Rightarrow> Inl UB | Some nd \<Rightarrow> Inr nd)"

text \<open>The word in link \<open>level\<close> of a node, and an update of it.\<close>

definition link :: "addr \<Rightarrow> nat \<Rightarrow> skiplist \<Rightarrow> usize res" where
  "link a level sl =
     try_bind (node_at a sl) (\<lambda>nd.
       if level < length (nd_links nd) then Inr (nd_links nd ! level) else Inl UB)"

definition set_link :: "addr \<Rightarrow> nat \<Rightarrow> usize \<Rightarrow> skiplist \<Rightarrow> skiplist" where
  "set_link a level w sl =
     (case sl_nodes sl a of None \<Rightarrow> sl
      | Some nd \<Rightarrow> sl\<lparr>sl_nodes := (sl_nodes sl)(a \<mapsto> nd\<lparr>nd_links := (nd_links nd)[level := w]\<rparr>)\<rparr>)"

text \<open>\<open>Link::store\<close>, \<open>Link::cas\<close> and \<open>Link::attempt_mark\<close> on link \<open>level\<close> of node \<open>a\<close>.\<close>

definition link_store :: "addr \<Rightarrow> nat \<Rightarrow> addr \<Rightarrow> bool \<Rightarrow> skiplist \<Rightarrow> skiplist res" where
  "link_store a level ptr mark sl =
     try_bind (link a level sl) (\<lambda>_. Inr (set_link a level (pack ptr mark) sl))"

definition link_cas ::
    "addr \<Rightarrow> nat \<Rightarrow> addr \<Rightarrow> addr \<Rightarrow> bool \<Rightarrow> bool \<Rightarrow> skiplist \<Rightarrow> (bool \<times> skiplist) res" where
  "link_cas a level exp_ref new_ref exp_mark new_mark sl =
     try_bind (link a level sl) (\<lambda>w.
       if w = pack exp_ref exp_mark then Inr (True, set_link a level (pack new_ref new_mark) sl)
       else Inr (False, sl))"

definition attempt_mark :: "addr \<Rightarrow> nat \<Rightarrow> addr \<Rightarrow> bool \<Rightarrow> skiplist \<Rightarrow> (bool \<times> skiplist) res" where
  "attempt_mark a level exp_ref mark sl = link_cas a level exp_ref exp_ref False mark sl"

text \<open>\<open>free_node\<close>, and the drop glue \<open>drop_node\<close> and \<open>drop_value\<close> run by the collector.\<close>

definition free_value :: "addr \<Rightarrow> skiplist \<Rightarrow> skiplist res" where
  "free_value a sl =
     (if sl_vals sl a = None then Inl UB else Inr (sl\<lparr>sl_vals := (sl_vals sl)(a := None)\<rparr>))"

definition free_node :: "addr \<Rightarrow> skiplist \<Rightarrow> skiplist res" where
  "free_node a sl =
     try_bind (node_at a sl) (\<lambda>nd.
     try_bind (if nd_value nd = 0 then Inr sl else free_value (nd_value nd) sl) (\<lambda>sl'.
       Inr (sl'\<lparr>sl_nodes := (sl_nodes sl')(a := None)\<rparr>)))"

fun drop_retired :: "retiree \<Rightarrow> skiplist \<Rightarrow> skiplist res" where
  "drop_retired (RNode a) sl = free_node a sl"
| "drop_retired (RValue a) sl = free_value a sl"

definition guard_retire :: "retiree \<Rightarrow> skiplist \<Rightarrow> skiplist" where
  "guard_retire r sl = sl\<lparr>sl_retired := sl_retired sl @ [r]\<rparr>"

section \<open>Construction\<close>

fun wire_head :: "addr \<Rightarrow> addr \<Rightarrow> nat list \<Rightarrow> skiplist \<Rightarrow> skiplist res" where
  "wire_head head tail [] sl = Inr sl"
| "wire_head head tail (l # ls) sl =
     try_bind (link_store head l tail False sl) (wire_head head tail ls)"

definition with_max_level :: "alloc \<Rightarrow> nat \<Rightarrow> skiplist res" where
  "with_max_level al max_level =
     (let sl = \<lparr>sl_head = 0, sl_max_level = max_level, sl_len = 0, sl_nodes = Map.empty,
                sl_vals = Map.empty, sl_retired = []\<rparr>
      in try_bind (node_new al NegInf 0 (MAX_HEIGHT - 1) sl) (\<lambda>(head, sl).
         try_bind (node_new al PosInf 0 (MAX_HEIGHT - 1) sl) (\<lambda>(tail, sl).
         try_bind (wire_head head tail [0..<MAX_HEIGHT] sl) (\<lambda>sl. Inr (sl\<lparr>sl_head := head\<rparr>)))))"

text \<open>
  \<open>with_capacity_hint\<close>: \<open>ceil_log4\<close> stands for the floating-point expression
  \<open>(n.ln() / 4f64.ln()).ceil() as usize\<close>.
\<close>

definition with_capacity_hint :: "(usize \<Rightarrow> nat) \<Rightarrow> alloc \<Rightarrow> usize \<Rightarrow> skiplist res" where
  "with_capacity_hint ceil_log4 al expected_items =
     with_max_level al (max 1 (min MAX_HEIGHT (ceil_log4 (max expected_items 2))) - 1)"

definition random_level :: "u64 \<Rightarrow> skiplist \<Rightarrow> nat \<times> u64" where
  "random_level rng sl =
     (case random_geometric_level rng (sl_max_level sl + 1) of (l, rng') \<Rightarrow> (l - 1, rng'))"

section \<open>Search\<close>

text \<open>A walk restarts from the head when a compare-and-swap fails.\<close>

datatype 'a walk = Retry | At 'a

text \<open>
  The loop \<open>while marked\<close> of \<open>find\<close> behind the load of the link of \<open>cur\<close>: marked nodes are spliced
  out of the link of \<open>pred\<close>.  The result is the first unmarked node and its successor.
\<close>

partial_function (option) splice_marked ::
    "nat \<Rightarrow> addr \<Rightarrow> addr \<Rightarrow> skiplist \<Rightarrow> ((addr \<times> addr) walk \<times> skiplist) run" where
  "splice_marked level pred cur sl =
     step_bind (link cur level sl) (\<lambda>v.
       if mark_of v then
         step_bind (link_cas pred level cur (ptr_of v) False False sl) (\<lambda>(ok, sl').
           if ok then splice_marked level pred (ptr_of v) sl' else Some (Inr (Retry, sl')))
       else Some (Inr (At (cur, ptr_of v), sl)))"

text \<open>The walk along one level: the last node below \<open>key\<close> and its successor.\<close>

partial_function (option) walk_level ::
    "bytes \<Rightarrow> nat \<Rightarrow> addr \<Rightarrow> addr \<Rightarrow> skiplist \<Rightarrow> ((addr \<times> addr) walk \<times> skiplist) run" where
  "walk_level key level pred cur sl =
     run_bind (splice_marked level pred cur sl) (\<lambda>(w, sl').
       case w of
         Retry \<Rightarrow> Some (Inr (Retry, sl'))
       | At cs \<Rightarrow>
           step_bind (node_at (fst cs) sl') (\<lambda>nd.
             if key_lt (nd_key nd) key then walk_level key level (fst cs) (snd cs) sl'
             else Some (Inr (At (pred, fst cs), sl'))))"

text \<open>
  The levels from \<open>n - 1\<close> down to 0.  The prefetch of the next level only reads the link that the
  walk of that level loads first.
\<close>

fun find_levels ::
    "bytes \<Rightarrow> nat \<Rightarrow> addr \<Rightarrow> addr list \<Rightarrow> addr list \<Rightarrow> skiplist \<Rightarrow>
       ((addr list \<times> addr list) walk \<times> skiplist) run" where
  "find_levels key 0 pred preds succs sl = Some (Inr (At (preds, succs), sl))"
| "find_levels key (Suc level) pred preds succs sl =
     step_bind (link pred level sl) (\<lambda>v.
     run_bind (walk_level key level pred (ptr_of v) sl) (\<lambda>(w, sl').
       case w of
         Retry \<Rightarrow> Some (Inr (Retry, sl'))
       | At pc \<Rightarrow> find_levels key level (fst pc) (preds[level := fst pc]) (succs[level := snd pc]) sl'))"

text \<open>\<open>find\<close>: whether the key is present, \<open>preds\<close> and \<open>succs\<close>.\<close>

partial_function (option) find_key ::
    "bytes \<Rightarrow> addr list \<Rightarrow> addr list \<Rightarrow> skiplist \<Rightarrow>
       (bool \<times> addr list \<times> addr list \<times> skiplist) run" where
  "find_key key preds succs sl =
     run_bind (find_levels key (Suc (sl_max_level sl)) (sl_head sl) preds succs sl) (\<lambda>(w, sl').
       case w of
         Retry \<Rightarrow> find_key key preds succs sl'
       | At ps \<Rightarrow>
           step_bind (node_at (snd ps ! 0) sl') (\<lambda>nd.
             Some (Inr (key_eq (nd_key nd) key, fst ps, snd ps, sl'))))"

abbreviation null_array :: "addr list" where
  "null_array \<equiv> replicate MAX_HEIGHT 0"

section \<open>Insertion\<close>

fun store_tower :: "addr \<Rightarrow> addr list \<Rightarrow> nat list \<Rightarrow> skiplist \<Rightarrow> skiplist res" where
  "store_tower node succs [] sl = Inr sl"
| "store_tower node succs (l # ls) sl =
     try_bind (link_store node l (succs ! l) False sl) (store_tower node succs ls)"

text \<open>The loop that links one upper level, searching again after a failed compare-and-swap.\<close>

partial_function (option) link_level ::
    "bytes \<Rightarrow> addr \<Rightarrow> nat \<Rightarrow> addr list \<Rightarrow> addr list \<Rightarrow> skiplist \<Rightarrow>
       (addr list \<times> addr list \<times> skiplist) run" where
  "link_level key node level preds succs sl =
     step_bind (link_store node level (succs ! level) False sl) (\<lambda>sl.
     step_bind (link_cas (preds ! level) level (succs ! level) node False False sl) (\<lambda>(ok, sl).
       if ok then Some (Inr (preds, succs, sl))
       else run_bind (find_key key preds succs sl) (\<lambda>(_, preds, succs, sl).
              link_level key node level preds succs sl)))"

fun link_upper ::
    "bytes \<Rightarrow> addr \<Rightarrow> nat list \<Rightarrow> addr list \<Rightarrow> addr list \<Rightarrow> skiplist \<Rightarrow> skiplist run" where
  "link_upper key node [] preds succs sl = Some (Inr sl)"
| "link_upper key node (l # ls) preds succs sl =
     run_bind (link_level key node l preds succs sl) (\<lambda>(preds, succs, sl).
       link_upper key node ls preds succs sl)"

text \<open>The update path: the value cell is swapped and the old one retired.\<close>

definition swap_value :: "addr \<Rightarrow> addr \<Rightarrow> skiplist \<Rightarrow> skiplist res" where
  "swap_value node newv sl =
     try_bind (node_at node sl) (\<lambda>nd.
       let sl' = sl\<lparr>sl_nodes := (sl_nodes sl)(node \<mapsto> nd\<lparr>nd_value := newv\<rparr>)\<rparr> in
       Inr (if nd_value nd = 0 then sl' else guard_retire (RValue (nd_value nd)) sl'))"

partial_function (option) insert_loop ::
    "alloc \<Rightarrow> bytes \<Rightarrow> bytes \<Rightarrow> nat \<Rightarrow> addr list \<Rightarrow> addr list \<Rightarrow> skiplist \<Rightarrow>
       (bool \<times> skiplist) run" where
  "insert_loop al key val top_level preds succs sl =
     run_bind (find_key key preds succs sl) (\<lambda>(found, preds, succs, sl).
     step_bind (value_new al val sl) (\<lambda>(valrec, sl).
       if found then step_bind (swap_value (succs ! 0) valrec sl) (\<lambda>sl. Some (Inr (False, sl)))
       else
         step_bind (node_new al (Fin (key_new key)) valrec top_level sl) (\<lambda>(node, sl).
         step_bind (store_tower node succs [0..<Suc top_level] sl) (\<lambda>sl.
         step_bind (link_cas (preds ! 0) 0 (succs ! 0) node False False sl) (\<lambda>(ok, sl).
           if ok then
             run_bind (link_upper key node [1..<Suc top_level] preds succs sl) (\<lambda>sl.
               Some (Inr (True, sl\<lparr>sl_len := sl_len sl + 1\<rparr>)))
           else
             step_bind (free_node node sl) (\<lambda>sl.
               insert_loop al key val top_level preds succs sl))))))"

definition sl_insert ::
    "alloc \<Rightarrow> u64 \<Rightarrow> bytes \<Rightarrow> bytes \<Rightarrow> skiplist \<Rightarrow> (bool \<times> u64 \<times> skiplist) run" where
  "sl_insert al rng key val sl =
     (case random_level rng sl of (top_level, rng') \<Rightarrow>
        run_bind (insert_loop al key val top_level null_array null_array sl) (\<lambda>(new, sl').
          Some (Inr (new, rng', sl'))))"

section \<open>Lookup\<close>

text \<open>As in \<open>find\<close>, but marked nodes are only passed over.\<close>

partial_function (option) skip_marked :: "nat \<Rightarrow> addr \<Rightarrow> skiplist \<Rightarrow> (addr \<times> addr) run" where
  "skip_marked level cur sl =
     step_bind (link cur level sl) (\<lambda>v.
       if mark_of v then skip_marked level (ptr_of v) sl else Some (Inr (cur, ptr_of v)))"

partial_function (option) get_level ::
    "bytes \<Rightarrow> nat \<Rightarrow> addr \<Rightarrow> addr \<Rightarrow> skiplist \<Rightarrow> (addr \<times> addr) run" where
  "get_level key level pred cur sl =
     run_bind (skip_marked level cur sl) (\<lambda>cs.
     step_bind (node_at (fst cs) sl) (\<lambda>nd.
       if key_lt (nd_key nd) key then get_level key level (fst cs) (snd cs) sl
       else Some (Inr (pred, fst cs))))"

definition read_value :: "bytes \<Rightarrow> addr \<Rightarrow> skiplist \<Rightarrow> bytes option res" where
  "read_value key cur sl =
     try_bind (node_at cur sl) (\<lambda>nd.
       if key_eq (nd_key nd) key then
         try_bind (link cur 0 sl) (\<lambda>v.
           if mark_of v then Inr None
           else if nd_value nd = 0 then Inr None
           else (case sl_vals sl (nd_value nd) of None \<Rightarrow> Inl UB | Some b \<Rightarrow> Inr (Some b)))
       else Inr None)"

fun get_levels :: "bytes \<Rightarrow> nat \<Rightarrow> addr \<Rightarrow> skiplist \<Rightarrow> bytes option run" where
  "get_levels key 0 pred sl = Some (Inr None)"
| "get_levels key (Suc level) pred sl =
     step_bind (link pred level sl) (\<lambda>v.
     run_bind (get_level key level pred (ptr_of v) sl) (\<lambda>(pred, cur).
       if level = 0 then step_bind (read_value key cur sl) (\<lambda>r. Some (Inr r))
       else get_levels key level pred sl))"

definition sl_get :: "bytes \<Rightarrow> skiplist \<Rightarrow> bytes option run" where
  "sl_get key sl = get_levels key (Suc (sl_max_level sl)) (sl_head sl) sl"

section \<open>Removal\<close>

text \<open>The loop \<open>while !marked\<close> on one upper level.\<close>

partial_function (option) mark_level :: "addr \<Rightarrow> nat \<Rightarrow> skiplist \<Rightarrow> skiplist run" where
  "mark_level node level sl =
     step_bind (link node level sl) (\<lambda>v.
       if mark_of v then Some (Inr sl)
       else step_bind (attempt_mark node level (ptr_of v) True sl) (\<lambda>(_, sl).
              mark_level node level sl))"

fun mark_upper :: "addr \<Rightarrow> nat list \<Rightarrow> skiplist \<Rightarrow> skiplist run" where
  "mark_upper node [] sl = Some (Inr sl)"
| "mark_upper node (l # ls) sl = run_bind (mark_level node l sl) (mark_upper node ls)"

text \<open>The bottom level: whether this call set the mark, with the loop of the code.\<close>

partial_function (option) mark_bottom :: "addr \<Rightarrow> addr \<Rightarrow> skiplist \<Rightarrow> (bool \<times> skiplist) run" where
  "mark_bottom node succ sl =
     step_bind (link_cas node 0 succ succ False True sl) (\<lambda>(i_marked, sl).
     step_bind (link node 0 sl) (\<lambda>g.
       if i_marked then Some (Inr (True, sl))
       else if mark_of g then Some (Inr (False, sl))
       else mark_bottom node (ptr_of g) sl))"

definition sl_remove :: "bytes \<Rightarrow> skiplist \<Rightarrow> (bool \<times> skiplist) run" where
  "sl_remove key sl =
     run_bind (find_key key null_array null_array sl) (\<lambda>(found, preds, succs, sl).
       if \<not> found then Some (Inr (False, sl))
       else let node = succs ! 0 in
         step_bind (node_at node sl) (\<lambda>nd.
         run_bind (mark_upper node (rev [1..<Suc (nd_top nd)]) sl) (\<lambda>sl.
         step_bind (link node 0 sl) (\<lambda>v.
         run_bind (mark_bottom node (ptr_of v) sl) (\<lambda>(won, sl).
           if \<not> won then Some (Inr (False, sl))
           else
             run_bind (find_key key preds succs sl) (\<lambda>(_, _, _, sl).
               Some (Inr (True, guard_retire (RNode node) (sl\<lparr>sl_len := sl_len sl - 1\<rparr>)))))))))"

section \<open>Length and teardown\<close>

definition len :: "skiplist \<Rightarrow> usize" where
  "len sl = sl_len sl"

definition is_empty :: "skiplist \<Rightarrow> bool" where
  "is_empty sl \<longleftrightarrow> len sl = 0"

text \<open>\<open>Drop for SkipList\<close>: the walk along level 0 that frees every node.\<close>

partial_function (option) drop_from :: "addr \<Rightarrow> skiplist \<Rightarrow> skiplist run" where
  "drop_from cur sl =
     (if cur = 0 then Some (Inr sl)
      else
        step_bind (link cur 0 sl) (\<lambda>v.
        step_bind (free_node cur sl) (\<lambda>sl. drop_from (ptr_of v) sl)))"

definition drop_skiplist :: "skiplist \<Rightarrow> skiplist run" where
  "drop_skiplist sl = drop_from (sl_head sl) sl"

end
