(* ===== verification/SkipListSearch.thy ===== *)
theory SkipListSearch
  imports SkipList
begin

text \<open>
  The shape of a skip list in memory and what a search does to it: the tagged-link arithmetic, the
  level chains, and the outcome of \<open>find\<close> for any set of marked nodes that carry the searched key.
\<close>

section \<open>Keys and links\<close>

lemma as_bytes_key_new [simp]: "as_bytes (key_new key) = key"
  by (auto simp: key_new_def write_at_def INLINE_CAP_def unat_of_nat)

definition aligned :: "addr \<Rightarrow> bool" where
  "aligned a \<longleftrightarrow> a AND 1 = 0"

lemma aligned_bit: "aligned a \<longleftrightarrow> \<not> bit a 0"
  by (simp add: aligned_def and_one_eq bit_0 even_iff_mod_2_eq_zero)

lemma ptr_of_pack [simp]: "aligned a \<Longrightarrow> ptr_of (pack a m) = a"
  by (intro bit_eqI) (auto simp: ptr_of_def pack_def aligned_bit bit_simps intro: gr0I)

lemma mark_of_bit: "mark_of v \<longleftrightarrow> bit v 0"
  by (simp add: mark_of_def and_one_eq bit_0 odd_iff_mod_2_eq_one)

lemma mark_of_pack [simp]: "aligned a \<Longrightarrow> mark_of (pack a m) = m"
  by (auto simp: mark_of_bit pack_def aligned_bit bit_simps)

lemma pack_eq_iff [simp]:
  assumes "aligned a" "aligned b"
  shows "pack a m = pack b n \<longleftrightarrow> a = b \<and> m = n"
proof
  assume "pack a m = pack b n"
  then have "ptr_of (pack a m) = ptr_of (pack b n)" "mark_of (pack a m) = mark_of (pack b n)" by metis+
  then show "a = b \<and> m = n" using assms by simp
qed simp

lemma pack_False [simp]: "pack a False = a"
  by (simp add: pack_def)

lemma aligned_word [simp]: "aligned a \<Longrightarrow> ptr_of a = a" "aligned a \<Longrightarrow> \<not> mark_of a"
  using ptr_of_pack [of a False] mark_of_pack [of a False] by simp_all

lemma null_word [simp]: "ptr_of 0 = 0" "\<not> mark_of 0"
  by (simp_all add: ptr_of_def mark_of_def)

section \<open>Node headers\<close>

text \<open>Everything of a skip list except the words in its links.\<close>

definition hdr :: "skiplist \<Rightarrow> addr \<Rightarrow> (bound_key \<times> addr \<times> nat \<times> nat) option" where
  "hdr sl a = map_option (\<lambda>nd. (nd_key nd, nd_value nd, nd_top nd, length (nd_links nd))) (sl_nodes sl a)"

definition data :: "skiplist \<Rightarrow>
    addr \<times> nat \<times> usize \<times> (addr \<Rightarrow> (bound_key \<times> addr \<times> nat \<times> nat) option) \<times>
    (addr \<rightharpoonup> bytes) \<times> retiree list" where
  "data sl = (sl_head sl, sl_max_level sl, sl_len sl, hdr sl, sl_vals sl, sl_retired sl)"

lemma data_eqD:
  assumes "data sl' = data sl"
  shows "sl_head sl' = sl_head sl" "sl_max_level sl' = sl_max_level sl" "sl_len sl' = sl_len sl"
    "hdr sl' = hdr sl" "sl_vals sl' = sl_vals sl" "sl_retired sl' = sl_retired sl"
  using assms by (auto simp: data_def)

lemma hdr_Some_iff:
  "hdr sl a = Some (k, v, tp, n) \<longleftrightarrow>
     (\<exists>nd. sl_nodes sl a = Some nd \<and> nd_key nd = k \<and> nd_value nd = v \<and> nd_top nd = tp \<and>
        length (nd_links nd) = n)"
  by (auto simp: hdr_def)

lemma hdr_node_at:
  assumes "hdr sl a = Some (k, v, tp, n)"
  obtains nd where "node_at a sl = Inr nd" "sl_nodes sl a = Some nd" "nd_key nd = k"
    "nd_value nd = v" "nd_top nd = tp" "length (nd_links nd) = n"
  using assms by (auto simp: hdr_Some_iff node_at_def)

lemma link_Inr_hdr: "link a l sl = Inr w \<Longrightarrow> \<exists>k v tp n. hdr sl a = Some (k, v, tp, n) \<and> l < n"
  by (auto simp: link_def node_at_def hdr_def split: option.splits if_splits)

lemma hdr_link: "hdr sl a = Some (k, v, tp, n) \<Longrightarrow> l < n \<Longrightarrow> \<exists>w. link a l sl = Inr w"
  by (auto simp: hdr_Some_iff link_def node_at_def)

lemma hdr_set_link [simp]: "hdr (set_link a l w sl) = hdr sl"
  by (auto simp: hdr_def set_link_def split: option.splits)

lemma data_set_link [simp]: "data (set_link a l w sl) = data sl"
  by (simp add: data_def) (simp add: set_link_def split: option.splits)

lemma set_link_fields [simp]:
  "sl_head (set_link a l w sl) = sl_head sl" "sl_max_level (set_link a l w sl) = sl_max_level sl"
  "sl_vals (set_link a l w sl) = sl_vals sl"
  using data_eqD [OF data_set_link] by auto

lemma link_set_link:
  "link b m (set_link a l w sl) =
     (if a = b \<and> l = m then try_bind (link b m sl) (\<lambda>_. Inr w) else link b m sl)"
  by (auto simp: link_def set_link_def node_at_def split: option.splits)

definition kb :: "skiplist \<Rightarrow> addr \<Rightarrow> bytes" where
  "kb sl a = (case hdr sl a of Some (Fin k, _) \<Rightarrow> as_bytes k | _ \<Rightarrow> [])"

definition top_of :: "skiplist \<Rightarrow> addr \<Rightarrow> nat" where
  "top_of sl a = (case hdr sl a of Some (_, _, tp, _) \<Rightarrow> tp | None \<Rightarrow> 0)"

definition vptr :: "skiplist \<Rightarrow> addr \<Rightarrow> addr" where
  "vptr sl a = (case hdr sl a of Some (_, v, _) \<Rightarrow> v | None \<Rightarrow> 0)"

section \<open>Level chains\<close>

text \<open>The nodes \<open>ys\<close> lead from \<open>a\<close> to \<open>b\<close> on a level; exactly the nodes of \<open>D\<close> are marked.\<close>

fun lpath :: "skiplist \<Rightarrow> nat \<Rightarrow> addr set \<Rightarrow> addr \<Rightarrow> addr list \<Rightarrow> addr \<Rightarrow> bool" where
  "lpath sl l D a [] b \<longleftrightarrow> link a l sl = Inr (pack b (a \<in> D))"
| "lpath sl l D a (y # ys) b \<longleftrightarrow> link a l sl = Inr (pack y (a \<in> D)) \<and> lpath sl l D y ys b"

lemma lpath_append: "lpath sl l D a (ys @ y # zs) b \<longleftrightarrow> lpath sl l D a ys y \<and> lpath sl l D y zs b"
  by (induction ys arbitrary: a) auto

lemma lpath_first: "lpath sl l D a ys b \<Longrightarrow> link a l sl = Inr (pack (hd (ys @ [b])) (a \<in> D))"
  by (cases ys) auto

lemma lpath_link:
  "lpath sl l D a ys b \<Longrightarrow> x \<in> set (a # ys) \<Longrightarrow> \<exists>y \<in> set (ys @ [b]). link x l sl = Inr (pack y (x \<in> D))"
  by (induction ys arbitrary: a) auto

lemma lpath_cong:
  assumes "\<And>x. x \<in> set (a # ys) \<Longrightarrow> link x l sl' = link x l sl \<and> (x \<in> D' \<longleftrightarrow> x \<in> D)"
  shows "lpath sl' l D' a ys b \<longleftrightarrow> lpath sl l D a ys b"
  using assms by (induction ys arbitrary: a) auto

lemma lpath_suffix:
  assumes "lpath sl l D a (ys @ zs) b" "a # ys = us @ p # vs"
  shows "lpath sl l D p (vs @ zs) b"
proof (cases us)
  case Nil
  then show ?thesis using assms by simp
next
  case (Cons u us')
  then have "ys = us' @ p # vs" using assms(2) by simp
  then show ?thesis using assms(1) by (simp add: lpath_append)
qed

text \<open>Redirecting the last link of a chain.\<close>

lemma lpath_redirect:
  assumes "lpath sl l D a us b" "distinct (a # us)" "last (a # us) \<notin> D"
  shows "lpath (set_link (last (a # us)) l (pack c False) sl) l D a us c"
  using assms
proof (induction us arbitrary: a)
  case Nil
  then show ?case by (simp add: link_set_link)
next
  case (Cons u us)
  have ne: "last (u # us) \<noteq> a" using Cons.prems(2) by (metis distinct.simps(2) last_in_set list.discI)
  then show ?case using Cons by (auto simp: link_set_link)
qed

lemma lpath_set_link_notin: "p \<notin> set (a # ys) \<Longrightarrow> lpath (set_link p l w sl) l D a ys b = lpath sl l D a ys b"
  by (intro lpath_cong) (auto simp: link_set_link)

text \<open>Taking the node \<open>n\<close> out of a chain, and putting it in.\<close>

lemma lpath_bypass:
  assumes "lpath sl l D h (us @ n # ws) t" "distinct (h # us @ n # ws @ [t])" "last (h # us) \<notin> D"
  shows "lpath (set_link (last (h # us)) l (hd (ws @ [t])) sl) l D h (us @ ws) t"
proof -
  have parts: "lpath sl l D h us n" "lpath sl l D n ws t" using assms(1) by (simp_all add: lpath_append)
  have "last (h # us) \<in> set (h # us)" by (intro last_in_set) simp
  then have ni: "last (h # us) \<notin> set ws" using assms(2) by auto
  show ?thesis
  proof (cases ws)
    case Nil
    then show ?thesis using lpath_redirect [OF parts(1) _ assms(3), of t] assms(2) by simp
  next
    case (Cons c cs)
    then show ?thesis
      using lpath_redirect [OF parts(1) _ assms(3), of c] assms(2) parts(2) ni
      by (simp add: lpath_append lpath_set_link_notin del: last.simps)
  qed
qed

lemma lpath_insert:
  assumes "lpath sl l D h (us @ ws) t" "distinct (h # us @ n # ws @ [t])" "last (h # us) \<notin> D" "n \<notin> D"
    and "link n l sl = Inr (hd (ws @ [t]))"
  shows "lpath (set_link (last (h # us)) l n sl) l D h (us @ n # ws) t"
proof -
  have "last (h # us) \<in> set (h # us)" by (intro last_in_set) simp
  then have ni: "last (h # us) \<notin> set (n # ws)" using assms(2) by auto
  have "lpath sl l D h us (hd (ws @ [t])) \<and> lpath sl l D n ws t"
    using assms(1,4,5) by (cases ws) (auto simp: lpath_append)
  then show ?thesis
    using lpath_redirect [of sl l D h us "hd (ws @ [t])" n] assms(2,3) ni
    by (simp add: lpath_append lpath_set_link_notin del: last.simps)
qed

section \<open>One level of a search\<close>

definition below :: "skiplist \<Rightarrow> bytes \<Rightarrow> addr \<Rightarrow> bool" where
  "below sl key a \<longleftrightarrow> (case hdr sl a of Some (k, _) \<Rightarrow> key_lt k key | None \<Rightarrow> False)"

lemma below_node_at: "node_at a sl = Inr nd \<Longrightarrow> below sl key a = key_lt (nd_key nd) key"
  by (auto simp: below_def node_at_def hdr_def split: option.splits)

lemma splice_unmarked:
  "link c l sl = Inr w \<Longrightarrow> \<not> mark_of w \<Longrightarrow> splice_marked l p c sl = Some (Inr (At (c, ptr_of w), sl))"
  by (subst splice_marked.simps) simp

lemma splice_one:
  assumes "link c l sl = Inr (pack d True)" "link p l sl = Inr (pack c False)" "p \<noteq> d" "aligned d"
    and "link d l sl = Inr w" "\<not> mark_of w"
  shows "splice_marked l p c sl = Some (Inr (At (d, ptr_of w), set_link p l (pack d False) sl))"
  using assms by (subst splice_marked.simps)
    (simp add: link_cas_def splice_unmarked [where w = w] link_set_link)

lemma walk_stop:
  assumes "splice_marked l p c sl = Some (Inr (At (d, e), sl'))" "hdr sl' d \<noteq> None" "\<not> below sl' key d"
  shows "walk_level key l p c sl = Some (Inr (At (p, d), sl'))"
proof -
  obtain nd where "node_at d sl' = Inr nd" using assms(2) by (auto simp: node_at_def hdr_def)
  then show ?thesis using assms by (subst walk_level.simps) (simp add: below_node_at)
qed

lemma walk_advance:
  assumes "splice_marked l p c sl = Some (Inr (At (d, e), sl'))" "below sl' key d"
  shows "walk_level key l p c sl = walk_level key l d e sl'"
proof -
  obtain nd where "node_at d sl' = Inr nd"
    using assms(2) by (auto simp: below_def node_at_def hdr_def split: option.splits)
  then show ?thesis using assms by (subst walk_level.simps) (simp add: below_node_at)
qed

text \<open>
  \<open>vs\<close> are the nodes below the key ahead of \<open>p\<close>, \<open>bs\<close> the others; only the first of \<open>bs\<close> may be
  marked, and is then spliced out.
\<close>

lemma walk_level_spec:
  assumes "lpath sl l D p (vs @ bs) t" "distinct (p # vs @ bs @ [t])" "\<forall>a \<in> set (vs @ bs @ [t]). aligned a"
    and "\<forall>a \<in> set vs. below sl key a" "\<forall>a \<in> set (bs @ [t]). hdr sl a \<noteq> None \<and> \<not> below sl key a"
    and "link t l sl = Inr 0" "insert p (set vs) \<inter> D = {}" "set (tl bs) \<inter> D = {}"
  shows "walk_level key l p (hd (vs @ bs @ [t])) sl =
    Some (Inr (At (last (p # vs), hd (filter (\<lambda>a. a \<notin> D) bs @ [t])),
      if set bs \<inter> D = {} then sl
      else set_link (last (p # vs)) l (hd (filter (\<lambda>a. a \<notin> D) bs @ [t])) sl))"
  using assms
proof (induction vs arbitrary: p)
  case Nil
  show ?case
  proof (cases bs)
    case Nil
    then show ?thesis using Nil.prems walk_stop [OF splice_unmarked] by simp
  next
    case (Cons b cs)
    show ?thesis
    proof (cases "b \<in> D")
      case False
      then have "link b l sl = Inr (pack (hd (cs @ [t])) False)" "aligned (hd (cs @ [t]))"
        using Nil.prems(1,3) Cons lpath_first [of sl l D b cs t] by (auto simp: hd_append)
      then have "splice_marked l p b sl = Some (Inr (At (b, hd (cs @ [t])), sl))"
        using splice_unmarked by simp
      then show ?thesis using Nil.prems(5,8) Cons False walk_stop [of l p b sl b] by (auto simp: filter_id_conv)
    next
      case True
      define c where "c = hd (cs @ [t])"
      have bs: "bs = b # cs" "b \<in> D" "set cs \<inter> D = {}" "c \<in> set (cs @ [t])" "filter (\<lambda>a. a \<notin> D) cs = cs"
        using Cons True Nil.prems(8) by (auto simp: c_def hd_append filter_id_conv)
      have path: "lpath sl l D b cs t" and p: "link p l sl = Inr (pack b False)"
        using Nil.prems(1,7) bs(1) by simp_all
      have "\<exists>w. link c l sl = Inr w \<and> \<not> mark_of w"
      proof (cases cs)
        case (Cons d ds)
        then show ?thesis using path bs(3) Nil.prems(3) lpath_first [of sl l D d ds t]
          by (auto simp: c_def bs(1) hd_append)
      qed (use Nil.prems(6) in \<open>simp add: c_def\<close>)
      then obtain w where w: "link c l sl = Inr w" "\<not> mark_of w" by blast
      have "p \<noteq> c" "aligned c" "hdr sl c \<noteq> None" "\<not> below sl key c"
        using Nil.prems(2,3,5) bs by auto
      then have "splice_marked l p b sl = Some (Inr (At (c, ptr_of w), set_link p l (pack c False) sl))"
        using splice_one [OF _ p, of c w] lpath_first [OF path] bs(2) w by (simp add: c_def)
      then have "walk_level key l p b sl = Some (Inr (At (p, c), set_link p l (pack c False) sl))"
        using \<open>hdr sl c \<noteq> None\<close> \<open>\<not> below sl key c\<close> by (intro walk_stop) (auto simp: below_def)
      then show ?thesis using bs by (simp add: c_def)
    qed
  qed
next
  case (Cons a vs)
  then have a: "link a l sl = Inr (pack (hd (vs @ bs @ [t])) False)" "aligned (hd (vs @ bs @ [t]))"
    using lpath_first [of sl l D a "vs @ bs" t] by (auto simp: hd_append)
  have "splice_marked l p a sl = Some (Inr (At (a, hd (vs @ bs @ [t])), sl))"
    using splice_unmarked [OF a(1)] a(2) by simp
  then have "walk_level key l p a sl = walk_level key l a (hd (vs @ bs @ [t])) sl"
    using Cons.prems(4) by (intro walk_advance) auto
  then show ?case using Cons by simp
qed

section \<open>The skeleton\<close>

text \<open>The sentinels: all links of the tail are null.\<close>

definition sentinels :: "skiplist \<Rightarrow> addr \<Rightarrow> bool" where
  "sentinels sl t \<longleftrightarrow>
     hdr sl (sl_head sl) = Some (NegInf, 0, MAX_HEIGHT - 1, MAX_HEIGHT) \<and>
     hdr sl t = Some (PosInf, 0, MAX_HEIGHT - 1, MAX_HEIGHT) \<and>
     aligned (sl_head sl) \<and> aligned t \<and> sl_head sl \<noteq> 0 \<and> t \<noteq> 0 \<and> sl_max_level sl < MAX_HEIGHT \<and>
     (\<forall>l < MAX_HEIGHT. link t l sl = Inr 0)"

definition node_ok :: "skiplist \<Rightarrow> addr \<Rightarrow> bool" where
  "node_ok sl a \<longleftrightarrow> aligned a \<and> a \<noteq> 0 \<and>
     (\<exists>k v tp. hdr sl a = Some (Fin k, v, tp, Suc tp) \<and> v \<noteq> 0 \<and> sl_vals sl v \<noteq> None \<and> tp \<le> sl_max_level sl)"

text \<open>
  The nodes \<open>xs\<close>, ascending by key, each linked in its lowest \<open>L a\<close> levels; the nodes of \<open>D\<close> are
  marked.  Between operations every node is linked in all its levels and nothing is marked; inside
  \<open>insert\<close> and \<open>remove\<close> one node is linked in only some of them.
\<close>

definition skel :: "skiplist \<Rightarrow> addr \<Rightarrow> addr list \<Rightarrow> (addr \<Rightarrow> nat) \<Rightarrow> addr set \<Rightarrow> bool" where
  "skel sl t xs L D \<longleftrightarrow> sentinels sl t \<and>
     (\<forall>a \<in> set xs. node_ok sl a \<and> L a \<le> Suc (top_of sl a)) \<and>
     sorted_wrt (\<lambda>a b. kb sl a < kb sl b) xs \<and> D \<subseteq> set xs \<and>
     (\<forall>l < MAX_HEIGHT. lpath sl l D (sl_head sl) (filter (\<lambda>a. l < L a) xs) t)"

lemma node_okD:
  assumes "node_ok sl a"
  shows "aligned a" "a \<noteq> 0" "hdr sl a \<noteq> None" "\<exists>k. map_option fst (hdr sl a) = Some (Fin k)"
    "below sl key a \<longleftrightarrow> kb sl a < key" "top_of sl a \<le> sl_max_level sl"
  using assms by (auto simp: node_ok_def below_def kb_def top_of_def)

lemma sentinelsD:
  assumes "sentinels sl t"
  shows "aligned (sl_head sl)" "aligned t" "hdr sl t \<noteq> None" "\<not> below sl key t" "below sl key (sl_head sl)"
    "l < MAX_HEIGHT \<Longrightarrow> link t l sl = Inr 0" "sl_head sl \<noteq> t" "sl_max_level sl < MAX_HEIGHT"
    "node_ok sl a \<Longrightarrow> a \<noteq> t" "node_ok sl a \<Longrightarrow> a \<noteq> sl_head sl"
  using assms by (auto simp: sentinels_def below_def node_ok_def)

lemma skelD:
  assumes "skel sl t xs L D"
  shows "sentinels sl t" "a \<in> set xs \<Longrightarrow> node_ok sl a" "a \<in> set xs \<Longrightarrow> L a \<le> Suc (top_of sl a)"
    "sorted_wrt (\<lambda>a b. kb sl a < kb sl b) xs" "D \<subseteq> set xs"
    "l < MAX_HEIGHT \<Longrightarrow> lpath sl l D (sl_head sl) (filter (\<lambda>a. l < L a) xs) t"
  using assms by (auto simp: skel_def)

lemma sorted_wrt_less_distinct:
  fixes f :: "'a \<Rightarrow> 'b::order"
  shows "sorted_wrt (\<lambda>a b. f a < f b) xs \<Longrightarrow> distinct xs"
  by (induction xs) auto

lemma skel_distinct:
  assumes "skel sl t xs L D"
  shows "distinct (sl_head sl # xs @ [t])"
proof -
  have "distinct xs" by (rule sorted_wrt_less_distinct [OF skelD(4) [OF assms]])
  then show ?thesis
    using skelD(2) [OF assms] sentinelsD(7,9,10) [OF skelD(1) [OF assms]] by auto
qed

text \<open>Where the search for \<open>key\<close> leaves each level.\<close>

definition pred_at :: "skiplist \<Rightarrow> (addr \<Rightarrow> nat) \<Rightarrow> addr list \<Rightarrow> nat \<Rightarrow> addr" where
  "pred_at sl L as l = last (sl_head sl # filter (\<lambda>a. l < L a) as)"

definition succ_at :: "(addr \<Rightarrow> nat) \<Rightarrow> addr set \<Rightarrow> addr list \<Rightarrow> addr \<Rightarrow> nat \<Rightarrow> addr" where
  "succ_at L D bs t l = hd (filter (\<lambda>a. l < L a \<and> a \<notin> D) bs @ [t])"

text \<open>The list \<open>as @ bs\<close> is cut at \<open>key\<close>.\<close>

definition key_cut :: "skiplist \<Rightarrow> bytes \<Rightarrow> addr list \<Rightarrow> addr list \<Rightarrow> addr set \<Rightarrow> bool" where
  "key_cut sl key as bs D \<longleftrightarrow> (\<forall>a \<in> set as. kb sl a < key) \<and> (\<forall>b \<in> set bs. \<not> kb sl b < key) \<and>
     set as \<inter> D = {} \<and> set (tl bs) \<inter> D = {}"

lemma pred_at_cases: "pred_at sl L as l = sl_head sl \<or> pred_at sl L as l \<in> set (filter (\<lambda>a. l < L a) as)"
  using last_in_set [of "filter (\<lambda>a. l < L a) as"] by (auto simp: pred_at_def)

lemma pred_at_split:
  assumes "distinct (sl_head sl # as)"
  obtains us vs where "sl_head sl # filter (\<lambda>a. l < L a) as = us @ pred_at sl L as (Suc l) # vs"
    "last (pred_at sl L as (Suc l) # vs) = pred_at sl L as l"
proof -
  have "pred_at sl L as (Suc l) \<in> set (sl_head sl # filter (\<lambda>a. l < L a) as)"
    using pred_at_cases [of sl L as "Suc l"] by auto
  then obtain us vs where s: "sl_head sl # filter (\<lambda>a. l < L a) as = us @ pred_at sl L as (Suc l) # vs"
    by (meson split_list)
  moreover have "last (pred_at sl L as (Suc l) # vs) = pred_at sl L as l"
    using arg_cong [OF s, of last] by (simp add: pred_at_def)
  ultimately show thesis using that by blast
qed

lemma set_tl_filter: "set (tl (filter P bs)) \<subseteq> set (tl bs)"
proof (cases bs)
  case (Cons a as)
  have "set (tl ys) \<subseteq> set ys" for ys :: "'a list" by (cases ys) auto
  from this [of "filter P as"] show ?thesis using Cons by auto
qed simp

text \<open>The part of level \<open>l\<close> that a search entering at \<open>p\<close> sees.\<close>

lemma pred_window:
  assumes "skel sl t (as @ bs) L D" "key_cut sl key as bs D" "l < MAX_HEIGHT" "p = pred_at sl L as (Suc l)"
  obtains vs where "lpath sl l D p (vs @ filter (\<lambda>a. l < L a) bs) t"
    "distinct (p # vs @ filter (\<lambda>a. l < L a) bs @ [t])"
    "\<forall>a \<in> set (vs @ filter (\<lambda>a. l < L a) bs @ [t]). aligned a" "\<forall>a \<in> set vs. below sl key a"
    "\<forall>a \<in> set (filter (\<lambda>a. l < L a) bs @ [t]). hdr sl a \<noteq> None \<and> \<not> below sl key a"
    "link t l sl = Inr 0" "insert p (set vs) \<inter> D = {}" "set (tl (filter (\<lambda>a. l < L a) bs)) \<inter> D = {}"
    "last (p # vs) = pred_at sl L as l"
proof -
  let ?F = "\<lambda>ys. filter (\<lambda>a. l < L a) ys"
  note S = skelD(1) [OF assms(1)] and N = skelD(2) [OF assms(1)] and C = assms(2) [unfolded key_cut_def]
  have dist: "distinct (sl_head sl # as)" using skel_distinct [OF assms(1)] by simp
  obtain us vs where split: "sl_head sl # ?F as = us @ p # vs" and last: "last (p # vs) = pred_at sl L as l"
    using pred_at_split [OF dist] assms(4) by metis
  have path: "lpath sl l D p (vs @ ?F bs) t"
    using lpath_suffix [of sl l D "sl_head sl" "?F as" "?F bs" t us p vs] skelD(6) [OF assms(1,3)] split by simp
  have "set vs \<subseteq> set (tl (us @ p # vs))" by (cases us) auto
  also have "\<dots> \<subseteq> set as" using split [symmetric] by simp
  finally have vs: "set vs \<subseteq> set as" .
  have p: "p \<in> set (sl_head sl # ?F as)" by (simp only: split) simp
  have nD: "sl_head sl \<notin> D" using skelD(5) [OF assms(1)] sentinelsD(10) [OF S] N by blast
  have dist': "distinct (us @ p # vs @ ?F bs @ [t])"
    using skel_distinct [OF assms(1)] arg_cong [OF split, of "\<lambda>ys. distinct (ys @ ?F bs @ [t])"] by auto
  show thesis
  proof (rule that [OF path])
    show "link t l sl = Inr 0" using sentinelsD(6) [OF S assms(3)] .
    show "\<forall>a \<in> set (vs @ ?F bs @ [t]). aligned a" using N vs node_okD(1) sentinelsD(2) [OF S] by auto
    show "\<forall>a \<in> set vs. below sl key a" using vs N C node_okD(5) by auto
    show "\<forall>a \<in> set (?F bs @ [t]). hdr sl a \<noteq> None \<and> \<not> below sl key a"
      using N C node_okD(3,5) sentinelsD(3,4) [OF S] by auto
    show "distinct (p # vs @ ?F bs @ [t])" using dist' by simp
    show "insert p (set vs) \<inter> D = {}" using p vs nD C by auto
    show "set (tl (?F bs)) \<inter> D = {}" using set_tl_filter [of "\<lambda>a. l < L a" bs] C by auto
  qed (rule last)
qed

lemma lpath_entry:
  assumes "lpath sl l D p ys t" "\<forall>a \<in> set (ys @ [t]). aligned a"
  shows "\<exists>w. link p l sl = Inr w \<and> ptr_of w = hd (ys @ [t])"
proof -
  have "hd (ys @ [t]) \<in> set (ys @ [t])" by (intro hd_in_set) simp
  then have "aligned (hd (ys @ [t]))" using assms(2) by blast
  then show ?thesis using lpath_first [OF assms(1)] by simp
qed

lemma walk_from_pred:
  assumes "skel sl t (as @ bs) L D" "key_cut sl key as bs D" "l < MAX_HEIGHT" "p = pred_at sl L as (Suc l)"
  shows "\<exists>w. link p l sl = Inr w \<and>
    walk_level key l p (ptr_of w) sl = Some (Inr (At (pred_at sl L as l, succ_at L D bs t l),
      if set (filter (\<lambda>a. l < L a) bs) \<inter> D = {} then sl
      else set_link (pred_at sl L as l) l (succ_at L D bs t l) sl))"
proof -
  have fs: "filter (\<lambda>a. a \<notin> D) (filter (\<lambda>a. l < L a) bs) = filter (\<lambda>a. l < L a \<and> a \<notin> D) bs"
    by (auto intro: filter_cong)
  obtain vs where vs: "lpath sl l D p (vs @ filter (\<lambda>a. l < L a) bs) t"
    "distinct (p # vs @ filter (\<lambda>a. l < L a) bs @ [t])"
    "\<forall>a \<in> set (vs @ filter (\<lambda>a. l < L a) bs @ [t]). aligned a" "\<forall>a \<in> set vs. below sl key a"
    "\<forall>a \<in> set (filter (\<lambda>a. l < L a) bs @ [t]). hdr sl a \<noteq> None \<and> \<not> below sl key a"
    "link t l sl = Inr 0" "insert p (set vs) \<inter> D = {}" "set (tl (filter (\<lambda>a. l < L a) bs)) \<inter> D = {}"
    and last: "last (p # vs) = pred_at sl L as l"
    using pred_window [OF assms] by metis
  obtain w where "link p l sl = Inr w" "ptr_of w = hd (vs @ filter (\<lambda>a. l < L a) bs @ [t])"
    using lpath_entry [OF vs(1)] vs(3) by auto
  then show ?thesis
    using walk_level_spec [OF vs] by (intro exI [of _ w]) (simp only: last fs succ_at_def simp_thms)
qed

section \<open>The whole search\<close>

lemma data_kb: "data sl' = data sl \<Longrightarrow> kb sl' = kb sl" "data sl' = data sl \<Longrightarrow> top_of sl' = top_of sl"
    "data sl' = data sl \<Longrightarrow> node_ok sl' = node_ok sl" "data sl' = data sl \<Longrightarrow> key_cut sl' = key_cut sl"
    "data sl' = data sl \<Longrightarrow> pred_at sl' = pred_at sl"
  by (auto simp: data_def kb_def top_of_def node_ok_def key_cut_def pred_at_def fun_eq_iff)

lemma sentinels_cong:
  assumes "data sl' = data sl" "\<And>l. link t l sl' = link t l sl"
  shows "sentinels sl' t = sentinels sl t"
  using data_eqD [OF assms(1)] assms(2) by (simp add: sentinels_def)

lemma filter_upd: "n \<notin> set ys \<Longrightarrow> filter (\<lambda>a. l < (L(n := m)) a) ys = filter (\<lambda>a. l < L a) ys"
  by (intro filter_cong) auto

text \<open>Splicing a marked node out of its highest linked level.\<close>

lemma skel_splice:
  assumes "skel sl t (as @ n # bs) L {n}" "key_cut sl key as (n # bs) {n}" "L n = Suc l" "l < MAX_HEIGHT"
  shows "skel (set_link (pred_at sl L as l) l (succ_at L {n} (n # bs) t l) sl) t (as @ n # bs) (L(n := l)) {n}"
    (is "skel ?sl t ?xs ?L ?D")
proof -
  let ?p = "pred_at sl L as l" and ?s = "succ_at L {n} (n # bs) t l" and ?F = "\<lambda>m ys. filter (\<lambda>a. m < L a) ys"
  note S = skelD [OF assms(1)] and dist = skel_distinct [OF assms(1)]
  have p: "?p \<noteq> t" "?p \<noteq> n" using pred_at_cases [of sl L as l] dist by auto
  have "lpath ?sl m {n} (sl_head sl) (filter (\<lambda>a. m < ?L a) ?xs) t" if m: "m < MAX_HEIGHT" for m
  proof (cases "m = l")
    case True
    have n: "n \<notin> set as" "n \<notin> set bs" using dist by auto
    have f: "filter (\<lambda>a. l < ?L a) ?xs = ?F l as @ ?F l bs"
      by (simp only: filter_append filter.simps filter_upd [OF n(1)] filter_upd [OF n(2)]
          fun_upd_same less_irrefl if_False)
    have "filter (\<lambda>a. l < L a \<and> a \<notin> {n}) bs = ?F l bs" using n by (intro filter_cong) auto
    then have s: "?s = hd (?F l bs @ [t])" by (simp add: succ_at_def)
    have 1: "lpath sl l {n} (sl_head sl) (?F l as @ n # ?F l bs) t" using S(6) [OF assms(4)] assms(3) by simp
    have 2: "distinct (sl_head sl # ?F l as @ n # ?F l bs @ [t])" using dist by auto
    have 3: "last (sl_head sl # ?F l as) \<notin> {n}" using p(2) by (simp add: pred_at_def)
    show ?thesis using lpath_bypass [OF 1 2 3] True by (simp only: f s pred_at_def)
  next
    case False
    have "filter (\<lambda>a. m < ?L a) ?xs = ?F m ?xs" using False assms(3) by (intro filter_cong) auto
    moreover have "lpath ?sl m {n} (sl_head sl) (?F m ?xs) t = lpath sl m {n} (sl_head sl) (?F m ?xs) t"
      using False by (intro lpath_cong) (simp add: link_set_link)
    ultimately show ?thesis using S(6) [OF m] by simp
  qed
  note path = this and K = data_kb [OF data_set_link, of ?p l ?s sl]
  show ?thesis
    unfolding skel_def
  proof (intro conjI ballI)
    show "sentinels ?sl t" using S(1) p(1) by (subst sentinels_cong) (auto simp: link_set_link)
    show "node_ok ?sl a" if "a \<in> set ?xs" for a using S(2) [OF that] K(3) by simp
    show "?L a \<le> Suc (top_of ?sl a)" if "a \<in> set ?xs" for a using S(3) [OF that] assms(3) K(2) by auto
    show "sorted_wrt (\<lambda>a b. kb ?sl a < kb ?sl b) ?xs" using S(4) K(1) by simp
    show "\<forall>m < MAX_HEIGHT. lpath ?sl m {n} (sl_head ?sl) (filter (\<lambda>a. m < ?L a) ?xs) t"
      using path by (simp only: set_link_fields) blast
  qed simp
qed

lemma skel_LD_cong:
  assumes "\<And>a. a \<in> set xs \<Longrightarrow> L' a = L a"
  shows "skel sl t xs L' D = skel sl t xs L D"
proof -
  have "filter (\<lambda>a. l < L' a) xs = filter (\<lambda>a. l < L a) xs" for l using assms by (intro filter_cong) auto
  then show ?thesis using assms by (auto simp: skel_def)
qed

text \<open>
  The result of \<open>find\<close> from level \<open>j\<close> downwards.  The marked nodes carry the searched key; above
  level \<open>j\<close> they are already spliced out, in the end everywhere.
\<close>

definition lowered :: "addr set \<Rightarrow> nat \<Rightarrow> (addr \<Rightarrow> nat) \<Rightarrow> addr \<Rightarrow> nat" where
  "lowered D j L a = (if a \<in> D then min (L a) j else L a)"

definition found_arrays ::
    "skiplist \<Rightarrow> (addr \<Rightarrow> nat) \<Rightarrow> addr set \<Rightarrow> addr list \<Rightarrow> addr list \<Rightarrow> addr \<Rightarrow> nat \<Rightarrow> addr list \<Rightarrow> addr list \<Rightarrow> bool"
    where
  "found_arrays sl L D as bs t j preds succs \<longleftrightarrow> length preds = MAX_HEIGHT \<and> length succs = MAX_HEIGHT \<and>
     (\<forall>l < j. preds ! l = pred_at sl L as l \<and> succs ! l = succ_at L D bs t l)"

lemma find_levels_step:
  assumes "skel sl t (as @ bs) (lowered D (Suc j) L) D" "key_cut sl key as bs D" "j < MAX_HEIGHT"
  shows "\<exists>sl'. skel sl' t (as @ bs) (lowered D j L) D \<and> data sl' = data sl \<and> (D = {} \<longrightarrow> sl' = sl) \<and>
    find_levels key (Suc j) (pred_at sl L as (Suc j)) preds succs sl =
    find_levels key j (pred_at sl L as j) (preds[j := pred_at sl L as j]) (succs[j := succ_at L D bs t j]) sl'"
proof -
  let ?L = "lowered D (Suc j) L"
  have asD: "set as \<inter> D = {}" using assms(2) by (simp add: key_cut_def)
  have "filter (\<lambda>a. l < ?L a) as = filter (\<lambda>a. l < L a) as" for l
    using asD by (intro filter_cong) (auto simp: lowered_def)
  then have P: "pred_at sl ?L as = pred_at sl L as" by (simp add: pred_at_def fun_eq_iff)
  have "filter (\<lambda>a. l < ?L a \<and> a \<notin> D) bs = filter (\<lambda>a. l < L a \<and> a \<notin> D) bs" for l
    by (intro filter_cong) (auto simp: lowered_def)
  then have S: "succ_at ?L D bs t = succ_at L D bs t" by (simp add: succ_at_def fun_eq_iff)
  from walk_from_pred [OF assms(1,2,3) refl]
  obtain w where w: "link (pred_at sl L as (Suc j)) j sl = Inr w"
    "walk_level key j (pred_at sl L as (Suc j)) (ptr_of w) sl = Some (Inr (At (pred_at sl L as j, succ_at L D bs t j),
      if set (filter (\<lambda>a. j < ?L a) bs) \<inter> D = {} then sl else set_link (pred_at sl L as j) j (succ_at L D bs t j) sl))"
    by (auto simp only: P S)
  show ?thesis
  proof (cases "set (filter (\<lambda>a. j < ?L a) bs) \<inter> D = {}")
    case True
    have "skel sl t (as @ bs) (lowered D j L) D = skel sl t (as @ bs) ?L D"
    proof (rule skel_LD_cong)
      fix a assume "a \<in> set (as @ bs)"
      then show "lowered D j L a = ?L a" using True asD by (auto simp: lowered_def min_def split: if_splits)
    qed
    then show ?thesis using assms(1) w True by (intro exI [of _ sl]) simp
  next
    case False
    then obtain n where n: "n \<in> set bs" "n \<in> D" "j < ?L n" by auto
    obtain bs' where bs: "bs = n # bs'" using n assms(2) by (cases bs) (auto simp: key_cut_def)
    have D: "D = {n}" using skelD(5) [OF assms(1)] asD assms(2) n(2) bs by (auto simp: key_cut_def)
    have Ln: "?L n = Suc j" using n(3) D by (simp add: lowered_def)
    have "skel (set_link (pred_at sl ?L as j) j (succ_at ?L {n} (n # bs') t j) sl) t (as @ n # bs') (?L(n := j)) {n}"
      using assms bs D Ln by (intro skel_splice) simp_all
    then have "skel (set_link (pred_at sl L as j) j (succ_at L D bs t j) sl) t (as @ bs) (?L(n := j)) D"
      by (simp only: P S flip: bs D)
    moreover have "?L(n := j) = lowered D j L" using D Ln by (auto simp: lowered_def fun_eq_iff)
    ultimately show ?thesis using w False D by (intro exI [of _ "set_link (pred_at sl L as j) j (succ_at L D bs t j) sl"]) auto
  qed
qed

declare find_levels.simps(2) [simp del]

lemma pred_at_head: "\<forall>a \<in> set as. L a \<le> l \<Longrightarrow> pred_at sl L as l = sl_head sl"
  by (simp add: pred_at_def filter_empty_conv linorder_not_less)

lemma find_levels_spec:
  assumes "skel sl t (as @ bs) (lowered D j L) D" "key_cut sl key as bs D" "j \<le> MAX_HEIGHT"
    and "length preds = MAX_HEIGHT" "length succs = MAX_HEIGHT"
    and "\<forall>l. j \<le> l \<and> l < n \<longrightarrow> preds ! l = pred_at sl L as l \<and> succs ! l = succ_at L D bs t l"
  shows "\<exists>preds' succs' sl'.
    find_levels key j (pred_at sl L as j) preds succs sl = Some (Inr (At (preds', succs'), sl')) \<and>
    skel sl' t (as @ bs) (lowered D 0 L) D \<and> data sl' = data sl \<and> (D = {} \<longrightarrow> sl' = sl) \<and>
    found_arrays sl L D as bs t n preds' succs'"
  using assms
proof (induction j arbitrary: sl preds succs)
  case 0
  then show ?case by (auto simp: found_arrays_def)
next
  case (Suc j)
  obtain sl' where sl': "skel sl' t (as @ bs) (lowered D j L) D" "data sl' = data sl" "D = {} \<longrightarrow> sl' = sl"
    and step: "find_levels key (Suc j) (pred_at sl L as (Suc j)) preds succs sl =
      find_levels key j (pred_at sl L as j) (preds[j := pred_at sl L as j]) (succs[j := succ_at L D bs t j]) sl'"
    using find_levels_step [OF Suc.prems(1,2), of preds succs] Suc.prems(3) by auto
  note K = data_kb [OF sl'(2)]
  have "\<exists>preds' succs' sl''.
    find_levels key j (pred_at sl' L as j) (preds[j := pred_at sl L as j]) (succs[j := succ_at L D bs t j]) sl' =
      Some (Inr (At (preds', succs'), sl'')) \<and>
    skel sl'' t (as @ bs) (lowered D 0 L) D \<and> data sl'' = data sl' \<and> (D = {} \<longrightarrow> sl'' = sl') \<and>
    found_arrays sl' L D as bs t n preds' succs'"
    using Suc.prems sl'(1) by (intro Suc.IH) (auto simp: K nth_list_update le_Suc_eq)
  moreover have "found_arrays sl' L D as bs t n = found_arrays sl L D as bs t n"
    by (simp add: found_arrays_def K fun_eq_iff)
  ultimately show ?case using sl'(2,3) unfolding step K(5) by metis
qed

text \<open>
  A search terminates without retrying, fills the arrays with the neighbours of the key on every
  level, and unlinks the marked nodes from every level.
\<close>

lemma find_key_spec:
  assumes "skel sl t (as @ bs) L D" "key_cut sl key as bs D"
    and "length preds = MAX_HEIGHT" "length succs = MAX_HEIGHT"
  shows "\<exists>preds' succs' sl'.
    find_key key preds succs sl =
      Some (Inr (kb sl (succ_at L D bs t 0) = key \<and> succ_at L D bs t 0 \<noteq> t, preds', succs', sl')) \<and>
    skel sl' t (as @ bs) (lowered D 0 L) D \<and> data sl' = data sl \<and> (D = {} \<longrightarrow> sl' = sl) \<and>
    found_arrays sl L D as bs t (Suc (sl_max_level sl)) preds' succs'"
proof -
  let ?m = "Suc (sl_max_level sl)"
  note S = skelD [OF assms(1)]
  have Lm: "L a \<le> ?m" if "a \<in> set (as @ bs)" for a
    using S(3) [OF that] node_okD(6) [OF S(2) [OF that]] by simp
  then have "skel sl t (as @ bs) (lowered D ?m L) D = skel sl t (as @ bs) L D"
    by (intro skel_LD_cong) (auto simp: lowered_def)
  moreover have "pred_at sl L as ?m = sl_head sl" using Lm by (intro pred_at_head) auto
  ultimately obtain preds' succs' sl' where f:
    "find_levels key ?m (sl_head sl) preds succs sl = Some (Inr (At (preds', succs'), sl'))"
    "skel sl' t (as @ bs) (lowered D 0 L) D" "data sl' = data sl" "D = {} \<longrightarrow> sl' = sl"
    "found_arrays sl L D as bs t ?m preds' succs'"
    using find_levels_spec [of sl t as bs D ?m L key preds succs ?m] assms sentinelsD(8) [OF S(1)]
    by (auto simp: not_le [symmetric])
  let ?s = "succ_at L D bs t 0"
  have "?s \<in> set (filter (\<lambda>a. 0 < L a \<and> a \<notin> D) bs @ [t])" unfolding succ_at_def by (intro hd_in_set) simp
  then have s: "?s = t \<or> ?s \<in> set bs" by auto
  have "\<exists>nd. node_at ?s sl' = Inr nd \<and> key_eq (nd_key nd) key = (kb sl ?s = key \<and> ?s \<noteq> t)"
  proof (cases "?s = t")
    case True
    then have "hdr sl' ?s = Some (PosInf, 0, MAX_HEIGHT - 1, MAX_HEIGHT)"
      using S(1) data_eqD(4) [OF f(3)] by (simp add: sentinels_def)
    then show ?thesis using True by (auto elim!: hdr_node_at)
  next
    case False
    then have "node_ok sl ?s" using s S(2) by auto
    then obtain k v tp where h: "hdr sl ?s = Some (Fin k, v, tp, Suc tp)" by (auto simp: node_ok_def)
    then have "hdr sl' ?s = Some (Fin k, v, tp, Suc tp)" using data_eqD(4) [OF f(3)] by simp
    then show ?thesis using False h by (auto simp: kb_def elim!: hdr_node_at)
  qed
  moreover have "succs' ! 0 = ?s" using f(5) by (simp add: found_arrays_def)
  ultimately show ?thesis
    using f by (subst find_key.simps) auto
qed

end
