(* ===== verification/SkipListOps.thy ===== *)
theory SkipListOps
  imports SkipListSearch
begin

text \<open>
  The operations of the skip list refine a map: \<open>insert\<close>, \<open>get\<close> and \<open>remove\<close> terminate without
  retrying or touching freed memory, and keep the invariant.
\<close>

section \<open>The invariant between operations\<close>

text \<open>Every node is linked in all its levels.\<close>

definition full :: "skiplist \<Rightarrow> addr \<Rightarrow> nat" where
  "full sl a = Suc (top_of sl a)"

definition value_of :: "skiplist \<Rightarrow> addr \<Rightarrow> bytes" where
  "value_of sl a = (case sl_vals sl (vptr sl a) of Some b \<Rightarrow> b | None \<Rightarrow> [])"

definition entries :: "skiplist \<Rightarrow> addr list \<Rightarrow> (bytes \<times> bytes) list" where
  "entries sl xs = map (\<lambda>a. (kb sl a, value_of sl a)) xs"

text \<open>
  Every allocated node is a sentinel, a live node or a retired node, every value cell belongs to
  exactly one live or retired node or is itself retired, and nothing is retired twice.
\<close>

definition retired_nodes :: "skiplist \<Rightarrow> addr set" where
  "retired_nodes sl = {a. RNode a \<in> set (sl_retired sl)}"

definition retired_values :: "skiplist \<Rightarrow> addr set" where
  "retired_values sl = {a. RValue a \<in> set (sl_retired sl)}"

definition accounted :: "skiplist \<Rightarrow> addr \<Rightarrow> addr list \<Rightarrow> bool" where
  "accounted sl t xs \<longleftrightarrow>
     distinct (sl_retired sl) \<and> {a. hdr sl a \<noteq> None} = {sl_head sl, t} \<union> set xs \<union> retired_nodes sl \<and>
     ({sl_head sl, t} \<union> set xs) \<inter> retired_nodes sl = {} \<and>
     dom (sl_vals sl) = vptr sl ` (set xs \<union> retired_nodes sl) \<union> retired_values sl \<and>
     vptr sl ` (set xs \<union> retired_nodes sl) \<inter> retired_values sl = {} \<and>
     inj_on (vptr sl) (set xs \<union> retired_nodes sl) \<and> (\<forall>a \<in> retired_nodes sl. vptr sl a \<noteq> 0)"

definition settled :: "skiplist \<Rightarrow> addr \<Rightarrow> addr list \<Rightarrow> bool" where
  "settled sl t xs \<longleftrightarrow> skel sl t xs (full sl) {} \<and> accounted sl t xs \<and> sl_len sl = of_nat (length xs)"

lemma settled_sorted: "settled sl t xs \<Longrightarrow> sorted_wrt (\<lambda>a b. kb sl a < kb sl b) xs"
  by (simp add: settled_def skel_def)

text \<open>Every key cuts the node list.\<close>

lemma key_cut_exists:
  assumes "sorted_wrt (\<lambda>a b. kb sl a < kb sl b) xs"
  obtains as bs where "xs = as @ bs" "key_cut sl key as bs {}"
proof
  show "xs = takeWhile (\<lambda>a. kb sl a < key) xs @ dropWhile (\<lambda>a. kb sl a < key) xs" by simp
  have "\<not> kb sl b < key" if "b \<in> set (dropWhile (\<lambda>a. kb sl a < key) xs)" for b
    using assms that
  proof (induction xs)
    case (Cons x xs)
    show ?case
    proof (cases "kb sl x < key")
      case False
      then have "key \<le> kb sl x" by simp
      also have "kb sl x \<le> kb sl b" using Cons.prems False by (auto simp: less_imp_le)
      finally show ?thesis by (simp add: not_less)
    qed (use Cons in simp)
  qed simp
  moreover have "kb sl a < key" if "a \<in> set (takeWhile (\<lambda>a. kb sl a < key) xs)" for a
    using set_takeWhileD [OF that] by simp
  ultimately show "key_cut sl key (takeWhile (\<lambda>a. kb sl a < key) xs) (dropWhile (\<lambda>a. kb sl a < key) xs) {}"
    unfolding key_cut_def by blast
qed

lemma succ_at_full: "succ_at (full sl) {} bs t 0 = hd (bs @ [t])"
  by (simp add: succ_at_def full_def)

lemma sorted_cut_tail:
  assumes "sorted_wrt (\<lambda>a b. kb sl a < kb sl b) (as @ bs)" "key_cut sl key as bs D"
    and "\<not> (bs \<noteq> [] \<and> kb sl (hd bs) = key)"
  shows "\<forall>b \<in> set bs. key < kb sl b"
  using assms by (cases bs) (auto simp: key_cut_def sorted_wrt_append not_less)

lemma settled_lookup:
  assumes "settled sl t (as @ bs)" "key_cut sl key as bs {}"
  shows "map_of (entries sl (as @ bs)) key =
    (if bs \<noteq> [] \<and> kb sl (hd bs) = key then Some (value_of sl (hd bs)) else None)"
proof -
  have "map_of (entries sl as) key = None"
    using assms(2) by (auto simp: map_of_eq_None_iff entries_def key_cut_def)
  moreover have "map_of (entries sl bs) key = None" if "\<not> (bs \<noteq> [] \<and> kb sl (hd bs) = key)"
    using sorted_cut_tail [OF settled_sorted [OF assms(1)] assms(2) that]
    by (auto simp: map_of_eq_None_iff entries_def)
  moreover have "map_of (entries sl bs) key = Some (value_of sl (hd bs))" if "bs \<noteq> []" "kb sl (hd bs) = key"
    using that by (cases bs) (auto simp: entries_def)
  ultimately show ?thesis by (auto simp: entries_def map_add_def split: option.splits)
qed

section \<open>Lookup\<close>

lemma skip_unmarked: "link c l sl = Inr w \<Longrightarrow> \<not> mark_of w \<Longrightarrow> skip_marked l c sl = Some (Inr (c, ptr_of w))"
  by (subst skip_marked.simps) simp

lemma get_level_step:
  assumes "link c l sl = Inr w" "\<not> mark_of w" "hdr sl c \<noteq> None"
  shows "get_level key l p c sl =
    (if below sl key c then get_level key l c (ptr_of w) sl else Some (Inr (p, c)))"
proof -
  obtain nd where "node_at c sl = Inr nd" using assms(3) by (auto simp: node_at_def hdr_def)
  then show ?thesis
    using skip_unmarked [OF assms(1,2)] by (subst get_level.simps) (simp add: below_node_at)
qed

lemma get_level_spec:
  assumes "lpath sl l {} p (vs @ bs) t" "\<forall>a \<in> set (vs @ bs @ [t]). aligned a"
    and "\<forall>a \<in> set vs. below sl key a" "\<forall>a \<in> set (bs @ [t]). hdr sl a \<noteq> None \<and> \<not> below sl key a"
    and "link t l sl = Inr 0"
  shows "get_level key l p (hd (vs @ bs @ [t])) sl = Some (Inr (last (p # vs), hd (bs @ [t])))"
  using assms
proof (induction vs arbitrary: p)
  case Nil
  have "\<exists>w. link (hd (bs @ [t])) l sl = Inr w \<and> \<not> mark_of w"
  proof (cases bs)
    case (Cons b cs)
    then have "lpath sl l {} b cs t" "\<forall>a \<in> set (cs @ [t]). aligned a" using Nil.prems(1,2) by auto
    then have "link b l sl = Inr (pack (hd (cs @ [t])) False)" "aligned (hd (cs @ [t]))"
      using lpath_first by (fastforce simp: hd_append)+
    then show ?thesis using Cons by simp
  qed (use Nil.prems(5) in simp)
  moreover have "hd (bs @ [t]) \<in> set (bs @ [t])" by (intro hd_in_set) simp
  ultimately show ?case using Nil.prems(4) get_level_step by fastforce
next
  case (Cons a vs)
  then have a: "link a l sl = Inr (hd (vs @ bs @ [t]))" "aligned (hd (vs @ bs @ [t]))"
    using lpath_first [of sl l "{}" a "vs @ bs" t] by (auto simp: hd_append)
  have "hdr sl a \<noteq> None" using Cons.prems(3) by (auto simp: below_def split: option.splits)
  then show ?case using Cons get_level_step [OF a(1)] a(2) by simp
qed

lemma get_from_pred:
  assumes "skel sl t (as @ bs) L {}" "key_cut sl key as bs {}" "l < MAX_HEIGHT"
  shows "\<exists>w. link (pred_at sl L as (Suc l)) l sl = Inr w \<and>
    get_level key l (pred_at sl L as (Suc l)) (ptr_of w) sl = Some (Inr (pred_at sl L as l, succ_at L {} bs t l))"
proof -
  let ?p = "pred_at sl L as (Suc l)"
  obtain vs where vs: "lpath sl l {} ?p (vs @ filter (\<lambda>a. l < L a) bs) t"
    "\<forall>a \<in> set (vs @ filter (\<lambda>a. l < L a) bs @ [t]). aligned a" "\<forall>a \<in> set vs. below sl key a"
    "\<forall>a \<in> set (filter (\<lambda>a. l < L a) bs @ [t]). hdr sl a \<noteq> None \<and> \<not> below sl key a"
    "link t l sl = Inr 0" and last: "last (?p # vs) = pred_at sl L as l"
    using pred_window [OF assms refl] by metis
  obtain w where "link ?p l sl = Inr w" "ptr_of w = hd (vs @ filter (\<lambda>a. l < L a) bs @ [t])"
    using lpath_entry [OF vs(1)] vs(2) by auto
  then show ?thesis
    using get_level_spec [OF vs] by (intro exI [of _ w]) (simp add: succ_at_def last del: last.simps)
qed

lemma get_levels_spec:
  assumes "skel sl t (as @ bs) L {}" "key_cut sl key as bs {}" "j < MAX_HEIGHT"
  shows "get_levels key (Suc j) (pred_at sl L as (Suc j)) sl =
    step_bind (read_value key (succ_at L {} bs t 0) sl) (\<lambda>r. Some (Inr r))"
  using assms(3)
proof (induction j)
  case 0
  then show ?case using get_from_pred [OF assms(1,2), of 0] by auto
next
  case (Suc j)
  then show ?case using get_from_pred [OF assms(1,2), of "Suc j"] by auto
qed

lemma read_value_spec:
  assumes "skel sl t xs L {}" "a \<in> set xs" "0 < L a"
  shows "read_value key a sl = Inr (if kb sl a = key then Some (value_of sl a) else None)"
proof -
  obtain k v tp where h: "hdr sl a = Some (Fin k, v, tp, Suc tp)" "v \<noteq> 0" "sl_vals sl v \<noteq> None"
    using skelD(2) [OF assms(1,2)] by (auto simp: node_ok_def)
  have "a \<in> set (sl_head sl # filter (\<lambda>a. 0 < L a) xs)" using assms(2,3) by simp
  from lpath_link [OF skelD(6) [OF assms(1)] this]
  obtain y where y: "y \<in> set (filter (\<lambda>a. 0 < L a) xs @ [t])" "link a 0 sl = Inr (pack y False)"
    by (auto simp: MAX_HEIGHT_def)
  then have "aligned y"
    using node_okD(1) [OF skelD(2) [OF assms(1)]] sentinelsD(2) [OF skelD(1) [OF assms(1)]] by auto
  then show ?thesis
    using h y(2) by (auto simp: read_value_def kb_def value_of_def vptr_def elim!: hdr_node_at)
qed

lemma read_value_tail: "sentinels sl t \<Longrightarrow> read_value key t sl = Inr None"
  by (auto simp: sentinels_def read_value_def elim!: hdr_node_at)

lemma get_spec:
  assumes "settled sl t xs"
  shows "sl_get key sl = Some (Inr (map_of (entries sl xs) key))"
proof -
  note S = assms [unfolded settled_def, THEN conjunct1]
  obtain as bs where xs: "xs = as @ bs" "key_cut sl key as bs {}"
    using key_cut_exists [OF settled_sorted [OF assms]] by blast
  have m: "sl_max_level sl < MAX_HEIGHT" by (rule sentinelsD(8) [OF skelD(1) [OF S]])
  have "pred_at sl (full sl) as (Suc (sl_max_level sl)) = sl_head sl"
    using node_okD(6) [OF skelD(2) [OF S]] xs by (intro pred_at_head) (auto simp: full_def)
  then have "sl_get key sl = step_bind (read_value key (hd (bs @ [t])) sl) (\<lambda>r. Some (Inr r))"
    using get_levels_spec [OF _ xs(2) m, of t "full sl"] S xs(1) by (simp add: sl_get_def succ_at_full)
  also have "read_value key (hd (bs @ [t])) sl = Inr (map_of (entries sl xs) key)"
    using settled_lookup [of sl t as bs key] assms xs read_value_spec [OF S, of "hd bs" key]
      read_value_tail [OF skelD(1) [OF S]]
    by (cases bs) (auto simp: full_def)
  finally show ?thesis by simp
qed

section \<open>Insertion\<close>

text \<open>The allocator returns 0 or an unused, 8-byte aligned address.\<close>

definition fresh :: "skiplist \<Rightarrow> addr \<Rightarrow> bool" where
  "fresh sl a \<longleftrightarrow> a AND 7 = 0 \<and> sl_nodes sl a = None \<and> sl_vals sl a = None"

definition allocator :: "alloc \<Rightarrow> bool" where
  "allocator al \<longleftrightarrow> (\<forall>sl. al sl \<noteq> 0 \<longrightarrow> fresh sl (al sl))"

text \<open>The allocator fails for the value or for the node of an insertion.\<close>

definition refuses :: "alloc \<Rightarrow> bytes \<Rightarrow> skiplist \<Rightarrow> bool" where
  "refuses al val sl \<longleftrightarrow> al sl = 0 \<or> al (sl\<lparr>sl_vals := (sl_vals sl)(al sl \<mapsto> val)\<rparr>) = 0"

lemma fresh_aligned:
  assumes "fresh sl a"
  shows "aligned a"
proof -
  have "even (a AND 7)" using assms by (simp add: fresh_def)
  then show ?thesis by (simp add: aligned_bit bit_0 even_and_iff)
qed

text \<open>The skeleton depends only on the sentinels, its nodes and their value cells.\<close>

lemma skel_local:
  assumes "skel sl t xs L D" "sl_head sl' = sl_head sl" "sl_max_level sl' = sl_max_level sl"
    and "\<And>a. a \<in> {sl_head sl, t} \<union> set xs \<Longrightarrow> hdr sl' a = hdr sl a"
    and "\<And>a l. a \<in> {sl_head sl, t} \<union> set xs \<Longrightarrow> link a l sl' = link a l sl"
    and "\<And>a. a \<in> set xs \<Longrightarrow> sl_vals sl' (vptr sl a) \<noteq> None"
  shows "skel sl' t xs L D"
proof -
  note S = skelD [OF assms(1)]
  have "sentinels sl' t"
    using S(1) assms(2,3) assms(4,5) [of t] assms(4) [of "sl_head sl"] by (simp add: sentinels_def)
  moreover have "node_ok sl' a \<and> L a \<le> Suc (top_of sl' a)" if "a \<in> set xs" for a
    using S(2,3) [OF that] assms(4) [of a] assms(6) [OF that] that assms(3)
    by (auto simp: node_ok_def top_of_def vptr_def)
  moreover have "sorted_wrt (\<lambda>a b. kb sl' a < kb sl' b) xs"
    using S(4) assms(4) by (auto simp: kb_def elim!: sorted_wrt_mono_rel [rotated])
  moreover have "lpath sl' l D (sl_head sl) (filter (\<lambda>a. l < L a) xs) t" if "l < MAX_HEIGHT" for l
    using S(6) [OF that] assms(5) by (subst lpath_cong [of _ _ l sl' sl D D]) auto
  ultimately show ?thesis using S(5) assms(2) by (simp add: skel_def)
qed

lemma skel_extend:
  assumes "skel sl t xs L D" "sl_head sl' = sl_head sl" "sl_max_level sl' = sl_max_level sl"
    and "\<And>a. hdr sl a \<noteq> None \<Longrightarrow> hdr sl' a = hdr sl a"
    and "\<And>a l. hdr sl a \<noteq> None \<Longrightarrow> link a l sl' = link a l sl"
    and "\<And>v. sl_vals sl v \<noteq> None \<Longrightarrow> sl_vals sl' v \<noteq> None"
  shows "skel sl' t xs L D"
proof (rule skel_local [OF assms(1-3)])
  have x: "hdr sl a \<noteq> None" if "a \<in> {sl_head sl, t} \<union> set xs" for a
    using that node_okD(3) [OF skelD(2) [OF assms(1)]] skelD(1) [OF assms(1)] by (auto simp: sentinels_def)
  then show "hdr sl' a = hdr sl a" "link a l sl' = link a l sl" if "a \<in> {sl_head sl, t} \<union> set xs" for a l
    using assms(4,5) that by auto
  show "sl_vals sl' (vptr sl a) \<noteq> None" if "a \<in> set xs" for a
    using skelD(2) [OF assms(1) that] assms(6) by (auto simp: node_ok_def vptr_def)
qed

text \<open>A new node enters the list unlinked.\<close>

lemma skel_add:
  assumes "skel sl t (as @ bs) L {}" "node_ok sl n" "n \<notin> set (as @ bs)"
    and "\<forall>a \<in> set as. kb sl a < kb sl n" "\<forall>b \<in> set bs. kb sl n < kb sl b"
  shows "skel sl t (as @ n # bs) (L(n := 0)) {}"
proof -
  have "filter (\<lambda>a. l < (L(n := 0)) a) (as @ n # bs) = filter (\<lambda>a. l < L a) (as @ bs)" for l
    using filter_upd [of n as l L 0] filter_upd [of n bs l L 0] assms(3) by simp
  moreover have "sorted_wrt (\<lambda>a b. kb sl a < kb sl b) (as @ n # bs)"
    using skelD(4) [OF assms(1)] assms(4,5) by (auto simp: sorted_wrt_append)
  ultimately show ?thesis
    using skelD [OF assms(1)] assms(2,3) by (simp add: skel_def)
qed

text \<open>A link above the linked levels of a node may hold anything.\<close>

lemma skel_store:
  assumes "skel sl t xs L D" "n \<in> set xs" "L n \<le> l"
  shows "skel (set_link n l w sl) t xs L D"
proof -
  note S = skelD [OF assms(1)] and K = data_kb [OF data_set_link, of n l w sl]
  have "n \<noteq> sl_head sl" "n \<noteq> t" using skel_distinct [OF assms(1)] assms(2) by auto
  then have "lpath (set_link n l w sl) m D (sl_head sl) (filter (\<lambda>a. m < L a) xs) t"
    if "m < MAX_HEIGHT" for m
    using S(6) [OF that] assms(3) by (subst lpath_cong [of _ _ m _ sl D D]) (auto simp: link_set_link)
  moreover have "sentinels (set_link n l w sl) t"
    using S(1) \<open>n \<noteq> t\<close> by (subst sentinels_cong) (auto simp: link_set_link)
  ultimately show ?thesis using S(2-5) K by (simp add: skel_def)
qed

text \<open>Linking a node into the next level.\<close>

lemma skel_link:
  assumes "skel sl t (as @ n # bs) L {}" "L n = l" "l \<le> top_of sl n"
    and "link n l sl = Inr (succ_at L {} bs t l)"
  shows "skel (set_link (pred_at sl L as l) l n sl) t (as @ n # bs) (L(n := Suc l)) {}" (is "skel ?sl t ?xs ?L {}")
proof -
  let ?p = "pred_at sl L as l" and ?F = "\<lambda>m ys. filter (\<lambda>a. m < L a) ys"
  note S = skelD [OF assms(1)] and dist = skel_distinct [OF assms(1)] and K = data_kb [OF data_set_link, of ?p l n sl]
  have n: "n \<notin> set as" "n \<notin> set bs" "n \<in> set ?xs" using dist by auto
  have p: "?p \<noteq> t" using pred_at_cases [of sl L as l] dist by auto
  have path: "lpath ?sl m {} (sl_head sl) (filter (\<lambda>a. m < ?L a) ?xs) t" if m: "m < MAX_HEIGHT" for m
  proof (cases "m = l")
    case True
    have f: "filter (\<lambda>a. l < ?L a) ?xs = ?F l as @ n # ?F l bs"
      by (simp only: filter_append filter.simps filter_upd [OF n(1)] filter_upd [OF n(2)] fun_upd_same lessI if_True)
    have 1: "lpath sl l {} (sl_head sl) (?F l as @ ?F l bs) t" using S(6) [OF m] True assms(2) by simp
    have 2: "distinct (sl_head sl # ?F l as @ n # ?F l bs @ [t])" using dist by auto
    have 3: "link n l sl = Inr (hd (?F l bs @ [t]))" using assms(4) by (simp add: succ_at_def)
    show ?thesis using lpath_insert [OF 1 2 _ _ 3] True by (simp only: f pred_at_def) simp
  next
    case False
    have "filter (\<lambda>a. m < ?L a) ?xs = ?F m ?xs" using False assms(2) by (intro filter_cong) auto
    moreover have "lpath ?sl m {} (sl_head sl) (?F m ?xs) t = lpath sl m {} (sl_head sl) (?F m ?xs) t"
      using False by (intro lpath_cong) (simp add: link_set_link)
    ultimately show ?thesis using S(6) [OF m] by simp
  qed
  show ?thesis
    unfolding skel_def
  proof (intro conjI ballI)
    show "sentinels ?sl t" using S(1) p by (subst sentinels_cong) (auto simp: link_set_link)
    show "node_ok ?sl a" if "a \<in> set ?xs" for a using S(2) [OF that] K(3) by simp
    show "?L a \<le> Suc (top_of ?sl a)" if "a \<in> set ?xs" for a using S(3) [OF that] assms(3) K(2) by auto
    show "sorted_wrt (\<lambda>a b. kb ?sl a < kb ?sl b) ?xs" using S(4) K(1) by simp
    show "\<forall>m < MAX_HEIGHT. lpath ?sl m {} (sl_head ?sl) (filter (\<lambda>a. m < ?L a) ?xs) t"
      using path by (simp only: set_link_fields) blast
  qed simp
qed

lemma node_link_exists:
  assumes "node_ok sl n" "l \<le> top_of sl n"
  shows "\<exists>w. link n l sl = Inr w"
  using assms hdr_link [of sl n] by (auto simp: node_ok_def top_of_def)

lemma lpath_last: "lpath sl l D a (us @ ws) t \<Longrightarrow> link (last (a # us)) l sl = Inr (pack (hd (ws @ [t])) (last (a # us) \<in> D))"
  by (induction us arbitrary: a) (auto dest: lpath_first)

lemma set_link_same: "link n l sl = Inr w \<Longrightarrow> set_link n l w sl = sl"
  by (auto simp: link_def node_at_def set_link_def fun_upd_idem split: option.splits if_splits)

lemma store_tower_spec:
  assumes "skel sl t xs L D" "n \<in> set xs" "L n = 0" "\<forall>l \<in> set ls. l \<le> top_of sl n" "distinct ls"
  shows "\<exists>sl'. store_tower n succs ls sl = Inr sl' \<and> skel sl' t xs L D \<and> data sl' = data sl \<and>
    (\<forall>l. link n l sl' = (if l \<in> set ls then Inr (succs ! l) else link n l sl))"
  using assms
proof (induction ls arbitrary: sl)
  case (Cons l ls)
  let ?sl = "set_link n l (succs ! l) sl"
  obtain w where w: "link n l sl = Inr w"
    using node_link_exists [OF skelD(2) [OF Cons.prems(1,2)]] Cons.prems(4) by auto
  then have step: "store_tower n succs (l # ls) sl = store_tower n succs ls ?sl"
    by (simp add: link_store_def)
  have sk: "skel ?sl t xs L D"
    using Cons.prems(3) by (intro skel_store [OF Cons.prems(1,2)]) simp
  obtain sl' where "store_tower n succs ls ?sl = Inr sl'" "skel sl' t xs L D" "data sl' = data ?sl"
    "\<forall>m. link n m sl' = (if m \<in> set ls then Inr (succs ! m) else link n m ?sl)"
    using Cons.IH [OF sk Cons.prems(2,3)] Cons.prems(4,5) data_kb(2) [OF data_set_link, of n l "succs ! l" sl] by auto
  then show ?case using step w Cons.prems(5) by (auto simp: link_set_link)
qed simp

lemma link_level_spec:
  assumes "skel sl t (as @ n # bs) (L(n := l)) {}" "l \<le> top_of sl n"
    and "preds ! l = pred_at sl L as l" "succs ! l = succ_at L {} bs t l"
  shows "\<exists>sl'. link_cas (preds ! l) l (succs ! l) n False False (set_link n l (succs ! l) sl) = Inr (True, sl') \<and>
    link_level key n l preds succs sl = Some (Inr (preds, succs, sl')) \<and>
    skel sl' t (as @ n # bs) (L(n := Suc l)) {} \<and> data sl' = data sl"
proof -
  let ?s = "succs ! l" and ?p = "preds ! l" and ?L = "L(n := l)"
  let ?sl1 = "set_link n l ?s sl"
  have dist: "distinct (sl_head sl # (as @ n # bs) @ [t])" by (rule skel_distinct [OF assms(1)])
  then have n: "n \<notin> set as" "n \<notin> set bs" "n \<in> set (as @ n # bs)" by auto
  have arr: "?p = pred_at sl ?L as l" "?s = succ_at ?L {} bs t l"
    using assms(3,4) filter_upd [OF n(1), of l L l] filter_upd [OF n(2), of l L l]
    by (simp_all only: pred_at_def succ_at_def) simp_all
  have sk1: "skel ?sl1 t (as @ n # bs) ?L {}" by (rule skel_store [OF assms(1) n(3)]) simp
  have top: "top_of sl n < MAX_HEIGHT"
    using node_okD(6) [OF skelD(2) [OF assms(1) n(3)]] sentinelsD(8) [OF skelD(1) [OF assms(1)]] by simp
  have lm: "l < MAX_HEIGHT" using assms(2) top by simp
  obtain w where w: "link n l sl = Inr w"
    using node_link_exists [OF skelD(2) [OF assms(1) n(3)] assms(2)] by blast
  have pn: "?p \<noteq> n" using pred_at_cases [of sl ?L as l] arr dist by auto
  have "lpath sl l {} (sl_head sl) (filter (\<lambda>a. l < ?L a) as @ filter (\<lambda>a. l < ?L a) bs) t"
    using skelD(6) [OF assms(1) lm] by simp
  from lpath_last [OF this] have "link ?p l sl = Inr ?s" by (simp only: arr pred_at_def succ_at_def) simp
  then have p1: "link ?p l ?sl1 = Inr ?s" using pn by (simp add: link_set_link)
  let ?sl2 = "set_link ?p l n ?sl1"
  have cas: "link_cas ?p l ?s n False False ?sl1 = Inr (True, ?sl2)" using p1 by (simp add: link_cas_def)
  have "skel (set_link (pred_at ?sl1 ?L as l) l n ?sl1) t (as @ n # bs) (?L(n := Suc l)) {}"
    using assms(2) w data_kb(2) [OF data_set_link, of n l ?s sl]
    by (intro skel_link [OF sk1]) (simp_all add: link_set_link arr(2))
  then have sk2: "skel ?sl2 t (as @ n # bs) (L(n := Suc l)) {}"
    using data_kb(5) [OF data_set_link, of n l ?s sl] by (simp add: arr(1))
  have "link_level key n l preds succs sl = Some (Inr (preds, succs, ?sl2))"
    by (subst link_level.simps) (simp add: link_store_def w cas)
  then show ?thesis using cas sk2 by auto
qed

lemma link_upper_spec:
  assumes "skel sl t (as @ n # bs) (L(n := l)) {}" "m \<le> Suc (top_of sl n)" "l \<le> m"
    and "\<forall>i < m. preds ! i = pred_at sl L as i \<and> succs ! i = succ_at L {} bs t i"
  shows "\<exists>sl'. link_upper key n [l..<m] preds succs sl = Some (Inr sl') \<and>
    skel sl' t (as @ n # bs) (L(n := m)) {} \<and> data sl' = data sl"
  using assms(3,1,2,4)
proof (induction arbitrary: sl rule: inc_induct)
  case base
  then show ?case by simp
next
  case (step l)
  obtain sl1 where sl1: "link_level key n l preds succs sl = Some (Inr (preds, succs, sl1))"
    "skel sl1 t (as @ n # bs) (L(n := Suc l)) {}" "data sl1 = data sl"
    using link_level_spec [OF step.prems(1), of preds succs key] step.hyps step.prems(2,3) by auto
  have "\<exists>sl'. link_upper key n [Suc l..<m] preds succs sl1 = Some (Inr sl') \<and>
    skel sl' t (as @ n # bs) (L(n := m)) {} \<and> data sl' = data sl1"
    using step.prems(2,3) data_kb [OF sl1(3)] by (intro step.IH [OF sl1(2)]) auto
  then show ?case using sl1 step.hyps by (simp add: upt_conv_Cons fun_upd_def)
qed

text \<open>The new node and its value cell, before it is linked.\<close>

definition with_node :: "bytes \<Rightarrow> bytes \<Rightarrow> nat \<Rightarrow> addr \<Rightarrow> addr \<Rightarrow> skiplist \<Rightarrow> skiplist" where
  "with_node key val top_level va n sl = sl\<lparr>sl_vals := (sl_vals sl)(va \<mapsto> val), sl_nodes := (sl_nodes sl)(n \<mapsto>
      \<lparr>nd_key = Fin (key_new key), nd_value = va, nd_top = top_level, nd_links = replicate (Suc top_level) 0\<rparr>)\<rparr>"

lemma with_node_simps:
  "hdr (with_node key val top_level va n sl) = (hdr sl)(n \<mapsto> (Fin (key_new key), va, top_level, Suc top_level))"
  "sl_vals (with_node key val top_level va n sl) = (sl_vals sl)(va \<mapsto> val)"
  "sl_head (with_node key val top_level va n sl) = sl_head sl"
  "sl_max_level (with_node key val top_level va n sl) = sl_max_level sl"
  "sl_len (with_node key val top_level va n sl) = sl_len sl"
  "sl_retired (with_node key val top_level va n sl) = sl_retired sl"
  "kb (with_node key val top_level va n sl) = (kb sl)(n := key)"
  "top_of (with_node key val top_level va n sl) = (top_of sl)(n := top_level)"
  "vptr (with_node key val top_level va n sl) = (vptr sl)(n := va)"
  "pred_at (with_node key val top_level va n sl) = pred_at sl"
  "full (with_node key val top_level va n sl) = (full sl)(n := Suc top_level)"
  "retired_nodes (with_node key val top_level va n sl) = retired_nodes sl"
  "retired_values (with_node key val top_level va n sl) = retired_values sl"
  by (auto simp: with_node_def hdr_def kb_def top_of_def vptr_def pred_at_def full_def fun_eq_iff
      retired_nodes_def retired_values_def)

lemma link_with_node: "a \<noteq> n \<Longrightarrow> link a l (with_node key val top_level va n sl) = link a l sl"
  by (simp add: link_def node_at_def with_node_def)

lemma skel_with_node:
  assumes "skel sl t (as @ bs) (full sl) {}" "key_cut sl key as bs {}" "\<forall>b \<in> set bs. key < kb sl b"
    and "top_level \<le> sl_max_level sl" "va \<noteq> 0" "aligned n" "n \<noteq> 0" "hdr sl n = None"
  shows "skel (with_node key val top_level va n sl) t (as @ n # bs) ((full sl)(n := 0)) {}"
proof (rule skel_add)
  have ne: "a \<noteq> n" if "hdr sl a \<noteq> None" for a using that assms(8) by auto
  show "skel (with_node key val top_level va n sl) t (as @ bs) (full sl) {}"
    using ne by (intro skel_extend [OF assms(1)]) (auto simp: with_node_simps link_with_node)
  have old: "a \<noteq> n" if "a \<in> set (as @ bs)" for a
    using node_okD(3) [OF skelD(2) [OF assms(1) that]] ne by blast
  then show "n \<notin> set (as @ bs)" by blast
  show "node_ok (with_node key val top_level va n sl) n"
    using assms(4-7) by (simp add: node_ok_def with_node_simps)
  show "\<forall>a \<in> set as. kb (with_node key val top_level va n sl) a < kb (with_node key val top_level va n sl) n"
    using assms(2) old by (simp add: with_node_simps key_cut_def)
  show "\<forall>b \<in> set bs. kb (with_node key val top_level va n sl) n < kb (with_node key val top_level va n sl) b"
    using assms(3) old by (simp add: with_node_simps)
qed

lemma accounted_with_node:
  assumes "accounted sl t (as @ bs)" "hdr sl n = None" "sl_vals sl va = None"
  shows "accounted (with_node key val top_level va n sl) t (as @ n # bs)"
proof -
  have A: "distinct (sl_retired sl)" "{a. hdr sl a \<noteq> None} = {sl_head sl, t} \<union> set (as @ bs) \<union> retired_nodes sl"
    "({sl_head sl, t} \<union> set (as @ bs)) \<inter> retired_nodes sl = {}"
    "dom (sl_vals sl) = vptr sl ` (set (as @ bs) \<union> retired_nodes sl) \<union> retired_values sl"
    "vptr sl ` (set (as @ bs) \<union> retired_nodes sl) \<inter> retired_values sl = {}"
    "inj_on (vptr sl) (set (as @ bs) \<union> retired_nodes sl)" "\<forall>a \<in> retired_nodes sl. vptr sl a \<noteq> 0"
    using assms(1) by (simp_all add: accounted_def)
  let ?X = "set (as @ bs) \<union> retired_nodes sl"
  have n: "n \<notin> {sl_head sl, t} \<union> ?X" using A(2) assms(2) by blast
  have va: "va \<notin> vptr sl ` ?X \<union> retired_values sl" using A(4) assms(3) by blast
  have X: "set (as @ n # bs) \<union> retired_nodes sl = insert n ?X" by auto
  have img: "((vptr sl)(n := va)) ` insert n ?X = insert va (vptr sl ` ?X)" using n by auto
  have inj: "inj_on ((vptr sl)(n := va)) (insert n ?X)"
    using A(6) n va by (auto simp: inj_on_def)
  have "{a. ((hdr sl)(n \<mapsto> x)) a \<noteq> None} = insert n {a. hdr sl a \<noteq> None}" for x
    by (auto simp del: not_None_eq)
  then have h: "{a. ((hdr sl)(n \<mapsto> x)) a \<noteq> None} = {sl_head sl, t} \<union> set (as @ n # bs) \<union> retired_nodes sl" for x
    using A(2) by auto
  have r: "\<forall>a \<in> retired_nodes sl. ((vptr sl)(n := va)) a \<noteq> 0" using A(7) n by auto
  have d: "({sl_head sl, t} \<union> set (as @ n # bs)) \<inter> retired_nodes sl = {}" using A(3) n by auto
  have v: "dom ((sl_vals sl)(va \<mapsto> val)) = insert va (vptr sl ` ?X) \<union> retired_values sl" using A(4) by simp
  have e: "insert va (vptr sl ` ?X) \<inter> retired_values sl = {}" using A(5) va by auto
  show ?thesis
    unfolding accounted_def with_node_simps X img by (intro conjI A(1) h d v e inj r)
qed

lemma entries_with_node:
  assumes "skel sl t (as @ bs) L {}" "hdr sl n = None" "sl_vals sl va = None"
  shows "entries (with_node key val top_level va n sl) (as @ n # bs) = entries sl as @ (key, val) # entries sl bs"
proof -
  have "a \<noteq> n \<and> vptr sl a \<noteq> va" if "a \<in> set (as @ bs)" for a
    using skelD(2) [OF assms(1) that] assms(2,3) by (auto simp: node_ok_def vptr_def)
  then show ?thesis by (auto simp: entries_def with_node_simps value_of_def)
qed

lemma data_entries:
  assumes "data sl' = data sl"
  shows "entries sl' = entries sl" "accounted sl' = accounted sl" "full sl' = full sl"
proof -
  note E = data_eqD [OF assms] data_kb(1,2) [OF assms]
  have v: "vptr sl' = vptr sl" and r: "retired_nodes sl' = retired_nodes sl" "retired_values sl' = retired_values sl"
    by (simp_all add: vptr_def fun_eq_iff retired_nodes_def retired_values_def E)
  show "entries sl' = entries sl" "full sl' = full sl"
    by (simp_all add: fun_eq_iff entries_def value_of_def full_def v E)
  show "accounted sl' = accounted sl" unfolding accounted_def [abs_def] by (simp only: v r E)
qed

lemma len_update:
  "skel sl t xs L D \<Longrightarrow> skel (sl\<lparr>sl_len := x\<rparr>) t xs L D"
  "accounted (sl\<lparr>sl_len := x\<rparr>) = accounted sl" "entries (sl\<lparr>sl_len := x\<rparr>) = entries sl"
  "full (sl\<lparr>sl_len := x\<rparr>) = full sl" "kb (sl\<lparr>sl_len := x\<rparr>) = kb sl"
proof -
  have h: "hdr (sl\<lparr>sl_len := x\<rparr>) = hdr sl" by (simp add: hdr_def fun_eq_iff)
  have l: "link a m (sl\<lparr>sl_len := x\<rparr>) = link a m sl" for a m by (simp add: link_def node_at_def)
  show "skel sl t xs L D \<Longrightarrow> skel (sl\<lparr>sl_len := x\<rparr>) t xs L D" by (erule skel_extend) (simp_all add: h l)
  have v: "vptr (sl\<lparr>sl_len := x\<rparr>) = vptr sl" "retired_nodes (sl\<lparr>sl_len := x\<rparr>) = retired_nodes sl"
    "retired_values (sl\<lparr>sl_len := x\<rparr>) = retired_values sl" and k: "kb (sl\<lparr>sl_len := x\<rparr>) = kb sl"
    by (simp_all add: vptr_def fun_eq_iff retired_nodes_def retired_values_def kb_def h)
  then show "kb (sl\<lparr>sl_len := x\<rparr>) = kb sl" "entries (sl\<lparr>sl_len := x\<rparr>) = entries sl" "full (sl\<lparr>sl_len := x\<rparr>) = full sl"
    by (simp_all add: fun_eq_iff entries_def full_def value_of_def top_of_def h)
  show "accounted (sl\<lparr>sl_len := x\<rparr>) = accounted sl"
    unfolding accounted_def [abs_def] by (simp add: v h)
qed

text \<open>Linking an allocated node: the bottom level first, then the upper levels.\<close>

lemma link_node:
  assumes "skel sl t (as @ n # bs) (L(n := 0)) {}" "found_arrays sl L {} as bs t m preds succs" "top_of sl n < m"
  shows "\<exists>sl1 sl2 sl3.
    store_tower n succs [0..<Suc (top_of sl n)] sl = Inr sl1 \<and>
    link_cas (preds ! 0) 0 (succs ! 0) n False False sl1 = Inr (True, sl2) \<and>
    link_upper key n [1..<Suc (top_of sl n)] preds succs sl2 = Some (Inr sl3) \<and>
    skel sl3 t (as @ n # bs) (L(n := Suc (top_of sl n))) {} \<and> data sl3 = data sl"
proof -
  let ?tp = "top_of sl n"
  obtain sl1 where sl1: "store_tower n succs [0..<Suc ?tp] sl = Inr sl1"
    "skel sl1 t (as @ n # bs) (L(n := 0)) {}" "data sl1 = data sl" "link n 0 sl1 = Inr (succs ! 0)"
    using store_tower_spec [OF assms(1), of n "[0..<Suc ?tp]" succs] by (auto simp del: upt_Suc)
  note K1 = data_kb [OF sl1(3)]
  have arr: "preds ! i = pred_at sl L as i \<and> succs ! i = succ_at L {} bs t i" if "i < m" for i
    using assms(2) that by (simp add: found_arrays_def)
  have pos: "0 < m" using assms(3) by simp
  have "preds ! 0 = pred_at sl1 L as 0" "succs ! 0 = succ_at L {} bs t 0" using arr [OF pos] K1(5) by auto
  from link_level_spec [OF sl1(2) _ this, of key]
  obtain sl2 where "link_cas (preds ! 0) 0 (succs ! 0) n False False (set_link n 0 (succs ! 0) sl1) = Inr (True, sl2)"
    "skel sl2 t (as @ n # bs) (L(n := 1)) {}" "data sl2 = data sl1"
    by auto
  then have sl2: "link_cas (preds ! 0) 0 (succs ! 0) n False False sl1 = Inr (True, sl2)"
    "skel sl2 t (as @ n # bs) (L(n := 1)) {}" "data sl2 = data sl"
    using set_link_same [OF sl1(4)] sl1(3) by simp_all
  note K2 = data_kb [OF sl2(3)]
  have "\<exists>sl3. link_upper key n [1..<Suc ?tp] preds succs sl2 = Some (Inr sl3) \<and>
    skel sl3 t (as @ n # bs) (L(n := Suc ?tp)) {} \<and> data sl3 = data sl2"
    using arr assms(3) K2 by (intro link_upper_spec [OF sl2(2)]) auto
  then show ?thesis using sl1(1) sl2(1,3) by auto
qed

text \<open>The search of \<open>insert\<close> and \<open>remove\<close> in a settled list leaves it as it is.\<close>

lemma find_settled:
  assumes "settled sl t (as @ bs)" "key_cut sl key as bs {}" "length preds = MAX_HEIGHT" "length succs = MAX_HEIGHT"
  obtains preds' succs' where
    "find_key key preds succs sl = Some (Inr (bs \<noteq> [] \<and> kb sl (hd bs) = key, preds', succs', sl))"
    "found_arrays sl (full sl) {} as bs t (Suc (sl_max_level sl)) preds' succs'"
    "succs' ! 0 = hd (bs @ [t])"
proof -
  note S = assms(1) [unfolded settled_def, THEN conjunct1]
  have "kb sl (hd (bs @ [t])) = key \<and> hd (bs @ [t]) \<noteq> t \<longleftrightarrow> bs \<noteq> [] \<and> kb sl (hd bs) = key"
    using skel_distinct [OF S] by (cases bs) auto
  with find_key_spec [OF S assms(2-4)] obtain preds' succs' where f:
    "find_key key preds succs sl = Some (Inr (bs \<noteq> [] \<and> kb sl (hd bs) = key, preds', succs', sl))"
    "found_arrays sl (full sl) {} as bs t (Suc (sl_max_level sl)) preds' succs'"
    by (auto simp: succ_at_full)
  moreover have "succs' ! 0 = hd (bs @ [t])" using f(2) by (auto simp: found_arrays_def succ_at_full)
  ultimately show thesis using that by blast
qed

lemma insert_new:
  assumes "settled sl t (as @ bs)" "key_cut sl key as bs {}" "\<not> (bs \<noteq> [] \<and> kb sl (hd bs) = key)"
    and "allocator al" "top_level \<le> sl_max_level sl" "length preds = MAX_HEIGHT" "length succs = MAX_HEIGHT"
  shows "(insert_loop al key val top_level preds succs sl = Some (Inl Abort) \<and> refuses al val sl) \<or>
    (\<exists>n sl'. insert_loop al key val top_level preds succs sl = Some (Inr (True, sl')) \<and>
       settled sl' t (as @ n # bs) \<and> sl_max_level sl' = sl_max_level sl \<and>
       entries sl' (as @ n # bs) = entries sl as @ (key, val) # entries sl bs)"
proof -
  obtain preds' succs' where f0:
    "find_key key preds succs sl = Some (Inr (bs \<noteq> [] \<and> kb sl (hd bs) = key, preds', succs', sl))"
    "found_arrays sl (full sl) {} as bs t (Suc (sl_max_level sl)) preds' succs'"
    by (rule find_settled [OF assms(1,2,6,7)])
  have "(bs \<noteq> [] \<and> kb sl (hd bs) = key) = False" using assms(3) by blast
  note f = f0 [unfolded this]
  define va sl1 n where "va = al sl" and "sl1 = sl\<lparr>sl_vals := (sl_vals sl)(va \<mapsto> val)\<rparr>" and "n = al sl1"
  show ?thesis
  proof (cases "va = 0 \<or> n = 0")
    case True
    then have "insert_loop al key val top_level preds succs sl = Some (Inl Abort)"
      by (subst insert_loop.simps) (auto simp: f(1) value_new_def node_new_def Let_def va_def n_def sl1_def)
    then show ?thesis using True unfolding refuses_def va_def n_def sl1_def by blast
  next
    case False
    have fr: "fresh sl va" "fresh sl1 n"
      using assms(4) False by (auto simp: allocator_def va_def n_def)
    let ?w = "with_node key val top_level va n sl"
    have h: "hdr sl n = None" "sl_vals sl va = None"
      using fr by (auto simp: fresh_def hdr_def sl1_def)
    note S = assms(1) [unfolded settled_def]
    have gt: "\<forall>b \<in> set bs. key < kb sl b" by (rule sorted_cut_tail [OF settled_sorted [OF assms(1)] assms(2,3)])
    have sk: "skel ?w t (as @ n # bs) ((full sl)(n := 0)) {}"
      using skel_with_node [OF _ assms(2) gt assms(5) _ fresh_aligned [OF fr(2)] _ h(1)] S False by blast
    have arr: "found_arrays ?w (full sl) {} as bs t (Suc (sl_max_level sl)) preds' succs'"
      using f(2) by (simp add: found_arrays_def with_node_simps)
    have top: "top_of ?w n = top_level" by (simp add: with_node_simps)
    obtain sl2 sl3 sl4 where link: "store_tower n succs' [0..<Suc top_level] ?w = Inr sl2"
      "link_cas (preds' ! 0) 0 (succs' ! 0) n False False sl2 = Inr (True, sl3)"
      "link_upper key n [1..<Suc top_level] preds' succs' sl3 = Some (Inr sl4)"
      "skel sl4 t (as @ n # bs) ((full sl)(n := Suc top_level)) {}" "data sl4 = data ?w"
      using link_node [OF sk arr, of key] assms(5) top by auto
    let ?r = "sl4\<lparr>sl_len := sl_len sl4 + 1\<rparr>"
    have nn: "node_new al (Fin (key_new key)) va top_level sl1 = Inr (n, ?w)"
      using False by (simp add: node_new_def Let_def n_def with_node_def) (simp add: sl1_def)
    have vn: "value_new al val sl = Inr (va, sl1)"
      using False by (simp add: value_new_def Let_def va_def sl1_def)
    have run: "insert_loop al key val top_level preds succs sl = Some (Inr (True, ?r))"
      by (subst insert_loop.simps) (simp add: f(1) vn nn link(1,2) link(3) [unfolded One_nat_def] del: upt_Suc)
    note E = data_entries [OF link(5)] data_eqD [OF link(5)]
    have "settled ?r t (as @ n # bs)"
      unfolding settled_def
    proof (intro conjI)
      show "skel ?r t (as @ n # bs) (full ?r) {}"
        using len_update(1) [OF link(4)] by (simp add: len_update(4) E with_node_simps del: fun_upd_apply)
      show "accounted ?r t (as @ n # bs)"
        using accounted_with_node [OF _ h, of t as bs] S by (simp add: len_update(2) E)
      show "sl_len ?r = of_nat (length (as @ n # bs))" using S by (simp add: E with_node_simps)
    qed
    moreover have "entries ?r (as @ n # bs) = entries sl as @ (key, val) # entries sl bs"
      using entries_with_node [OF S [THEN conjunct1] h] by (simp add: len_update(3) E)
    ultimately show ?thesis using run E by (auto simp: with_node_simps)
  qed
qed

subsection \<open>Overwriting a value\<close>

text \<open>The node \<open>n\<close> with a new value cell, its old one retired.\<close>

definition with_value :: "addr \<Rightarrow> addr \<Rightarrow> bytes \<Rightarrow> skiplist \<Rightarrow> skiplist" where
  "with_value n va val sl =
     sl\<lparr>sl_vals := (sl_vals sl)(va \<mapsto> val),
        sl_nodes := (sl_nodes sl)(n := map_option (nd_value_update (\<lambda>_. va)) (sl_nodes sl n)),
        sl_retired := sl_retired sl @ [RValue (vptr sl n)]\<rparr>"

lemma with_value_simps:
  "hdr (with_value n va val sl) = (hdr sl)(n := map_option (\<lambda>(k, v, r). (k, va, r)) (hdr sl n))"
  "sl_vals (with_value n va val sl) = (sl_vals sl)(va \<mapsto> val)"
  "sl_head (with_value n va val sl) = sl_head sl"
  "sl_max_level (with_value n va val sl) = sl_max_level sl"
  "sl_len (with_value n va val sl) = sl_len sl"
  "sl_retired (with_value n va val sl) = sl_retired sl @ [RValue (vptr sl n)]"
  "kb (with_value n va val sl) = kb sl" "top_of (with_value n va val sl) = top_of sl"
  "full (with_value n va val sl) = full sl"
  "link a l (with_value n va val sl) = link a l sl"
  "retired_nodes (with_value n va val sl) = retired_nodes sl"
  "retired_values (with_value n va val sl) = insert (vptr sl n) (retired_values sl)"
  by (auto simp: with_value_def hdr_def kb_def top_of_def full_def fun_eq_iff link_def node_at_def
      retired_nodes_def retired_values_def option.map_comp comp_def
      split: option.splits bound_key.splits)

lemma vptr_with_value:
  "hdr sl n \<noteq> None \<Longrightarrow> vptr (with_value n va val sl) = (vptr sl)(n := va)"
  by (auto simp: vptr_def with_value_simps fun_eq_iff)

lemma skel_with_value:
  assumes "skel sl t xs L {}" "n \<in> set xs" "va \<noteq> 0"
  shows "skel (with_value n va val sl) t xs L {}"
proof -
  note S = skelD [OF assms(1)]
  have ne: "n \<noteq> sl_head sl" "n \<noteq> t" using skel_distinct [OF assms(1)] assms(2) by auto
  have "sentinels (with_value n va val sl) t" using S(1) ne by (simp add: sentinels_def with_value_simps)
  moreover have "node_ok (with_value n va val sl) a" if "a \<in> set xs" for a
  proof -
    note ok = S(2) [OF that]
    obtain k v tp where "aligned a" "a \<noteq> 0" "hdr sl a = Some (Fin k, v, tp, Suc tp)" "v \<noteq> 0" "sl_vals sl v \<noteq> None"
      "tp \<le> sl_max_level sl" using ok by (auto simp: node_ok_def)
    then show ?thesis
      using assms(3) unfolding node_ok_def with_value_simps
      by (intro conjI exI [of _ k] exI [of _ "if a = n then va else v"] exI [of _ tp]) auto
  qed
  moreover have "lpath (with_value n va val sl) l {} a ys t = lpath sl l {} a ys t" for l a ys
    by (intro lpath_cong) (simp add: with_value_simps)
  ultimately show ?thesis using S by (simp add: skel_def with_value_simps)
qed

lemma accounted_with_value:
  assumes "accounted sl t xs" "n \<in> set xs" "hdr sl n \<noteq> None" "sl_vals sl va = None"
  shows "accounted (with_value n va val sl) t xs"
proof -
  let ?X = "set xs \<union> retired_nodes sl"
  have A: "distinct (sl_retired sl)" "{a. hdr sl a \<noteq> None} = {sl_head sl, t} \<union> set xs \<union> retired_nodes sl"
    "({sl_head sl, t} \<union> set xs) \<inter> retired_nodes sl = {}"
    "dom (sl_vals sl) = vptr sl ` ?X \<union> retired_values sl" "vptr sl ` ?X \<inter> retired_values sl = {}"
    "inj_on (vptr sl) ?X" "\<forall>a \<in> retired_nodes sl. vptr sl a \<noteq> 0"
    using assms(1) by (simp_all add: accounted_def)
  have n: "n \<in> ?X" "n \<notin> retired_nodes sl" using A(3) assms(2) by auto
  have va: "va \<notin> vptr sl ` ?X" "va \<notin> retired_values sl" using A(4) assms(4) by blast+
  have img: "((vptr sl)(n := va)) ` ?X = insert va (vptr sl ` ?X - {vptr sl n})"
    using A(6) n(1) by (auto simp: inj_on_def)
  have 1: "distinct (sl_retired sl @ [RValue (vptr sl n)])"
    using A(1,5) n(1) by (auto simp: retired_values_def)
  have 2: "{a. ((hdr sl)(n := map_option (\<lambda>(k, v, r). (k, va, r)) (hdr sl n))) a \<noteq> None} =
      {sl_head sl, t} \<union> set xs \<union> retired_nodes sl"
    using A(2) assms(3) by (auto simp del: not_None_eq)
  have 3: "dom ((sl_vals sl)(va \<mapsto> val)) = insert va (vptr sl ` ?X - {vptr sl n}) \<union> insert (vptr sl n) (retired_values sl)"
    using A(4) n(1) by auto
  have 4: "insert va (vptr sl ` ?X - {vptr sl n}) \<inter> insert (vptr sl n) (retired_values sl) = {}"
    using A(5) va n(1) by auto
  have 5: "inj_on ((vptr sl)(n := va)) ?X" using A(6) va(1) by (auto simp: inj_on_def)
  have 6: "\<forall>a \<in> retired_nodes sl. ((vptr sl)(n := va)) a \<noteq> 0" using A(7) n(2) by auto
  show ?thesis
    unfolding accounted_def with_value_simps vptr_with_value [OF assms(3)] img
    by (intro conjI 1 2 A(3) 3 4 5 6)
qed

lemma entries_with_value:
  assumes "skel sl t (as @ n # bs) L {}" "accounted sl t (as @ n # bs)" "sl_vals sl va = None"
  shows "entries (with_value n va val sl) (as @ n # bs) = entries sl as @ (kb sl n, val) # entries sl bs"
proof -
  have n: "hdr sl n \<noteq> None" using node_okD(3) [OF skelD(2) [OF assms(1), of n]] by simp
  have "a \<noteq> n \<and> vptr sl a \<noteq> va" if "a \<in> set (as @ bs)" for a
    using skelD(2) [OF assms(1), of a] that assms(3) skel_distinct [OF assms(1)]
    by (auto simp: node_ok_def vptr_def)
  then show ?thesis
    by (auto simp: entries_def value_of_def vptr_with_value [OF n]) (auto simp: with_value_simps)
qed

lemma insert_update:
  assumes "settled sl t (as @ n # bs)" "key_cut sl key as (n # bs) {}" "kb sl n = key"
    and "allocator al" "length preds = MAX_HEIGHT" "length succs = MAX_HEIGHT"
  shows "(insert_loop al key val top_level preds succs sl = Some (Inl Abort) \<and> refuses al val sl) \<or>
    (\<exists>sl'. insert_loop al key val top_level preds succs sl = Some (Inr (False, sl')) \<and>
       settled sl' t (as @ n # bs) \<and> sl_max_level sl' = sl_max_level sl \<and>
       entries sl' (as @ n # bs) = entries sl as @ (key, val) # entries sl bs)"
proof -
  obtain preds' succs' where f:
    "find_key key preds succs sl = Some (Inr (n # bs \<noteq> [] \<and> kb sl (hd (n # bs)) = key, preds', succs', sl))"
    "succs' ! 0 = hd ((n # bs) @ [t])"
    by (rule find_settled [OF assms(1,2,5,6)])
  define va where "va = al sl"
  show ?thesis
  proof (cases "va = 0")
    case True
    then have "insert_loop al key val top_level preds succs sl = Some (Inl Abort)"
      by (subst insert_loop.simps) (auto simp: f(1) value_new_def Let_def va_def)
    then show ?thesis using True unfolding refuses_def va_def by blast
  next
    case False
    have fr: "sl_vals sl va = None" using assms(4) False by (auto simp: allocator_def fresh_def va_def)
    note S = assms(1) [unfolded settled_def]
    have "node_ok sl n" using skelD(2) [OF S [THEN conjunct1], of n] by simp
    then have n: "hdr sl n \<noteq> None" "vptr sl n \<noteq> 0" by (auto simp: node_ok_def vptr_def)
    let ?sl1 = "sl\<lparr>sl_vals := (sl_vals sl)(va \<mapsto> val)\<rparr>" and ?w = "with_value n va val sl"
    have "value_new al val sl = Inr (va, ?sl1)" using False by (simp add: value_new_def Let_def va_def)
    moreover have "swap_value n va ?sl1 = Inr ?w"
      using n by (auto simp: swap_value_def node_at_def hdr_def vptr_def with_value_def guard_retire_def Let_def)
    ultimately have "insert_loop al key val top_level preds succs sl = Some (Inr (False, ?w))"
      using f assms(3) by (subst insert_loop.simps) simp
    moreover have "settled ?w t (as @ n # bs)"
      using S skel_with_value [of sl t "as @ n # bs" "full sl" n va] accounted_with_value [OF _ _ n(1) fr] False
      by (simp add: settled_def with_value_simps)
    moreover have "entries ?w (as @ n # bs) = entries sl as @ (key, val) # entries sl bs"
      using entries_with_value [OF _ _ fr] S assms(3) by blast
    ultimately show ?thesis by (simp add: with_value_simps)
  qed
qed

end
