(* ===== verification/SkipListMap.thy ===== *)
theory SkipListMap
  imports SkipListOps
begin

text \<open>
  The operations of the skip list as operations of a finite map, its construction, the freeing of
  retired objects and the teardown; then the interpretation of the index interface and the
  properties.
\<close>

section \<open>Insertion as a map update\<close>

lemma random_level_le: "fst (random_level rng sl) \<le> sl_max_level sl"
  using level_loop_bounds [of 1 "fst (xorshift_next rng)" "Suc (sl_max_level sl)"]
  by (auto simp: random_level_def random_geometric_level_def split: prod.splits)

lemma map_of_middle:
  "key \<notin> fst ` set ea \<Longrightarrow> map_of (ea @ (key, v) # eb) = (map_of (ea @ eb))(key \<mapsto> v)"
  by (induction ea) (auto simp: fun_eq_iff)

lemma map_of_without:
  "key \<notin> fst ` set ea \<Longrightarrow> key \<notin> fst ` set eb \<Longrightarrow>
    map_of (ea @ eb) = (map_of (ea @ (key, v) # eb))(key := None)"
proof -
  assume a: "key \<notin> fst ` set ea" "key \<notin> fst ` set eb"
  then have "map_of (ea @ eb) key = None" by (subst map_of_eq_None_iff) auto
  then have "(map_of (ea @ eb))(key \<mapsto> v, key := None) = map_of (ea @ eb)" by (simp only: fun_upd_upd fun_upd_idem)
  then show ?thesis by (subst map_of_middle [OF a(1)]) (rule sym)
qed

lemma key_cut_entries: "key_cut sl key as bs D \<Longrightarrow> key \<notin> fst ` set (entries sl as)"
  by (auto simp: key_cut_def entries_def)

lemma entries_append [simp]: "entries sl (as @ bs) = entries sl as @ entries sl bs"
  "entries sl (a # bs) = (kb sl a, value_of sl a) # entries sl bs"
  by (simp_all add: entries_def)

lemma insert_spec:
  assumes "settled sl t xs" "allocator al"
  shows "(sl_insert al rng key val sl = Some (Inl Abort) \<and> refuses al val sl) \<or>
    (\<exists>xs' sl'. sl_insert al rng key val sl =
         Some (Inr (map_of (entries sl xs) key = None, snd (random_level rng sl), sl')) \<and>
       settled sl' t xs' \<and> map_of (entries sl' xs') = (map_of (entries sl xs))(key \<mapsto> val) \<and>
       sl_max_level sl' = sl_max_level sl)"
proof -
  obtain as bs where xs: "xs = as @ bs" and cut: "key_cut sl key as bs {}"
    using key_cut_exists [OF settled_sorted [OF assms(1)]] by blast
  note lk = settled_lookup [OF assms(1) [unfolded xs] cut]
  have na: "length null_array = MAX_HEIGHT" by simp
  obtain lvl rng' where r: "random_level rng sl = (lvl, rng')" by fastforce
  then have lvl: "lvl \<le> sl_max_level sl" using random_level_le [of rng sl] by simp
  have run: "sl_insert al rng key val sl =
      run_bind (insert_loop al key val lvl null_array null_array sl) (\<lambda>(new, sl'). Some (Inr (new, rng', sl')))"
    by (simp add: sl_insert_def r)
  let ?loop = "insert_loop al key val lvl null_array null_array sl"
  have abort: ?thesis if "?loop = Some (Inl Abort)" "refuses al val sl" using that by (simp add: run)
  have fin: ?thesis if "?loop = Some (Inr (map_of (entries sl xs) key = None, sl'))" "settled sl' t xs'"
    "map_of (entries sl' xs') = (map_of (entries sl xs))(key \<mapsto> val)" "sl_max_level sl' = sl_max_level sl" for sl' xs'
    by (intro disjI2 exI [of _ xs'] exI [of _ sl'] conjI that(2-4)) (simp add: run r that(1))
  have mid: "map_of (entries sl as @ (key, val) # eb) = (map_of (entries sl as @ eb))(key \<mapsto> val)" for eb
    by (rule map_of_middle [OF key_cut_entries [OF cut]])
  show ?thesis
  proof (cases "bs \<noteq> [] \<and> kb sl (hd bs) = key")
    case True
    then obtain n bs' where bs: "bs = n # bs'" "kb sl n = key" by (cases bs) auto
    have upd: "map_of (entries sl as @ (key, val) # entries sl bs') = (map_of (entries sl xs))(key \<mapsto> val)"
    proof -
      have "entries sl xs = entries sl as @ (key, value_of sl n) # entries sl bs'" by (simp add: xs bs)
      then show ?thesis by (simp only: map_of_middle [OF key_cut_entries [OF cut]] fun_upd_upd)
    qed
    have "(map_of (entries sl xs) key = None) = False" using lk True xs by simp
    note b = this
    from insert_update [OF assms(1) [unfolded xs bs(1)] cut [unfolded bs(1)] bs(2) assms(2) na na, of val lvl]
    show ?thesis
    proof (elim disjE exE conjE)
      fix sl' assume "?loop = Some (Inr (False, sl'))" "settled sl' t (as @ n # bs')"
        "sl_max_level sl' = sl_max_level sl"
        "entries sl' (as @ n # bs') = entries sl as @ (key, val) # entries sl bs'"
      then show ?thesis using b upd by (intro fin [of sl' "as @ n # bs'"]) (simp_all only:)
    qed (rule abort, auto)
  next
    case False
    have "(map_of (entries sl xs) key = None) = True" using lk False xs by simp
    moreover have "map_of (entries sl as @ (key, val) # entries sl bs) = (map_of (entries sl xs))(key \<mapsto> val)"
      by (simp only: mid xs entries_append)
    note b = calculation this
    from insert_new [OF assms(1) [unfolded xs] cut False assms(2) lvl na na, of val]
    show ?thesis
    proof (elim disjE exE conjE)
      fix n sl' assume "?loop = Some (Inr (True, sl'))" "settled sl' t (as @ n # bs)"
        "sl_max_level sl' = sl_max_level sl"
        "entries sl' (as @ n # bs) = entries sl as @ (key, val) # entries sl bs"
      then show ?thesis using b by (intro fin [of sl' "as @ n # bs"]) (simp_all only:)
    qed (rule abort, auto)
  qed
qed

section \<open>Removal\<close>

lemma unmarked_ptr: "\<not> mark_of w \<Longrightarrow> aligned w"
  by (simp add: mark_of_bit aligned_bit)

lemma aligned_ptr_of [simp]: "aligned (ptr_of w)"
  by (simp add: aligned_bit ptr_of_def bit_simps)

lemma mark_level_marked: "link n l sl = Inr w \<Longrightarrow> mark_of w \<Longrightarrow> mark_level n l sl = Some (Inr sl)"
  by (subst mark_level.simps) simp

lemma mark_level_unmarked:
  assumes "link n l sl = Inr w" "\<not> mark_of w"
  shows "mark_level n l sl = Some (Inr (set_link n l (pack w True) sl))"
  using assms unmarked_ptr [OF assms(2)] mark_level_marked [of n l "set_link n l (pack w True) sl" "pack w True"]
  by (subst mark_level.simps) (simp add: attempt_mark_def link_cas_def link_set_link)

lemma mark_upper_spec:
  assumes "distinct ls" "\<forall>l \<in> set ls. link n l sl = Inr (w l) \<and> \<not> mark_of (w l)"
  shows "\<exists>sl'. mark_upper n ls sl = Some (Inr sl') \<and> data sl' = data sl \<and>
    (\<forall>a l. link a l sl' = (if a = n \<and> l \<in> set ls then Inr (pack (w l) True) else link a l sl))"
  using assms
proof (induction ls arbitrary: sl)
  case (Cons l ls)
  let ?sl = "set_link n l (pack (w l) True) sl"
  have step: "mark_upper n (l # ls) sl = mark_upper n ls ?sl"
    using Cons.prems(2) mark_level_unmarked [of n l sl "w l"] by simp
  have "\<exists>sl'. mark_upper n ls ?sl = Some (Inr sl') \<and> data sl' = data ?sl \<and>
    (\<forall>a m. link a m sl' = (if a = n \<and> m \<in> set ls then Inr (pack (w m) True) else link a m ?sl))"
    using Cons.prems by (intro Cons.IH) (auto simp: link_set_link)
  then show ?case using Cons.prems unfolding step by (auto simp: link_set_link)
qed simp

lemma mark_bottom_unmarked:
  assumes "link n 0 sl = Inr w" "\<not> mark_of w"
  shows "mark_bottom n (ptr_of w) sl = Some (Inr (True, set_link n 0 (pack w True) sl))"
  using assms unmarked_ptr [OF assms(2)]
  by (subst mark_bottom.simps) (simp add: link_cas_def link_set_link)

text \<open>Marking every level of a node marks it in every chain.\<close>

lemma lpath_mark:
  assumes "lpath sl l {} a ys b"
    and "\<forall>x \<in> set (a # ys). \<forall>w. link x l sl = Inr w \<longrightarrow> link x l sl' = Inr (pack w (x = n))"
  shows "lpath sl' l {n} a ys b"
  using assms by (induction ys arbitrary: a) auto

lemma skel_mark:
  assumes "skel sl t xs L {}" "n \<in> set xs" "data sl' = data sl"
    and "\<forall>a l. link a l sl' = (if a = n \<and> l \<le> top_of sl n then Inr (pack (w l) True) else link a l sl)"
    and "\<forall>l \<le> top_of sl n. link n l sl = Inr (w l)"
  shows "skel sl' t xs L {n}"
proof -
  note S = skelD [OF assms(1)] and K = data_kb [OF assms(3)] and E = data_eqD [OF assms(3)]
  have nt: "n \<noteq> t" using skel_distinct [OF assms(1)] assms(2) by auto
  have "lpath sl' l {n} (sl_head sl) (filter (\<lambda>a. l < L a) xs) t" if l: "l < MAX_HEIGHT" for l
  proof (rule lpath_mark [OF S(6) [OF l]], intro ballI allI impI)
    fix x v assume x: "x \<in> set (sl_head sl # filter (\<lambda>a. l < L a) xs)" and v: "link x l sl = Inr v"
    show "link x l sl' = Inr (pack v (x = n))"
    proof (cases "x = n")
      case True
      then have "l < L n" using x skel_distinct [OF assms(1)] assms(2) by auto
      then have "l \<le> top_of sl n" using S(3) [OF assms(2)] by simp
      then show ?thesis using True v assms(4,5) by auto
    qed (use v assms(4) in auto)
  qed
  moreover have "sentinels sl' t" using S(1) nt assms(4) sentinels_cong [OF assms(3), of t] by simp
  ultimately show ?thesis using S(2-4) K E assms(2) by (simp add: skel_def)
qed

text \<open>A node that is linked nowhere can be forgotten.\<close>

lemma skel_forget:
  assumes "skel sl t (as @ n # bs) L {n}" "L n = 0" "\<And>a. a \<in> set (as @ bs) \<Longrightarrow> L' a = L a"
  shows "skel sl t (as @ bs) L' {}"
proof -
  note S = skelD [OF assms(1)] and dist = skel_distinct [OF assms(1)]
  have f: "filter (\<lambda>a. l < L' a) (as @ bs) = filter (\<lambda>a. l < L a) (as @ n # bs)" for l
    using assms(2,3) by (simp, intro arg_cong2 [of _ _ _ _ append] filter_cong) auto
  have "lpath sl l {} (sl_head sl) (filter (\<lambda>a. l < L' a) (as @ bs)) t" if "l < MAX_HEIGHT" for l
  proof -
    have "lpath sl l {} (sl_head sl) (filter (\<lambda>a. l < L' a) (as @ bs)) t =
        lpath sl l {n} (sl_head sl) (filter (\<lambda>a. l < L' a) (as @ bs)) t"
      using dist by (intro lpath_cong) auto
    then show ?thesis using S(6) [OF that] f by simp
  qed
  moreover have "sorted_wrt (\<lambda>a b. kb sl a < kb sl b) (as @ bs)" using S(4) by (auto simp: sorted_wrt_append)
  ultimately show ?thesis using S(1-3) assms(3) by (auto simp: skel_def)
qed

lemma accounted_retire:
  assumes "accounted sl t (as @ n # bs)" "skel sl t (as @ n # bs) L D"
  shows "accounted (guard_retire (RNode n) sl) t (as @ bs)"
proof -
  let ?sl = "guard_retire (RNode n) sl"
  have sets: "retired_nodes ?sl = insert n (retired_nodes sl)" "retired_values ?sl = retired_values sl"
    "hdr ?sl = hdr sl" "vptr ?sl = vptr sl"
    by (auto simp: retired_nodes_def retired_values_def guard_retire_def hdr_def vptr_def fun_eq_iff)
  have X: "set (as @ bs) \<union> insert n (retired_nodes sl) = set (as @ n # bs) \<union> retired_nodes sl" by auto
  have n: "RNode n \<notin> set (sl_retired sl)" "vptr sl n \<noteq> 0"
    using assms(1) skelD(2) [OF assms(2), of n] by (auto simp: accounted_def retired_nodes_def node_ok_def vptr_def)
  have 1: "distinct (sl_retired ?sl)" using assms(1) n(1) by (simp add: accounted_def guard_retire_def)
  have 2: "{a. hdr sl a \<noteq> None} = {sl_head sl, t} \<union> set (as @ bs) \<union> insert n (retired_nodes sl)"
    using assms(1) unfolding accounted_def by auto
  have 3: "({sl_head sl, t} \<union> set (as @ bs)) \<inter> insert n (retired_nodes sl) = {}"
    using assms(1) skel_distinct [OF assms(2)] unfolding accounted_def by auto
  have f: "sl_head ?sl = sl_head sl" "sl_vals ?sl = sl_vals sl" by (simp_all add: guard_retire_def)
  show ?thesis
    using assms(1) n(2) unfolding accounted_def sets X f by (intro conjI 1 2 3) blast+
qed

lemma retire_fields:
  "skel sl t xs L D \<Longrightarrow> skel (guard_retire r sl) t xs L D" "entries (guard_retire r sl) = entries sl"
  "full (guard_retire r sl) = full sl"
proof -
  have h: "hdr (guard_retire r sl) = hdr sl" by (simp add: hdr_def guard_retire_def fun_eq_iff)
  have l: "link a m (guard_retire r sl) = link a m sl" for a m by (simp add: link_def node_at_def guard_retire_def)
  show "skel sl t xs L D \<Longrightarrow> skel (guard_retire r sl) t xs L D"
    by (erule skel_extend) (simp_all add: h l, simp_all add: guard_retire_def)
  show "entries (guard_retire r sl) = entries sl" "full (guard_retire r sl) = full sl"
    by (simp_all add: fun_eq_iff entries_def value_of_def kb_def vptr_def full_def top_of_def h)
      (simp add: guard_retire_def)
qed

lemma settled_link_word:
  assumes "skel sl t xs (full sl) {}" "n \<in> set xs" "l \<le> top_of sl n"
  shows "\<exists>w. link n l sl = Inr w \<and> \<not> mark_of w"
proof -
  have "top_of sl n < MAX_HEIGHT"
    using node_okD(6) [OF skelD(2) [OF assms(1,2)]] sentinelsD(8) [OF skelD(1) [OF assms(1)]] by simp
  then have "n \<in> set (sl_head sl # filter (\<lambda>a. l < full sl a) xs)" "l < MAX_HEIGHT"
    using assms(2,3) by (auto simp: full_def)
  then obtain y where y: "y \<in> set (filter (\<lambda>a. l < full sl a) xs @ [t])" "link n l sl = Inr (pack y False)"
    using lpath_link [OF skelD(6) [OF assms(1)]] by fastforce
  then have "aligned y"
    using node_okD(1) [OF skelD(2) [OF assms(1)]] sentinelsD(2) [OF skelD(1) [OF assms(1)]] by auto
  then show ?thesis using y(2) by simp
qed

lemma remove_present:
  assumes "settled sl t (as @ n # bs)" "key_cut sl key as (n # bs) {}" "kb sl n = key"
  shows "\<exists>sl'. sl_remove key sl = Some (Inr (True, sl')) \<and> settled sl' t (as @ bs) \<and>
    entries sl' (as @ bs) = entries sl (as @ bs) \<and> sl_max_level sl' = sl_max_level sl \<and>
    sl_retired sl' = sl_retired sl @ [RNode n]"
proof -
  let ?xs = "as @ n # bs" and ?tp = "top_of sl n"
  note S = assms(1) [unfolded settled_def, THEN conjunct1]
  have na: "length null_array = MAX_HEIGHT" by simp
  have n: "n \<in> set ?xs" "n \<notin> set as" "n \<notin> set bs" using skel_distinct [OF S] by auto
  obtain preds succs where f:
    "find_key key null_array null_array sl = Some (Inr (n # bs \<noteq> [] \<and> kb sl (hd (n # bs)) = key, preds, succs, sl))"
    "found_arrays sl (full sl) {} as (n # bs) t (Suc (sl_max_level sl)) preds succs" "succs ! 0 = n"
    using find_settled [OF assms(1,2) na na] by (metis append_Cons list.sel(1))
  have len: "length preds = MAX_HEIGHT" "length succs = MAX_HEIGHT" using f(2) by (auto simp: found_arrays_def)
  obtain w where w: "\<forall>l \<le> ?tp. link n l sl = Inr (w l) \<and> \<not> mark_of (w l)"
    using settled_link_word [OF S n(1)] by metis
  obtain nd where nd: "node_at n sl = Inr nd" "nd_top nd = ?tp"
    using node_okD(3) [OF skelD(2) [OF S n(1)]] by (auto simp: hdr_def node_at_def top_of_def)
  obtain sl1 where sl1: "mark_upper n (rev [1..<Suc ?tp]) sl = Some (Inr sl1)" "data sl1 = data sl"
    "\<forall>a l. link a l sl1 = (if a = n \<and> 1 \<le> l \<and> l < Suc ?tp then Inr (pack (w l) True) else link a l sl)"
    using mark_upper_spec [of "rev [1..<Suc ?tp]" n sl w] w by (auto simp del: upt_Suc)
  have b: "link n 0 sl1 = Inr (w 0)" "\<not> mark_of (w 0)" using sl1(3) w by simp_all
  let ?sl2 = "set_link n 0 (pack (w 0) True) sl1"
  have d2: "data ?sl2 = data sl" using sl1(2) by simp
  have sk2: "skel ?sl2 t ?xs (full sl) {n}"
  proof (rule skel_mark [OF S n(1) d2])
    show "\<forall>a l. link a l ?sl2 = (if a = n \<and> l \<le> ?tp then Inr (pack (w l) True) else link a l sl)"
    proof (intro allI)
      fix a l
      show "link a l ?sl2 = (if a = n \<and> l \<le> ?tp then Inr (pack (w l) True) else link a l sl)"
        using sl1(3) [rule_format, of a l] b(1) by (cases "l = 0") (auto simp: link_set_link)
    qed
  qed (use w in blast)
  have "key_cut ?sl2 key as (n # bs) {n}" using assms(2) n data_kb(4) [OF d2] by (auto simp: key_cut_def)
  from find_key_spec [OF sk2 this len] obtain p' s' sl3 found where sl3:
    "find_key key preds succs ?sl2 = Some (Inr (found, p', s', sl3))"
    "skel sl3 t ?xs (lowered {n} 0 (full sl)) {n}" "data sl3 = data sl"
    using d2 by metis
  let ?r = "guard_retire (RNode n) (sl3\<lparr>sl_len := sl_len sl3 - 1\<rparr>)"
  have run: "sl_remove key sl = Some (Inr (True, ?r))"
    using mark_bottom_unmarked [OF b]
    by (simp add: sl_remove_def f(1,3) assms(3) Let_def nd sl1(1) [unfolded One_nat_def] b(1) sl3(1) del: upt_Suc)
  note E = data_entries [OF sl3(3)] data_eqD [OF sl3(3)]
  have sk3: "skel sl3 t (as @ bs) (full sl) {}"
    using n by (intro skel_forget [OF sl3(2)]) (auto simp: lowered_def)
  have "settled ?r t (as @ bs)"
    unfolding settled_def
  proof (intro conjI)
    show "skel ?r t (as @ bs) (full ?r) {}"
      using retire_fields(1) [OF len_update(1) [OF sk3]] by (simp add: retire_fields(3) len_update(4) E)
    show "accounted ?r t (as @ bs)"
      using accounted_retire [OF _ len_update(1) [OF sl3(2)]] assms(1) by (simp add: len_update(2) E settled_def)
    show "sl_len ?r = of_nat (length (as @ bs))" using assms(1) by (simp add: guard_retire_def E settled_def)
  qed
  moreover have "entries ?r (as @ bs) = entries sl (as @ bs)"
    by (simp add: retire_fields(2) len_update(3) E)
  ultimately show ?thesis using run E by (auto simp: guard_retire_def)
qed

lemma remove_spec:
  assumes "settled sl t xs"
  shows "\<exists>xs' sl'. sl_remove key sl = Some (Inr (map_of (entries sl xs) key \<noteq> None, sl')) \<and>
    settled sl' t xs' \<and> map_of (entries sl' xs') = (map_of (entries sl xs))(key := None) \<and>
    sl_max_level sl' = sl_max_level sl"
proof -
  obtain as bs where xs: "xs = as @ bs" and cut: "key_cut sl key as bs {}"
    using key_cut_exists [OF settled_sorted [OF assms]] by blast
  note lk = settled_lookup [OF assms [unfolded xs] cut]
  show ?thesis
  proof (cases "bs \<noteq> [] \<and> kb sl (hd bs) = key")
    case True
    then obtain n bs' where bs: "bs = n # bs'" "kb sl n = key" by (cases bs) auto
    obtain sl' where r: "sl_remove key sl = Some (Inr (True, sl'))" "settled sl' t (as @ bs')"
      "entries sl' (as @ bs') = entries sl (as @ bs')" "sl_max_level sl' = sl_max_level sl"
      using remove_present [OF assms [unfolded xs bs(1)] cut [unfolded bs(1)] bs(2)] by blast
    have "key \<notin> fst ` set (entries sl bs')"
      using settled_sorted [OF assms] bs xs by (auto simp: entries_def sorted_wrt_append)
    then have "map_of (entries sl (as @ bs')) = (map_of (entries sl xs))(key := None)"
      using map_of_without [OF key_cut_entries [OF cut]] by (simp add: xs bs del: map_of_append)
    then show ?thesis using r lk True xs by (intro exI [of _ "as @ bs'"] exI [of _ sl']) simp
  next
    case False
    have na: "length null_array = MAX_HEIGHT" by simp
    obtain preds succs where f:
      "find_key key null_array null_array sl = Some (Inr (bs \<noteq> [] \<and> kb sl (hd bs) = key, preds, succs, sl))"
      by (rule find_settled [OF assms [unfolded xs] cut na na])
    have none: "map_of (entries sl xs) key = None" using lk False xs by simp
    moreover have "sl_remove key sl = Some (Inr (False, sl))" using f False by (auto simp: sl_remove_def)
    ultimately show ?thesis using assms by (intro exI [of _ xs] exI [of _ sl]) (simp add: fun_upd_idem)
  qed
qed

section \<open>Construction\<close>

lemma wire_head_spec:
  assumes "hdr sl h = Some (k, v, tp, m)" "\<forall>l \<in> set ls. l < m"
  shows "\<exists>sl'. wire_head h tail ls sl = Inr sl' \<and> data sl' = data sl \<and>
    (\<forall>a l. link a l sl' = (if a = h \<and> l \<in> set ls then Inr tail else link a l sl))"
  using assms
proof (induction ls arbitrary: sl)
  case (Cons l ls)
  obtain w where w: "link h l sl = Inr w" using hdr_link [OF Cons.prems(1)] Cons.prems(2) by auto
  let ?sl = "set_link h l tail sl"
  have "\<exists>sl'. wire_head h tail ls ?sl = Inr sl' \<and> data sl' = data ?sl \<and>
    (\<forall>a m. link a m sl' = (if a = h \<and> m \<in> set ls then Inr tail else link a m ?sl))"
    using Cons.prems by (intro Cons.IH) auto
  then show ?case using w by (auto simp: link_store_def link_set_link)
qed simp

lemma with_max_level_spec:
  assumes "allocator al" "m < MAX_HEIGHT"
  shows "(with_max_level al m = Inl Abort \<and> (\<exists>sl. al sl = 0)) \<or>
    (\<exists>sl t. with_max_level al m = Inr sl \<and> settled sl t [] \<and> sl_max_level sl = m \<and> sl_retired sl = [])"
proof -
  let ?sl = "\<lparr>sl_head = 0, sl_max_level = m, sl_len = 0, sl_nodes = Map.empty, sl_vals = Map.empty, sl_retired = []\<rparr>"
  let ?nd = "\<lambda>k. \<lparr>nd_key = k, nd_value = 0, nd_top = MAX_HEIGHT - 1, nd_links = replicate (MAX_HEIGHT - 1 + 1) 0\<rparr>"
  define h where "h = al ?sl"
  define sl1 where "sl1 = ?sl\<lparr>sl_nodes := [h \<mapsto> ?nd NegInf]\<rparr>"
  define t where "t = al sl1"
  define sl2 where "sl2 = sl1\<lparr>sl_nodes := (sl_nodes sl1)(t \<mapsto> ?nd PosInf)\<rparr>"
  show ?thesis
  proof (cases "h = 0 \<or> t = 0")
    case True
    then have "with_max_level al m = Inl Abort"
      by (auto simp: with_max_level_def node_new_def Let_def h_def t_def sl1_def)
    then show ?thesis using True unfolding h_def t_def by blast
  next
    case False
    have "fresh ?sl h" "fresh sl1 t" using assms(1) False by (auto simp: allocator_def h_def t_def)
    then have al: "aligned h" "aligned t" "h \<noteq> t" by (auto simp: fresh_aligned) (auto simp: fresh_def sl1_def)
    have M: "MAX_HEIGHT - 1 + 1 = MAX_HEIGHT" "0 < MAX_HEIGHT" by (simp_all add: MAX_HEIGHT_def)
    have h2: "hdr sl2 = [h \<mapsto> (NegInf, 0, MAX_HEIGHT - 1, MAX_HEIGHT), t \<mapsto> (PosInf, 0, MAX_HEIGHT - 1, MAX_HEIGHT)]"
      by (auto simp: hdr_def sl2_def sl1_def fun_eq_iff M)
    have t2: "link t l sl2 = Inr 0" if "l < MAX_HEIGHT" for l
      using that M by (simp add: link_def node_at_def sl2_def)
    obtain sl3 where sl3: "wire_head h t [0..<MAX_HEIGHT] sl2 = Inr sl3" "data sl3 = data sl2"
      "\<forall>a l. link a l sl3 = (if a = h \<and> l < MAX_HEIGHT then Inr t else link a l sl2)"
      using wire_head_spec [of sl2 h NegInf 0 "MAX_HEIGHT - 1" MAX_HEIGHT "[0..<MAX_HEIGHT]" t] h2 al(3) by auto
    let ?r = "sl3\<lparr>sl_head := h\<rparr>"
    have run: "with_max_level al m = Inr ?r"
    proof -
      have "node_new al NegInf 0 (MAX_HEIGHT - 1) ?sl = Inr (h, sl1)"
        using False by (simp add: node_new_def Let_def h_def sl1_def)
      moreover have "node_new al PosInf 0 (MAX_HEIGHT - 1) sl1 = Inr (t, sl2)"
        using False by (simp add: node_new_def Let_def t_def sl2_def)
      ultimately show ?thesis by (simp only: with_max_level_def Let_def sl3(1) try_bind_simps prod.case)
    qed
    have hr: "hdr ?r = hdr sl2" using data_eqD(4) [OF sl3(2)] by (simp add: hdr_def fun_eq_iff)
    have lr: "link a l ?r = link a l sl3" for a l by (simp add: link_def node_at_def)
    have E: "sl_max_level sl3 = m" "sl_len sl3 = 0" "sl_vals sl3 = Map.empty" "sl_retired sl3 = []"
      using data_eqD [OF sl3(2)] by (simp_all add: sl2_def sl1_def)
    have "sentinels ?r t"
      using al False t2 sl3(3) assms(2) by (simp add: sentinels_def hr h2 lr E)
    moreover have "lpath ?r l {} h [] t" if "l < MAX_HEIGHT" for l using sl3(3) that by (simp add: lr)
    ultimately have "skel ?r t [] (full ?r) {}" by (simp add: skel_def)
    moreover have "accounted ?r t []"
      using al(3) by (auto simp: accounted_def hr h2 E retired_nodes_def retired_values_def)
    ultimately have "settled ?r t []" by (simp add: settled_def E)
    then show ?thesis using run E by auto
  qed
qed

section \<open>Reclamation and teardown\<close>

text \<open>
  \<open>accounted\<close> for arbitrary sets: sentinel nodes \<open>Z\<close>, live nodes \<open>N\<close> and retired objects \<open>rs\<close>.
\<close>

definition accounts :: "skiplist \<Rightarrow> addr set \<Rightarrow> addr set \<Rightarrow> retiree list \<Rightarrow> bool" where
  "accounts sl Z N rs \<longleftrightarrow>
     (let R = {a. RNode a \<in> set rs}; V = {a. RValue a \<in> set rs} in
      distinct rs \<and> {a. hdr sl a \<noteq> None} = Z \<union> N \<union> R \<and> (Z \<union> N) \<inter> R = {} \<and>
      dom (sl_vals sl) = vptr sl ` (N \<union> R) \<union> V \<and> vptr sl ` (N \<union> R) \<inter> V = {} \<and>
      inj_on (vptr sl) (N \<union> R) \<and> (\<forall>a \<in> R. vptr sl a \<noteq> 0))"

lemma accounted_accounts: "accounted sl t xs = accounts sl {sl_head sl, t} (set xs) (sl_retired sl)"
  by (simp add: accounted_def accounts_def retired_nodes_def retired_values_def Let_def)

text \<open>The memory after the nodes \<open>N\<close> and the value cells \<open>V\<close> are freed.\<close>

definition without :: "addr set \<Rightarrow> addr set \<Rightarrow> skiplist \<Rightarrow> skiplist" where
  "without N V sl = sl\<lparr>sl_nodes := sl_nodes sl |` (- N), sl_vals := sl_vals sl |` (- V)\<rparr>"

lemma without_simps:
  "hdr (without N V sl) a = (if a \<in> N then None else hdr sl a)"
  "vptr (without N V sl) a = (if a \<in> N then 0 else vptr sl a)"
  "a \<notin> N \<Longrightarrow> link a l (without N V sl) = link a l sl"
  "sl_vals (without N V sl) = sl_vals sl |` (- V)" "sl_head (without N V sl) = sl_head sl"
  "sl_max_level (without N V sl) = sl_max_level sl" "sl_len (without N V sl) = sl_len sl"
  "sl_retired (without N V sl) = sl_retired sl"
  by (auto simp: without_def hdr_def vptr_def link_def node_at_def restrict_map_def)

lemma without_without: "without N V (without N' V' sl) = without (N' \<union> N) (V' \<union> V) sl"
  by (simp add: without_def)

lemma without_node: "without {a} {} sl = sl\<lparr>sl_nodes := (sl_nodes sl)(a := None)\<rparr>"
  by (auto simp: without_def restrict_map_def fun_eq_iff intro!: skiplist.equality)

lemma free_value_without: "sl_vals sl v \<noteq> None \<Longrightarrow> free_value v sl = Inr (without {} {v} sl)"
  by (auto simp: free_value_def without_def restrict_map_def fun_eq_iff intro!: skiplist.equality)

lemma free_node_without:
  assumes "hdr sl a \<noteq> None" "vptr sl a \<noteq> 0 \<longrightarrow> sl_vals sl (vptr sl a) \<noteq> None"
  shows "free_node a sl = Inr (without {a} ({vptr sl a} - {0}) sl)"
proof -
  obtain nd where nd: "sl_nodes sl a = Some nd" "nd_value nd = vptr sl a"
    using assms(1) by (auto simp: hdr_def vptr_def)
  have "free_node a sl = (if vptr sl a = 0 then Inr (without {a} {} sl)
      else try_bind (free_value (vptr sl a) sl) (\<lambda>sl'. Inr (without {a} {} sl')))"
    using nd by (simp add: free_node_def node_at_def without_node)
  then show ?thesis using assms(2) by (auto simp: free_value_without without_without)
qed

text \<open>Freeing one retired object: what \<open>drop_fn\<close> does when the collector finds it eligible.\<close>

lemma accounts_without_node:
  assumes "accounts sl Z N (RNode n # rs)"
  shows "accounts (without {n} {vptr sl n} sl) Z N rs" "vptr sl n \<noteq> 0" "hdr sl n \<noteq> None"
    "sl_vals sl (vptr sl n) \<noteq> None" "n \<notin> Z \<union> N" "vptr sl n \<notin> vptr sl ` N"
proof -
  let ?R = "{a. RNode a \<in> set rs}" and ?V = "{a. RValue a \<in> set rs}" and ?sl = "without {n} {vptr sl n} sl"
  have R: "{a. RNode a \<in> set (RNode n # rs)} = insert n ?R" "{a. RValue a \<in> set (RNode n # rs)} = ?V" by auto
  have A: "distinct rs" "n \<notin> ?R" "{a. hdr sl a \<noteq> None} = Z \<union> N \<union> insert n ?R" "(Z \<union> N) \<inter> insert n ?R = {}"
    "dom (sl_vals sl) = vptr sl ` (N \<union> insert n ?R) \<union> ?V" "vptr sl ` (N \<union> insert n ?R) \<inter> ?V = {}"
    "inj_on (vptr sl) (N \<union> insert n ?R)" "\<forall>a \<in> insert n ?R. vptr sl a \<noteq> 0"
    using assms unfolding accounts_def Let_def R distinct.simps by blast+
  show ne: "vptr sl n \<noteq> 0" "hdr sl n \<noteq> None" "sl_vals sl (vptr sl n) \<noteq> None" "n \<notin> Z \<union> N"
    using A(3,4,5,8) by (auto simp del: not_None_eq)
  have n: "n \<notin> N \<union> ?R" using A(2,4) by auto
  have fresh: "vptr sl n \<notin> vptr sl ` (N \<union> ?R)" using A(7) n by (auto simp: inj_on_def)
  then show "vptr sl n \<notin> vptr sl ` N" by auto
  have v: "vptr ?sl a = vptr sl a" if "a \<in> N \<union> ?R" for a using that n by (auto simp: without_simps)
  then have img: "vptr ?sl ` (N \<union> ?R) = vptr sl ` (N \<union> ?R)" by (intro image_cong) auto
  have "{a. hdr ?sl a \<noteq> None} = {a. hdr sl a \<noteq> None} - {n}" by (auto simp: without_simps)
  then have 1: "{a. hdr ?sl a \<noteq> None} = Z \<union> N \<union> ?R" using A(3,4) n by auto
  have 2: "dom (sl_vals ?sl) = vptr sl ` (N \<union> ?R) \<union> ?V"
  proof -
    have "vptr sl ` (N \<union> insert n ?R) = insert (vptr sl n) (vptr sl ` (N \<union> ?R))" by auto
    moreover have "dom (sl_vals ?sl) = dom (sl_vals sl) - {vptr sl n}" by (auto simp: without_simps)
    ultimately show ?thesis using A(5,6) fresh by (simp only:) blast
  qed
  have 3: "inj_on (vptr ?sl) (N \<union> ?R)"
    using inj_on_subset [OF A(7), of "N \<union> ?R"] v by (subst inj_on_cong) auto
  show "accounts ?sl Z N rs"
    unfolding accounts_def Let_def img using A v by (intro conjI A(1) 1 2 3) auto
qed

lemma accounts_without_value:
  assumes "accounts sl Z N (RValue v # rs)"
  shows "accounts (without {} {v} sl) Z N rs" "sl_vals sl v \<noteq> None" "v \<notin> vptr sl ` N"
proof -
  let ?R = "{a. RNode a \<in> set rs}" and ?V = "{a. RValue a \<in> set rs}" and ?sl = "without {} {v} sl"
  have R: "{a. RNode a \<in> set (RValue v # rs)} = ?R" "{a. RValue a \<in> set (RValue v # rs)} = insert v ?V" by auto
  have A: "distinct rs" "v \<notin> ?V" "{a. hdr sl a \<noteq> None} = Z \<union> N \<union> ?R" "(Z \<union> N) \<inter> ?R = {}"
    "dom (sl_vals sl) = vptr sl ` (N \<union> ?R) \<union> insert v ?V" "vptr sl ` (N \<union> ?R) \<inter> insert v ?V = {}"
    "inj_on (vptr sl) (N \<union> ?R)" "\<forall>a \<in> ?R. vptr sl a \<noteq> 0"
    using assms unfolding accounts_def Let_def R distinct.simps by blast+
  show "sl_vals sl v \<noteq> None" "v \<notin> vptr sl ` N" using A(5,6) by auto
  have v: "vptr ?sl = vptr sl" "hdr ?sl = hdr sl" by (simp_all add: without_simps fun_eq_iff)
  have 1: "dom (sl_vals ?sl) = vptr sl ` (N \<union> ?R) \<union> ?V" 
  proof -
    have "dom (sl_vals ?sl) = dom (sl_vals sl) - {v}" by (auto simp: without_simps)
    moreover define I where "I = vptr sl ` (N \<union> ?R)"
    ultimately show ?thesis using A(2,5,6) unfolding I_def [symmetric] by auto
  qed
  show "accounts ?sl Z N rs"
    unfolding accounts_def Let_def v using A(6) by (intro conjI A 1) auto
qed

lemma drop_retired_spec:
  assumes "accounts sl Z N (r # rs)"
  obtains A V where "drop_retired r sl = Inr (without A V sl)" "accounts (without A V sl) Z N rs"
    "A \<inter> (Z \<union> N) = {}" "V \<inter> vptr sl ` N = {}"
proof (cases r)
  case (RNode n)
  note B = accounts_without_node [OF assms [unfolded RNode]]
  have "drop_retired r sl = Inr (without {n} {vptr sl n} sl)"
    using free_node_without [of sl n] B(2-4) RNode by (simp add: insert_Diff_if)
  then show thesis using that [OF _ B(1)] B(5,6) by auto
next
  case (RValue v)
  note B = accounts_without_value [OF assms [unfolded RValue]]
  have "drop_retired r sl = Inr (without {} {v} sl)" using free_value_without B(2) RValue by simp
  then show thesis using that [OF _ B(1)] B(3) by auto
qed

text \<open>The collector frees one of the retired objects.\<close>

definition collect_one :: "retiree \<Rightarrow> skiplist \<Rightarrow> skiplist res" where
  "collect_one r sl =
     try_bind (drop_retired r sl) (\<lambda>sl'. Inr (sl'\<lparr>sl_retired := remove1 r (sl_retired sl')\<rparr>))"

fun drop_all :: "retiree list \<Rightarrow> skiplist \<Rightarrow> skiplist res" where
  "drop_all [] sl = Inr sl"
| "drop_all (r # rs) sl = try_bind (drop_retired r sl) (drop_all rs)"

lemma collect_settled:
  assumes "settled sl t xs" "r \<in> set (sl_retired sl)"
  shows "\<exists>sl'. collect_one r sl = Inr sl' \<and> settled sl' t xs \<and> entries sl' xs = entries sl xs"
proof -
  let ?rs = "remove1 r (sl_retired sl)"
  note S = assms(1) [unfolded settled_def]
  have "accounts sl {sl_head sl, t} (set xs) (sl_retired sl)" using S accounted_accounts by blast
  moreover then have "distinct (sl_retired sl)" by (simp add: accounts_def Let_def)
  moreover then have "set (r # ?rs) = set (sl_retired sl)" "distinct (r # ?rs)" using assms(2) by auto
  ultimately have "accounts sl {sl_head sl, t} (set xs) (r # ?rs)" by (simp only: accounts_def)
  then obtain A V where r: "drop_retired r sl = Inr (without A V sl)" and
    acc: "accounts (without A V sl) {sl_head sl, t} (set xs) ?rs" and
    disj: "A \<inter> ({sl_head sl, t} \<union> set xs) = {}" "V \<inter> vptr sl ` set xs = {}"
    by (rule drop_retired_spec)
  let ?r = "(without A V sl)\<lparr>sl_retired := ?rs\<rparr>"
  have f: "hdr ?r = hdr (without A V sl)" "vptr ?r = vptr (without A V sl)" "sl_vals ?r = sl_vals (without A V sl)"
    "link a l ?r = link a l (without A V sl)" for a l
    by (auto simp: hdr_def vptr_def link_def node_at_def fun_eq_iff)
  have same: "hdr ?r a = hdr sl a" "link a l ?r = link a l sl" if "a \<in> {sl_head sl, t} \<union> set xs" for a l
  proof -
    have "a \<notin> A" using that disj(1) by auto
    then show "hdr ?r a = hdr sl a" "link a l ?r = link a l sl" by (simp_all add: f without_simps)
  qed
  have vals: "sl_vals ?r (vptr sl a) = sl_vals sl (vptr sl a)" if "a \<in> set xs" for a
    using that disj(2) by (auto simp: f without_simps restrict_map_def)
  have ok: "sl_vals sl (vptr sl a) \<noteq> None" if "a \<in> set xs" for a
    using skelD(2) [OF S [THEN conjunct1] that] by (auto simp: node_ok_def vptr_def)
  have "skel ?r t xs (full sl) {}"
    using same vals ok by (intro skel_local [OF S [THEN conjunct1]]) (auto simp: without_simps)
  moreover have "full ?r a = full sl a" if "a \<in> set xs" for a
    using same(1) [of a] that by (simp add: full_def top_of_def)
  ultimately have "skel ?r t xs (full ?r) {}" using skel_LD_cong by blast
  moreover have "accounted ?r t xs"
    using acc unfolding accounted_accounts accounts_def Let_def f by (simp add: without_simps)
  moreover have "entries ?r xs = entries sl xs"
    using same(1) vals by (simp add: entries_def kb_def value_of_def vptr_def)
  ultimately show ?thesis
    using S r by (intro exI [of _ ?r]) (simp add: settled_def collect_one_def without_simps)
qed

lemma drop_from_spec:
  assumes "lpath sl 0 {} a zs 0" "distinct (a # zs)"
    and "\<forall>x \<in> set (a # zs). x \<noteq> 0 \<and> aligned x \<and> (vptr sl x \<noteq> 0 \<longrightarrow> sl_vals sl (vptr sl x) \<noteq> None)"
    and "inj_on (vptr sl) {x \<in> set (a # zs). vptr sl x \<noteq> 0}"
  shows "drop_from a sl = Some (Inr (without (set (a # zs)) (vptr sl ` set (a # zs) - {0}) sl))"
  using assms
proof (induction zs arbitrary: a sl)
  case Nil
  have "hdr sl a \<noteq> None" using Nil.prems(1) link_Inr_hdr [of a 0 sl] by auto
  then show ?case
    using Nil.prems free_node_without [of sl a]
    by (subst drop_from.simps, simp, subst drop_from.simps) (auto simp: insert_Diff_if)
next
  case (Cons z zs)
  let ?V = "{vptr sl a} - {0}"
  let ?sl = "without {a} ?V sl"
  have a: "link a 0 sl = Inr z" "a \<noteq> 0" "aligned z" using Cons.prems(1,3) by auto
  have "hdr sl a \<noteq> None" using a(1) link_Inr_hdr [of a 0 sl] by auto
  then have "free_node a sl = Inr ?sl" using Cons.prems(3) by (intro free_node_without) auto
  then have step: "drop_from a sl = drop_from z ?sl"
    using a by (subst drop_from.simps) simp
  have v: "vptr ?sl x = vptr sl x" if "x \<in> set (z # zs)" for x
    using that Cons.prems(2) by (auto simp: without_simps)
  have "drop_from z ?sl = Some (Inr (without (set (z # zs)) (vptr ?sl ` set (z # zs) - {0}) ?sl))"
  proof (rule Cons.IH)
    have "link x 0 ?sl = link x 0 sl" if "x \<in> set (z # zs)" for x
      using that Cons.prems(2) by (intro without_simps(3)) auto
    then show "lpath ?sl 0 {} z zs 0"
      using Cons.prems(1) by (subst lpath_cong [of _ _ 0 ?sl sl "{}" "{}"]) auto
    show "distinct (z # zs)" using Cons.prems(2) by simp
    have "vptr sl x \<notin> ?V" if "x \<in> set (z # zs)" for x
      using inj_onD [OF Cons.prems(4), of x a] that Cons.prems(2) by auto
    note notV = this
    show "\<forall>x \<in> set (z # zs). x \<noteq> 0 \<and> aligned x \<and> (vptr ?sl x \<noteq> 0 \<longrightarrow> sl_vals ?sl (vptr ?sl x) \<noteq> None)"
    proof
      fix x assume x: "x \<in> set (z # zs)"
      then have "sl_vals ?sl (vptr sl x) = sl_vals sl (vptr sl x)"
        using notV [OF x] by (auto simp: without_simps(4) restrict_map_def)
      then show "x \<noteq> 0 \<and> aligned x \<and> (vptr ?sl x \<noteq> 0 \<longrightarrow> sl_vals ?sl (vptr ?sl x) \<noteq> None)"
        using Cons.prems(3) [rule_format, of x] x v [OF x] by simp
    qed
    have "{x \<in> set (z # zs). vptr ?sl x \<noteq> 0} \<subseteq> {x \<in> set (a # z # zs). vptr sl x \<noteq> 0}" using v by auto
    then have "inj_on (vptr sl) {x \<in> set (z # zs). vptr ?sl x \<noteq> 0}" by (rule inj_on_subset [OF Cons.prems(4)])
    then show "inj_on (vptr ?sl) {x \<in> set (z # zs). vptr ?sl x \<noteq> 0}"
      using v by (subst inj_on_cong [of _ _ "vptr sl"]) auto
  qed
  moreover have "vptr ?sl ` set (z # zs) = vptr sl ` set (z # zs)" using v by (intro image_cong) auto
  moreover have "{a} \<union> set (z # zs) = set (a # z # zs)" by auto
  moreover have "?V \<union> (vptr sl ` set (z # zs) - {0}) = vptr sl ` set (a # z # zs) - {0}" by auto
  ultimately show ?case unfolding step by (simp only: without_without)
qed

lemma drop_all_empty:
  assumes "accounts sl {} {} rs"
  shows "\<exists>sl'. drop_all rs sl = Inr sl' \<and> sl_nodes sl' = Map.empty \<and> sl_vals sl' = Map.empty"
  using assms
proof (induction rs arbitrary: sl)
  case Nil
  then have "{a. hdr sl a \<noteq> None} = {}" "dom (sl_vals sl) = {}" by (simp_all add: accounts_def)
  then show ?case by (auto simp: hdr_def fun_eq_iff)
next
  case (Cons r rs)
  obtain A V where "drop_retired r sl = Inr (without A V sl)" "accounts (without A V sl) {} {} rs"
    by (rule drop_retired_spec [OF Cons.prems])
  then show ?case using Cons.IH by simp
qed

lemma drop_settled:
  assumes "settled sl t xs"
  shows "\<exists>sl'. drop_skiplist sl = Some (Inr sl') \<and> accounts sl' {} {} (sl_retired sl) \<and> sl_retired sl' = sl_retired sl"
proof -
  let ?h = "sl_head sl"
  note S = assms [unfolded settled_def] and K = assms [unfolded settled_def, THEN conjunct1]
  note T = skelD(1) [OF K]
  have live: "filter (\<lambda>a. 0 < full sl a) xs = xs" by (simp add: full_def)
  have path: "lpath sl 0 {} ?h (xs @ [t]) 0"
    using skelD(6) [OF K, of 0] sentinelsD(6) [OF T, of 0] by (simp add: lpath_append live MAX_HEIGHT_def)
  have dist: "distinct (?h # xs @ [t])" using skel_distinct [OF K] by simp
  have nodes: "x \<noteq> 0 \<and> aligned x \<and> (vptr sl x \<noteq> 0 \<longrightarrow> sl_vals sl (vptr sl x) \<noteq> None)" if "x \<in> set (?h # xs @ [t])" for x
    using that T skelD(2) [OF K, of x] by (auto simp: sentinels_def node_ok_def vptr_def)
  have z: "vptr sl ?h = 0" "vptr sl t = 0" using T by (auto simp: sentinels_def vptr_def)
  have nz: "vptr sl a \<noteq> 0" if "a \<in> set xs" for a using skelD(2) [OF K that] by (auto simp: node_ok_def vptr_def)
  have A: "distinct (sl_retired sl)" "{a. hdr sl a \<noteq> None} = {?h, t} \<union> set xs \<union> retired_nodes sl"
    "({?h, t} \<union> set xs) \<inter> retired_nodes sl = {}"
    "dom (sl_vals sl) = vptr sl ` (set xs \<union> retired_nodes sl) \<union> retired_values sl"
    "vptr sl ` (set xs \<union> retired_nodes sl) \<inter> retired_values sl = {}"
    "inj_on (vptr sl) (set xs \<union> retired_nodes sl)" "\<forall>a \<in> retired_nodes sl. vptr sl a \<noteq> 0"
    using S [THEN conjunct2, THEN conjunct1, unfolded accounted_def] by - (elim conjE, assumption)+
  have inj: "inj_on (vptr sl) {x \<in> set (?h # xs @ [t]). vptr sl x \<noteq> 0}"
    by (rule inj_on_subset [OF A(6)]) (auto simp: z)
  have V: "vptr sl ` set (?h # xs @ [t]) - {0} = vptr sl ` set xs" using z nz by auto
  have N: "set (?h # xs @ [t]) = {?h, t} \<union> set xs" by auto
  have "\<forall>x \<in> set (?h # xs @ [t]). x \<noteq> 0 \<and> aligned x \<and> (vptr sl x \<noteq> 0 \<longrightarrow> sl_vals sl (vptr sl x) \<noteq> None)"
    using nodes by blast
  note run = drop_from_spec [OF path dist this inj, folded drop_skiplist_def, unfolded V, unfolded N]
  let ?r = "without ({?h, t} \<union> set xs) (vptr sl ` set xs) sl"
  have v: "vptr ?r a = vptr sl a" if "a \<in> retired_nodes sl" for a using that A(3) by (auto simp: without_simps)
  have img: "vptr ?r ` retired_nodes sl = vptr sl ` retired_nodes sl" using v by (intro image_cong) auto
  have 1: "{a. hdr ?r a \<noteq> None} = retired_nodes sl"
  proof -
    have "{a. hdr ?r a \<noteq> None} = {a. hdr sl a \<noteq> None} - ({?h, t} \<union> set xs)"
      by (auto simp: without_simps simp del: not_None_eq)
    also have "\<dots> = retired_nodes sl" using A(3) unfolding A(2) by auto
    finally show ?thesis .
  qed
  have 2: "dom (sl_vals ?r) = vptr sl ` retired_nodes sl \<union> retired_values sl"
  proof -
    have "vptr sl ` set xs \<inter> vptr sl ` retired_nodes sl = {}"
      using inj_on_image_Int [OF A(6), of "set xs" "retired_nodes sl"] A(3) by auto
    moreover have "dom (sl_vals ?r) = dom (sl_vals sl) - vptr sl ` set xs" by (auto simp: without_simps)
    moreover define I J where "I = vptr sl ` set xs" and "J = vptr sl ` retired_nodes sl"
    ultimately show ?thesis using A(4,5) unfolding image_Un I_def [symmetric] J_def [symmetric] by auto
  qed
  have 3: "inj_on (vptr ?r) (retired_nodes sl)"
    using inj_on_subset [OF A(6), of "retired_nodes sl"] v by (subst inj_on_cong [of _ _ "vptr sl"]) auto
  have "accounts ?r {} {} (sl_retired sl)"
    unfolding accounts_def Let_def retired_nodes_def [symmetric] retired_values_def [symmetric] Un_empty_left img
    using A(1,5,7) 1 2 3 v by (auto simp del: not_None_eq)
  then show ?thesis using run by (simp add: without_simps)
qed

section \<open>The index interface\<close>

definition skip_repr :: "skiplist \<Rightarrow> (bytes \<rightharpoonup> bytes) \<Rightarrow> bool" where
  "skip_repr sl m \<longleftrightarrow> (\<exists>t xs. settled sl t xs \<and> m = map_of (entries sl xs))"

definition may_fail :: "alloc \<Rightarrow> bool" where
  "may_fail al \<longleftrightarrow> (\<exists>sl. al sl = 0)"

lemma settled_card:
  assumes "settled sl t xs"
  shows "card (dom (map_of (entries sl xs))) = length xs"
proof -
  have "distinct (map fst (entries sl xs))"
    using settled_sorted [OF assms] by (induction xs) (auto simp: entries_def)
  then have "card (fst ` set (entries sl xs)) = length (entries sl xs)"
    using distinct_card [of "map fst (entries sl xs)"] by simp
  then show ?thesis by (simp add: dom_map_of_conv_image_fst entries_def)
qed

interpretation skip: kv_index allocator may_fail "\<lambda>_ _. True" skip_repr sl_insert sl_get sl_remove len
proof
  fix e s m rng k v
  assume "allocator e" "skip_repr s m"
  then obtain t xs where "settled s t xs" "m = map_of (entries s xs)" by (auto simp: skip_repr_def)
  then show "(sl_insert e rng k v s = Some (Inl Abort) \<and> may_fail e) \<or>
    (\<exists>rng' s'. sl_insert e rng k v s = Some (Inr (m k = None, rng', s')) \<and> skip_repr s' (m(k \<mapsto> v)))"
    using insert_spec [of s t xs e rng k v] \<open>allocator e\<close> unfolding skip_repr_def may_fail_def refuses_def by metis
next
  fix s m k
  assume "skip_repr s m"
  then obtain t xs where s: "settled s t xs" "m = map_of (entries s xs)" by (auto simp: skip_repr_def)
  then show "sl_get k s = Some (Inr (m k))" using get_spec by simp
  show "\<exists>s'. sl_remove k s = Some (Inr (m k \<noteq> None, s')) \<and> skip_repr s' (m(k := None))"
    using remove_spec [OF s(1), of k] s(2) unfolding skip_repr_def by metis
  show "finite (dom m) \<and> len s = of_nat (card (dom m))"
    using s settled_card [OF s(1)] by (simp add: len_def settled_def finite_dom_map_of)
qed

lemma new_skip_repr:
  assumes "allocator al" "m < MAX_HEIGHT" "with_max_level al m = Inr sl"
  shows "skip_repr sl Map.empty"
  using with_max_level_spec [OF assms(1,2)] assms(3) by (auto simp: skip_repr_def entries_def intro!: exI [of _ "[]"])

lemma hint_skip_repr:
  assumes "allocator al" "with_capacity_hint ceil_log4 al n = Inr sl"
  shows "skip_repr sl Map.empty"
proof (rule new_skip_repr [OF assms(1)])
  let ?m = "max 1 (min MAX_HEIGHT (ceil_log4 (max n 2))) - 1"
  show "?m < MAX_HEIGHT" by (simp add: MAX_HEIGHT_def)
  show "with_max_level al ?m = Inr sl" using assms(2) by (simp add: with_capacity_hint_def)
qed

text \<open>
  Every state a skip list can be in, with the map it stands for: after construction and any
  sequence of insertions and removals, with retired objects freed at any time in between.
\<close>

inductive history :: "alloc \<Rightarrow> skiplist \<Rightarrow> (bytes \<rightharpoonup> bytes) \<Rightarrow> bool" for al where
  new: "\<lbrakk>m < MAX_HEIGHT; with_max_level al m = Inr sl\<rbrakk> \<Longrightarrow> history al sl Map.empty"
| inserted: "\<lbrakk>history al sl m; sl_insert al rng k v sl = Some (Inr (b, rng', sl'))\<rbrakk> \<Longrightarrow> history al sl' (m(k \<mapsto> v))"
| removed: "\<lbrakk>history al sl m; sl_remove k sl = Some (Inr (b, sl'))\<rbrakk> \<Longrightarrow> history al sl' (m(k := None))"
| collected: "\<lbrakk>history al sl m; r \<in> set (sl_retired sl); collect_one r sl = Inr sl'\<rbrakk> \<Longrightarrow> history al sl' m"

lemma collect_repr:
  assumes "skip_repr sl m" "r \<in> set (sl_retired sl)"
  shows "\<exists>sl'. collect_one r sl = Inr sl' \<and> skip_repr sl' m"
  using assms collect_settled [OF _ assms(2)] unfolding skip_repr_def by metis

lemma history_repr: "history al sl m \<Longrightarrow> allocator al \<Longrightarrow> skip_repr sl m"
proof (induction rule: history.induct)
  case (new m sl)
  then show ?case using new_skip_repr by blast
next
  case (inserted sl m rng k v b rng' sl')
  then show ?case using skip.ins_law [of al sl m rng k v] by (auto simp del: fun_upd_apply)
next
  case (removed sl m k b sl')
  then show ?case using skip.del_law [of sl m k] by (auto simp del: fun_upd_apply)
next
  case (collected sl m r sl')
  then show ?case using collect_repr [of sl m r] by auto
qed

text \<open>An allocator with a handful of addresses, for concrete runs.\<close>

definition small_alloc :: alloc where
  "small_alloc sl =
     (case find (\<lambda>a. sl_nodes sl a = None \<and> sl_vals sl a = None) [8, 16, 24, 32, 40, 48, 56, 64] of
        None \<Rightarrow> 0 | Some a \<Rightarrow> a)"

lemma small_alloc: "allocator small_alloc"
  by (auto simp: allocator_def small_alloc_def fresh_def split: if_splits)

lemma small_new:
  "\<exists>sl. with_max_level small_alloc 1 = Inr sl \<and> sl_nodes sl 24 = None \<and> sl_nodes sl 32 = None \<and> sl_vals sl = Map.empty"
  by (simp add: with_max_level_def node_new_def small_alloc_def Let_def MAX_HEIGHT_def upt_rec
      link_store_def link_def node_at_def set_link_def)

lemma small_insert:
  assumes "with_max_level small_alloc 1 = Inr sl"
  shows "sl_insert small_alloc rng k v sl \<noteq> Some (Inl Abort)"
proof -
  have free: "sl_nodes sl 24 = None" "sl_nodes sl 32 = None" "sl_vals sl = Map.empty"
    using small_new assms by auto
  have "\<not> refuses small_alloc v sl"
    using free by (simp add: refuses_def small_alloc_def)
  moreover obtain t xs where st: "settled sl t xs"
    using new_skip_repr [OF small_alloc _ assms] by (auto simp: skip_repr_def MAX_HEIGHT_def)
  ultimately show ?thesis using insert_spec [OF st small_alloc, of rng k v] by auto
qed

lemma small_history: "\<exists>sl. history small_alloc sl [[1] \<mapsto> [2]]"
proof -
  obtain sl where new: "with_max_level small_alloc 1 = Inr sl" using small_new by blast
  have m: "(1 :: nat) < MAX_HEIGHT" by (simp add: MAX_HEIGHT_def)
  obtain b rng' sl' where "sl_insert small_alloc 5 [1] [2] sl = Some (Inr (b, rng', sl'))"
    using skip.ins_law [OF small_alloc TrueI new_skip_repr [OF small_alloc m new], of 5 "[1]" "[2]"]
      small_insert [OF new, of 5 "[1]" "[2]"] by blast
  then show ?thesis using history.inserted [OF history.new [OF m new]] by blast
qed

section \<open>Properties\<close>

text \<open>
  C1: Any sequence of insertions, lookups and deletions on a new skip list terminates, touches no
  freed or unallocated memory, never panics, and returns exactly what it returns on a finite map;
  \<open>len\<close> is the number of keys.  The only other outcome is an abort when an allocation fails.
\<close>

theorem skiplist_refines_map:
  assumes "allocator al" "m < MAX_HEIGHT" "with_max_level al m = Inr sl"
  shows "(kv_run (sl_insert al) sl_get sl_remove ops rng sl = Some (Inl Abort) \<and> may_fail al) \<or>
    (\<exists>rng' sl'. kv_run (sl_insert al) sl_get sl_remove ops rng sl =
        Some (Inr (fst (map_ops ops Map.empty), rng', sl')) \<and>
      len sl' = of_nat (card (dom (snd (map_ops ops Map.empty)))))"
  using skip.run_refines [OF assms(1) new_skip_repr [OF assms], of ops rng, simplified] skip.count_law by blast

theorem skiplist_refines_map_witness:
  "\<exists>sl rng' sl'. with_max_level small_alloc 1 = Inr sl \<and>
     kv_run (sl_insert small_alloc) sl_get sl_remove [Put [1] [2], Get [1], Del [1], Get [1]] 5 sl =
       Some (Inr ([Inserted True, Got (Some [2]), Deleted True, Got None], rng', sl')) \<and> len sl' = 0"
proof -
  let ?ops = "[Put [1] [2], Get [1], Del [1], Get [1]]"
  obtain sl where new: "with_max_level small_alloc 1 = Inr sl" using small_new by blast
  have m: "1 < MAX_HEIGHT" by (simp add: MAX_HEIGHT_def)
  have "kv_run (sl_insert small_alloc) sl_get sl_remove ?ops 5 sl \<noteq> Some (Inl Abort)"
    by (rule skip.one_put [OF small_alloc TrueI new_skip_repr [OF small_alloc m new] small_insert [OF new]]) simp
  with skiplist_refines_map [OF small_alloc m new, of ?ops 5] new show ?thesis by (auto simp: Let_def)
qed

text \<open>
  C2: In every state reached by insertions, removals and the freeing of retired objects, in any
  order, lookups answer from the map the insertions and removals built, a removal succeeds
  exactly for the keys of that map, and every retired object can be freed without a fault: no
  reachable node or value is ever retired, and nothing is retired twice.
\<close>

theorem collection_is_invisible:
  assumes "history al sl m" "allocator al"
  shows "sl_get k sl = Some (Inr (m k)) \<and>
    (\<exists>sl'. sl_remove k sl = Some (Inr (m k \<noteq> None, sl'))) \<and>
    len sl = of_nat (card (dom m)) \<and>
    (r \<in> set (sl_retired sl) \<longrightarrow> (\<exists>sl'. collect_one r sl = Inr sl'))"
  using history_repr [OF assms] skip.look_law skip.del_law skip.count_law collect_repr by blast

theorem collection_is_invisible_witness:
  "\<exists>sl sl'. history small_alloc sl [[1] \<mapsto> [2]] \<and> sl_get [1] sl = Some (Inr (Some [2])) \<and>
    sl_get [7] sl = Some (Inr None) \<and> len sl = 1 \<and> sl_remove [1] sl = Some (Inr (True, sl'))"
proof -
  obtain sl where h: "history small_alloc sl [[1] \<mapsto> [2]]" using small_history by blast
  from collection_is_invisible [OF h small_alloc, of "[1]"] collection_is_invisible [OF h small_alloc, of "[7]"] h
  show ?thesis by auto
qed

text \<open>
  C3: Dropping a skip list in any reachable state and then running the drop glue of everything it
  has retired frees every node and every value exactly once: no fault, and no memory is left.
\<close>

theorem teardown_frees_everything:
  assumes "history al sl m" "allocator al"
  shows "\<exists>sl1 sl2. drop_skiplist sl = Some (Inr sl1) \<and> drop_all (sl_retired sl) sl1 = Inr sl2 \<and>
    sl_nodes sl2 = Map.empty \<and> sl_vals sl2 = Map.empty"
  using history_repr [OF assms] drop_settled drop_all_empty unfolding skip_repr_def by metis

theorem teardown_frees_everything_witness:
  "\<exists>sl sl1 sl2. history small_alloc sl [[1] \<mapsto> [2]] \<and> drop_skiplist sl = Some (Inr sl1) \<and>
    drop_all (sl_retired sl) sl1 = Inr sl2 \<and> sl_nodes sl2 = Map.empty"
proof -
  obtain sl where "history small_alloc sl [[1] \<mapsto> [2]]" using small_history by blast
  with teardown_frees_everything [OF this small_alloc] show ?thesis by blast
qed

text \<open>
  A link word holds an aligned node pointer and the deletion mark without loss: both are read
  back from the packed word, and packing what is read from any word gives the word again.
\<close>

lemma link_round_trip:
  assumes "a AND 7 = 0"
  shows "ptr_of (pack a m) = a \<and> mark_of (pack a m) = m \<and> pack (ptr_of w) (mark_of w) = w"
proof -
  have "pack (ptr_of w) (mark_of w) = w"
    by (intro bit_word_eqI) (auto simp: pack_def ptr_of_def mark_of_bit bit_simps intro: gr0I)
  moreover have "even (a AND 7)" using assms by simp
  then have "aligned a" by (simp add: aligned_bit bit_0 even_and_iff)
  ultimately show ?thesis by simp
qed

text \<open>
  A key is stored without loss, inline or boxed, and compares as the byte string it stands
  for; the sentinels are below and above every key.
\<close>

lemma key_round_trip:
  "as_bytes (key_new k) = k \<and> key_lt (Fin (key_new k)) t = (k < t) \<and> key_eq (Fin (key_new k)) t = (k = t) \<and>
   key_lt NegInf t \<and> \<not> key_lt PosInf t \<and> \<not> key_eq NegInf t \<and> \<not> key_eq PosInf t"
  by simp

text \<open>
  The height computed from the capacity hint is in \<open>[1, MAX_HEIGHT]\<close>, and every tower drawn
  afterwards fits under it, whatever the generator state.
\<close>

lemma capacity_hint_bounds:
  assumes "allocator al" "with_capacity_hint ceil_log4 al n = Inr sl"
  shows "sl_max_level sl + 1 = max 1 (min MAX_HEIGHT (ceil_log4 (max n 2))) \<and>
    fst (random_level rng sl) \<le> sl_max_level sl"
proof -
  let ?m = "max 1 (min MAX_HEIGHT (ceil_log4 (max n 2))) - 1"
  have "?m < MAX_HEIGHT" by (simp add: MAX_HEIGHT_def)
  from with_max_level_spec [OF assms(1) this] assms(2) have "sl_max_level sl = ?m"
    by (auto simp: with_capacity_hint_def)
  moreover have "?m + 1 = max 1 (min MAX_HEIGHT (ceil_log4 (max n 2)))" by linarith
  ultimately show ?thesis using random_level_le [of rng sl] by (simp only: simp_thms)
qed

end
