(* ===== verification/Shard.thy ===== *)
theory Shard
  imports SkipListMap
begin

text \<open>
  The sharded index, \<open>crates/zerokv/src/shard.rs\<close>: the FNV-1a hash, the routing of a key to one of
  a power-of-two number of skip lists, and the operations of \<open>ShardedIndex\<close>.  Every list has its
  own memory; the allocator a list sees may depend on the state of the whole index.  The guard that
  each operation pins, with the panic of \<open>pin\<close> when all participant slots are taken, belongs to \<open>Ebr\<close>
  and is not repeated here.  The sharded index is shown to implement the same index interface as one skip list.
\<close>

section \<open>Model\<close>

definition fnv1a :: "bytes \<Rightarrow> u64" where
  "fnv1a = foldl (\<lambda>h b. (h XOR ucast b) * 0x00000100000001B3) 0xcbf29ce484222325"

record sharded_index =
  sh_shards :: "skiplist list"
  sh_mask :: u64

text \<open>The allocator, as list \<open>i\<close> of an index sees it.\<close>

type_synonym sh_alloc = "sharded_index \<Rightarrow> nat \<Rightarrow> alloc"

text \<open>The loop of \<open>ShardedIndex::new\<close>: \<open>n\<close> more lists behind those of \<open>v\<close>.\<close>

fun push_shards :: "(usize \<Rightarrow> nat) \<Rightarrow> sh_alloc \<Rightarrow> usize \<Rightarrow> nat \<Rightarrow> skiplist list \<Rightarrow> skiplist list res" where
  "push_shards ceil_log4 al per_shard 0 v = Inr v"
| "push_shards ceil_log4 al per_shard (Suc n) v =
     try_bind (with_capacity_hint ceil_log4 (al \<lparr>sh_shards = v, sh_mask = 0\<rparr> (length v)) per_shard)
       (\<lambda>s. push_shards ceil_log4 al per_shard n (v @ [s]))"

text \<open>
  \<open>ShardedIndex::new\<close>.  The division panics for a zero divisor, and \<open>Vec::with_capacity\<close> panics
  when the lists, of three words each, take more than \<open>isize::MAX\<close> bytes; \<open>reserve\<close> tells whether
  the allocation of the vector succeeds.
\<close>

definition sh_new ::
    "(usize \<Rightarrow> nat) \<Rightarrow> (nat \<Rightarrow> bool) \<Rightarrow> sh_alloc \<Rightarrow> usize \<Rightarrow> usize \<Rightarrow> sharded_index res" where
  "sh_new ceil_log4 reserve al num_shards capacity_hint =
     (let k = next_power_of_two (max num_shards 1) in
      if k = 0 then Inl Panic
      else let per_shard = max (capacity_hint div k) 2 in
        if 2 ^ 63 \<le> unat k * 24 then Inl Panic
        else if \<not> reserve (unat k * 24) then Inl Abort
        else try_bind (push_shards ceil_log4 al per_shard (unat k) [])
          (\<lambda>v. Inr \<lparr>sh_shards = v, sh_mask = k - 1\<rparr>))"

text \<open>\<open>shard\<close>: the number of the list for a key; the indexing panics out of bounds.\<close>

definition route :: "u64 \<Rightarrow> bytes \<Rightarrow> nat" where
  "route msk key = unat (fnv1a key AND msk)"

definition shard :: "bytes \<Rightarrow> sharded_index \<Rightarrow> (nat \<times> skiplist) res" where
  "shard key sh =
     (let i = route (sh_mask sh) key in
      if i < length (sh_shards sh) then Inr (i, sh_shards sh ! i) else Inl Panic)"

definition sh_insert ::
    "sh_alloc \<Rightarrow> u64 \<Rightarrow> bytes \<Rightarrow> bytes \<Rightarrow> sharded_index \<Rightarrow> (bool \<times> u64 \<times> sharded_index) run" where
  "sh_insert al rng key val sh =
     step_bind (shard key sh) (\<lambda>(i, s).
     run_bind (sl_insert (al sh i) rng key val s) (\<lambda>(new, rng', s').
       Some (Inr (new, rng', sh\<lparr>sh_shards := (sh_shards sh)[i := s']\<rparr>))))"

definition sh_get :: "bytes \<Rightarrow> sharded_index \<Rightarrow> bytes option run" where
  "sh_get key sh = step_bind (shard key sh) (\<lambda>(i, s). sl_get key s)"

text \<open>\<open>get_owned\<close> copies the value, which is the same value.\<close>

definition sh_get_owned :: "bytes \<Rightarrow> sharded_index \<Rightarrow> bytes option run" where
  "sh_get_owned key sh =
     step_bind (shard key sh) (\<lambda>(i, s).
     run_bind (sl_get key s) (\<lambda>r. Some (Inr (map_option id r))))"

definition sh_remove :: "bytes \<Rightarrow> sharded_index \<Rightarrow> (bool \<times> sharded_index) run" where
  "sh_remove key sh =
     step_bind (shard key sh) (\<lambda>(i, s).
     run_bind (sl_remove key s) (\<lambda>(hit, s').
       Some (Inr (hit, sh\<lparr>sh_shards := (sh_shards sh)[i := s']\<rparr>))))"

definition sh_len :: "sharded_index \<Rightarrow> usize" where
  "sh_len sh = sum_list (map len (sh_shards sh))"

definition sh_is_empty :: "sharded_index \<Rightarrow> bool" where
  "sh_is_empty sh \<longleftrightarrow> sh_len sh = 0"

definition num_shards :: "sharded_index \<Rightarrow> usize" where
  "num_shards sh = of_nat (length (sh_shards sh))"

section \<open>The map of an index\<close>

text \<open>The lists are \<open>2 ^ j\<close> many, the mask selects \<open>j\<close> bits, and list \<open>i\<close> holds the keys routed to it.\<close>

definition sh_wf :: "sharded_index \<Rightarrow> bool" where
  "sh_wf sh \<longleftrightarrow> (\<exists>j < 64. length (sh_shards sh) = 2 ^ j \<and> sh_mask sh = 2 ^ j - 1)"

definition routed :: "sharded_index \<Rightarrow> nat \<Rightarrow> bytes set" where
  "routed sh i = {k. route (sh_mask sh) k = i}"

definition index_repr :: "sharded_index \<Rightarrow> (bytes \<rightharpoonup> bytes) \<Rightarrow> bool" where
  "index_repr sh m \<longleftrightarrow> sh_wf sh \<and>
     (\<forall>i < length (sh_shards sh). skip_repr (sh_shards sh ! i) (m |` routed sh i))"

definition allocators :: "sh_alloc \<Rightarrow> bool" where
  "allocators al \<longleftrightarrow> (\<forall>sh i. allocator (al sh i))"

definition some_may_fail :: "sh_alloc \<Rightarrow> bool" where
  "some_may_fail al \<longleftrightarrow> (\<exists>sh i. may_fail (al sh i))"

lemma route_less: "sh_wf sh \<Longrightarrow> route (sh_mask sh) k < length (sh_shards sh)"
  by (auto simp: sh_wf_def route_def unat_and_mask)

lemma shard_wf:
  "sh_wf sh \<Longrightarrow> shard k sh = Inr (route (sh_mask sh) k, sh_shards sh ! route (sh_mask sh) k)"
  using route_less by (simp add: shard_def Let_def)

lemma index_reprD:
  assumes "index_repr sh m" "i = route (sh_mask sh) k"
  shows "shard k sh = Inr (i, sh_shards sh ! i)" "i < length (sh_shards sh)"
    "skip_repr (sh_shards sh ! i) (m |` routed sh i)" "k \<in> routed sh i"
  using assms route_less [of sh k] shard_wf [of sh k] by (auto simp: index_repr_def routed_def)

lemma repr_update:
  assumes "index_repr sh m" "i = route (sh_mask sh) k" "skip_repr s ((m(k := v)) |` routed sh i)"
  shows "index_repr (sh\<lparr>sh_shards := (sh_shards sh)[i := s]\<rparr>) (m(k := v))"
proof -
  have "(m(k := v)) |` routed sh j = m |` routed sh j" if "j \<noteq> i" for j
    using that assms(2) by (auto simp: restrict_map_def routed_def fun_eq_iff)
  then show ?thesis
    using assms by (auto simp: index_repr_def sh_wf_def routed_def nth_list_update)
qed

lemma restrict_upd [simp]: "k \<in> A \<Longrightarrow> (m(k := v)) |` A = (m |` A)(k := v)"
  by (auto simp: restrict_map_def fun_eq_iff)

lemma index_card:
  assumes "index_repr sh m"
  shows "finite (dom m)" "card (dom m) = (\<Sum>i < length (sh_shards sh). card (dom (m |` routed sh i)))"
proof -
  let ?n = "length (sh_shards sh)" and ?D = "\<lambda>i. dom (m |` routed sh i)"
  have fin: "finite (?D i)" if "i < ?n" for i
    using assms that skip.count_law [of "sh_shards sh ! i" "m |` routed sh i"] by (simp add: index_repr_def)
  have "sh_wf sh" using assms by (simp add: index_repr_def)
  then have dom: "dom m = (\<Union>i < ?n. ?D i)" using route_less [of sh] by (auto simp: routed_def)
  have "finite (\<Union>i < ?n. ?D i)" using fin by (intro finite_UN_I) auto
  then show "finite (dom m)" by (subst dom)
  have "card (\<Union>i \<in> {..<?n}. ?D i) = (\<Sum>i < ?n. card (?D i))"
    using fin by (intro card_UN_disjoint) (auto simp: routed_def restrict_map_def split: if_splits simp del: dom_restrict)
  then show "card (dom m) = (\<Sum>i < ?n. card (?D i))" by (subst dom)
qed

interpretation sharded: kv_index allocators some_may_fail "\<lambda>_ _. True" index_repr sh_insert sh_get sh_remove sh_len
proof
  fix e :: sh_alloc and sh m rng k v
  let ?i = "route (sh_mask sh) k" and ?r = "routed sh (route (sh_mask sh) k)"
  assume e: "allocators e" and r: "index_repr sh m"
  note D = index_reprD [OF r refl, of k]
  have al: "allocator (e sh ?i)" using e by (simp add: allocators_def)
  from skip.ins_law [OF al TrueI D(3), of rng k v]
  show "(sh_insert e rng k v sh = Some (Inl Abort) \<and> some_may_fail e) \<or>
    (\<exists>rng' s'. sh_insert e rng k v sh = Some (Inr (m k = None, rng', s')) \<and> index_repr s' (m(k \<mapsto> v)))"
  proof (elim disjE exE conjE)
    assume "sl_insert (e sh ?i) rng k v (sh_shards sh ! ?i) = Some (Inl Abort)" "may_fail (e sh ?i)"
    then show ?thesis using D(1) by (auto simp: sh_insert_def some_may_fail_def)
  next
    fix rng' s'
    assume "sl_insert (e sh ?i) rng k v (sh_shards sh ! ?i) = Some (Inr ((m |` ?r) k = None, rng', s'))"
      and s': "skip_repr s' ((m |` ?r)(k \<mapsto> v))"
    then have "sh_insert e rng k v sh =
        Some (Inr (m k = None, rng', sh\<lparr>sh_shards := (sh_shards sh)[?i := s']\<rparr>))"
      using D(1,4) by (simp add: sh_insert_def restrict_in)
    moreover have "index_repr (sh\<lparr>sh_shards := (sh_shards sh)[?i := s']\<rparr>) (m(k \<mapsto> v))"
      using s' D(4) by (intro repr_update [OF r refl]) simp
    ultimately show ?thesis by blast
  qed
next
  fix sh m k
  assume r: "index_repr sh m"
  let ?i = "route (sh_mask sh) k" and ?r = "routed sh (route (sh_mask sh) k)"
  note D = index_reprD [OF r refl, of k]
  show "sh_get k sh = Some (Inr (m k))"
    using skip.look_law [OF D(3), of k] D(1,4) by (simp add: sh_get_def)
  obtain s' where s': "sl_remove k (sh_shards sh ! ?i) = Some (Inr ((m |` ?r) k \<noteq> None, s'))"
    "skip_repr s' ((m |` ?r)(k := None))"
    using skip.del_law [OF D(3), of k] by blast
  have "sh_remove k sh = Some (Inr (m k \<noteq> None, sh\<lparr>sh_shards := (sh_shards sh)[?i := s']\<rparr>))"
    using s'(1) D(1,4) by (simp add: sh_remove_def restrict_in)
  moreover have "index_repr (sh\<lparr>sh_shards := (sh_shards sh)[?i := s']\<rparr>) (m(k := None))"
    using s'(2) D(4) by (intro repr_update [OF r refl]) simp
  ultimately show "\<exists>s'. sh_remove k sh = Some (Inr (m k \<noteq> None, s')) \<and> index_repr s' (m(k := None))"
    by blast
  have "sh_len sh = (\<Sum>i < length (sh_shards sh). len (sh_shards sh ! i))"
    by (simp add: sh_len_def sum_list_sum_nth atLeast0LessThan)
  also have "\<dots> = (\<Sum>i < length (sh_shards sh). of_nat (card (dom (m |` routed sh i))))"
  proof (intro sum.cong refl)
    fix i assume "i \<in> {..<length (sh_shards sh)}"
    then have "skip_repr (sh_shards sh ! i) (m |` routed sh i)" using r by (simp add: index_repr_def)
    then show "len (sh_shards sh ! i) = of_nat (card (dom (m |` routed sh i)))"
      using skip.count_law by blast
  qed
  finally show "finite (dom m) \<and> sh_len sh = of_nat (card (dom m))"
    using index_card [OF r] by simp
qed

section \<open>Construction\<close>

lemma push_shards_repr:
  assumes "allocators al" "\<forall>s \<in> set v. skip_repr s Map.empty"
    "push_shards ceil_log4 al per_shard n v = Inr v'"
  shows "length v' = length v + n \<and> (\<forall>s \<in> set v'. skip_repr s Map.empty)"
  using assms(2,3)
proof (induction n arbitrary: v)
  case (Suc n)
  let ?al = "al \<lparr>sh_shards = v, sh_mask = 0\<rparr> (length v)"
  from Suc.prems(2) obtain s where s: "with_capacity_hint ceil_log4 ?al per_shard = Inr s"
    and rest: "push_shards ceil_log4 al per_shard n (v @ [s]) = Inr v'"
    by (auto simp: try_bind_def split: sum.splits)
  have "allocator ?al" using assms(1) by (simp add: allocators_def)
  then have "skip_repr s Map.empty" using s by (rule hint_skip_repr)
  then have "\<forall>s \<in> set (v @ [s]). skip_repr s Map.empty" using Suc.prems(1) by simp
  from Suc.IH [OF this rest] show ?case by simp
qed simp

lemma sh_new_Inr:
  assumes "sh_new ceil_log4 reserve al n hint = Inr sh"
  obtains j v where "j < 64" "next_power_of_two (max n 1) = 2 ^ j" "sh = \<lparr>sh_shards = v, sh_mask = 2 ^ j - 1\<rparr>"
    "push_shards ceil_log4 al (max (hint div 2 ^ j) 2) (2 ^ j) [] = Inr v"
proof -
  let ?k = "next_power_of_two (max n 1)"
  have k: "?k \<noteq> 0" using assms by (auto simp: sh_new_def Let_def)
  then obtain j where j: "j < 64" "?k = 2 ^ j"
    by (auto simp: next_power_of_two_def find_Some_iff split: option.splits)
  then show ?thesis
    using assms that [OF j] by (auto simp: sh_new_def Let_def word_facts try_bind_def split: if_splits sum.splits)
qed

lemma new_index_repr:
  assumes "allocators al" "sh_new ceil_log4 reserve al n hint = Inr sh"
  shows "index_repr sh Map.empty"
proof -
  obtain j v where j: "j < 64" and sh: "sh = \<lparr>sh_shards = v, sh_mask = 2 ^ j - 1\<rparr>"
    and v: "push_shards ceil_log4 al (max (hint div 2 ^ j) 2) (2 ^ j) [] = Inr v"
    by (rule sh_new_Inr [OF assms(2)]) blast
  have "length v = 2 ^ j" "\<forall>s \<in> set v. skip_repr s Map.empty"
    using push_shards_repr [OF assms(1) _ v] by simp_all
  then show ?thesis using j sh by (auto simp: index_repr_def sh_wf_def restrict_map_def)
qed

lemma small_index:
  "\<exists>sh. sh_new (\<lambda>_. 2) (\<lambda>_. True) (\<lambda>_ _. small_alloc) 2 100 = Inr sh \<and> allocators (\<lambda>_ _. small_alloc) \<and>
    (\<forall>rng k v. sh_insert (\<lambda>_ _. small_alloc) rng k v sh \<noteq> Some (Inl Abort))"
proof -
  define c where "c = (\<lambda>_ :: usize. 2 :: nat)"
  obtain sl where new: "with_max_level small_alloc 1 = Inr sl" using small_new by blast
  then have hint: "with_capacity_hint c small_alloc h = Inr sl" for h
    by (simp add: with_capacity_hint_def MAX_HEIGHT_def c_def)
  have push: "push_shards c (\<lambda>_ _. small_alloc) h 2 [] = Inr [sl, sl]" for h
    by (simp add: numeral_2_eq_2 hint)
  have "next_power_of_two (max 2 1) = 2" by (simp add: next_power_of_two_def upt_rec)
  then have "sh_new c (\<lambda>_. True) (\<lambda>_ _. small_alloc) 2 100 = Inr \<lparr>sh_shards = [sl, sl], sh_mask = 1\<rparr>"
    by (simp add: sh_new_def Let_def push)
  moreover have "sh_insert (\<lambda>_ _. small_alloc) rng k v \<lparr>sh_shards = [sl, sl], sh_mask = 1\<rparr> \<noteq> Some (Inl Abort)" for rng k v
    using small_insert [OF new, of rng k v]
    by (auto simp: sh_insert_def shard_def Let_def run_bind_def nth_Cons' step_bind_def split: bind_splits sum.splits)
  ultimately show ?thesis using small_alloc by (simp add: allocators_def c_def)
qed

section \<open>Properties\<close>

text \<open>
  C5: Any sequence of insertions, lookups and deletions on a new sharded index returns what it
  returns on one finite map, terminates and never panics; \<open>len\<close> summed over the lists is the
  number of keys.  Routing sends every operation on a key to the same list.
\<close>

theorem sharded_refines_map:
  assumes "allocators al" "sh_new ceil_log4 reserve al n hint = Inr sh"
  shows "(kv_run (sh_insert al) sh_get sh_remove ops rng sh = Some (Inl Abort) \<and> some_may_fail al) \<or>
    (\<exists>rng' sh'. kv_run (sh_insert al) sh_get sh_remove ops rng sh =
        Some (Inr (fst (map_ops ops Map.empty), rng', sh')) \<and>
      sh_len sh' = of_nat (card (dom (snd (map_ops ops Map.empty)))))"
  using sharded.run_refines [OF assms(1) new_index_repr [OF assms], of ops rng, simplified] sharded.count_law by blast

theorem sharded_refines_map_witness:
  "\<exists>sh rng' sh'. sh_new (\<lambda>_. 2) (\<lambda>_. True) (\<lambda>_ _. small_alloc) 2 100 = Inr sh \<and>
     kv_run (sh_insert (\<lambda>_ _. small_alloc)) sh_get sh_remove [Put [1] [2], Get [1], Get [3]] 5 sh =
       Some (Inr ([Inserted True, Got (Some [2]), Got None], rng', sh')) \<and> sh_len sh' = 1"
proof -
  let ?ops = "[Put [1] [2], Get [1], Get [3]]"
  obtain sh where sh: "sh_new (\<lambda>_. 2) (\<lambda>_. True) (\<lambda>_ _. small_alloc) 2 100 = Inr sh"
    "allocators (\<lambda>_ _. small_alloc)" "sh_insert (\<lambda>_ _. small_alloc) 5 [1] [2] sh \<noteq> Some (Inl Abort)"
    using small_index by blast
  have "kv_run (sh_insert (\<lambda>_ _. small_alloc)) sh_get sh_remove ?ops 5 sh \<noteq> Some (Inl Abort)"
    by (rule sharded.one_put [OF sh(2) TrueI new_index_repr [OF sh(2,1)] sh(3)]) simp
  with sharded_refines_map [OF sh(2,1), of ?ops 5] sh(1) show ?thesis by (auto simp: Let_def)
qed

text \<open>
  C37: A new index has the least power of two that is at least the requested number of lists, the
  mask is one less than it, and every key is sent, without a panic, to the list whose number is
  the FNV-1a hash of the key modulo the number of lists.
\<close>

theorem routing_in_bounds:
  assumes "allocators al" "sh_new ceil_log4 reserve al n hint = Inr sh"
  shows "is_power_of_two (num_shards sh) \<and> unat (max n 1) \<le> unat (num_shards sh) \<and>
    (\<forall>p. is_power_of_two p \<and> unat (max n 1) \<le> unat p \<longrightarrow> unat (num_shards sh) \<le> unat p) \<and>
    sh_mask sh = num_shards sh - 1 \<and> length (sh_shards sh) = unat (num_shards sh) \<and>
    (\<exists>i < length (sh_shards sh). i = unat (fnv1a key) mod unat (num_shards sh) \<and>
       shard key sh = Inr (i, sh_shards sh ! i))"
proof -
  obtain j v where j: "j < 64" and k: "next_power_of_two (max n 1) = 2 ^ j"
    and sh: "sh = \<lparr>sh_shards = v, sh_mask = 2 ^ j - 1\<rparr>"
    and v: "push_shards ceil_log4 al (max (hint div 2 ^ j) 2) (2 ^ j) [] = Inr v"
    by (rule sh_new_Inr [OF assms(2)]) blast
  have len: "length v = 2 ^ j" using push_shards_repr [OF assms(1) _ v] by simp
  then have num: "num_shards sh = next_power_of_two (max n 1)" by (simp add: num_shards_def sh k)
  have le: "unat (max n 1) \<le> 2 ^ 63"
  proof (rule ccontr)
    assume gt: "\<not> unat (max n 1) \<le> 2 ^ 63"
    have "\<not> unat (max n 1) \<le> 2 ^ i" if "i < 64" for i
      using gt that power_increasing [of i 63 "2 :: nat"] by auto
    then have "find (\<lambda>k. unat (max n 1) \<le> 2 ^ k) [0..<64] = None" by (simp add: find_None_iff)
    then show False using k j by (simp add: next_power_of_two_def)
  qed
  have "sh_wf sh" using new_index_repr [OF assms] by (simp add: index_repr_def)
  moreover have "route (sh_mask sh) key = unat (fnv1a key) mod unat (num_shards sh)"
    unfolding num k using j by (simp add: route_def sh unat_and_mask unat_pow2)
  ultimately have "\<exists>i < length (sh_shards sh). i = unat (fnv1a key) mod unat (num_shards sh) \<and>
      shard key sh = Inr (i, sh_shards sh ! i)"
    using route_less [of sh key] shard_wf [of sh key] by auto
  moreover have "sh_mask sh = num_shards sh - 1" "length (sh_shards sh) = unat (num_shards sh)"
    using j len by (simp_all add: num_shards_def sh unat_pow2)
  ultimately show ?thesis
    unfolding num using next_power_of_two_pow2 [OF le] next_power_of_two_ge [OF le]
      next_power_of_two_least [OF le] by blast
qed

theorem routing_in_bounds_witness:
  "\<exists>sh. sh_new (\<lambda>_. 2) (\<lambda>_. True) (\<lambda>_ _. small_alloc) 2 100 = Inr sh \<and>
    num_shards sh = 2 \<and> shard [1] sh = Inr (0, sh_shards sh ! 0) \<and>
    shard [2] sh = Inr (1, sh_shards sh ! 1)"
proof -
  obtain sh where sh: "sh_new (\<lambda>_. 2) (\<lambda>_. True) (\<lambda>_ _. small_alloc) 2 100 = Inr sh"
    "allocators (\<lambda>_ _. small_alloc)" using small_index by blast
  note R = routing_in_bounds [OF sh(2,1)]
  have "is_power_of_two 2" unfolding is_power_of_two_def by (rule bexI [of _ 1]) simp_all
  moreover have "unat (max 2 1 :: usize) = 2" by (simp add: max_def word_le_nat_alt)
  ultimately have "unat (num_shards sh) \<le> unat (2 :: usize)" "2 \<le> unat (num_shards sh)"
    using R [of "[]"] by auto
  then have "unat (num_shards sh) = unat (2 :: usize)" by simp
  then have num: "num_shards sh = 2" by (simp only: word_unat_eq_iff)
  have h: "fnv1a [1] = 0xaf63bc4c8601b62c" "fnv1a [2] = 0xaf63bf4c8601bb45"
    by (simp_all add: fnv1a_def)
  show ?thesis using sh(1) num R [of "[1]"] R [of "[2]"] by (simp add: h)
qed

lemma push_shards_no_panic:
  assumes "allocators al"
  shows "push_shards ceil_log4 al per_shard n v \<noteq> Inl Panic \<and> push_shards ceil_log4 al per_shard n v \<noteq> Inl UB"
proof (induction n arbitrary: v)
  case (Suc n)
  let ?al = "al \<lparr>sh_shards = v, sh_mask = 0\<rparr> (length v)"
  let ?m = "max 1 (min MAX_HEIGHT (ceil_log4 (max per_shard 2))) - 1"
  have m: "?m < MAX_HEIGHT" by (simp add: MAX_HEIGHT_def)
  have "allocator ?al" using assms by (simp add: allocators_def)
  from with_max_level_spec [OF this m] have
    "with_capacity_hint ceil_log4 ?al per_shard = Inl Abort \<or>
     (\<exists>s. with_capacity_hint ceil_log4 ?al per_shard = Inr s)"
    unfolding with_capacity_hint_def by blast
  then show ?case using Suc.IH by auto
qed simp

lemma shard_count_fits:
  "2 ^ 63 \<le> unat (next_power_of_two (max n 1)) * 24 \<or> next_power_of_two (max n 1) = 0 \<longleftrightarrow> 2 ^ 58 < unat n"
proof (cases "unat n \<le> 2 ^ 58")
  case True
  then have le: "unat (max n 1) \<le> 2 ^ 58" by (simp add: max_def)
  have p: "is_power_of_two (2 ^ 58)" unfolding is_power_of_two_def by (rule bexI [of _ 58]) simp_all
  have "unat (next_power_of_two (max n 1)) \<le> unat (2 ^ 58 :: usize)"
    using le by (intro next_power_of_two_least p) (simp_all add: unat_pow2)
  moreover have "1 \<le> unat (next_power_of_two (max n 1))"
    using le by (intro is_power_of_two_ge1 next_power_of_two_pow2) simp
  ultimately show ?thesis using True by (auto simp: unat_pow2)
next
  case False
  have "2 ^ 59 \<le> unat (next_power_of_two (max n 1))" if nz: "next_power_of_two (max n 1) \<noteq> 0"
  proof -
    from nz obtain j where j: "j < 64" "next_power_of_two (max n 1) = 2 ^ j" "unat (max n 1) \<le> 2 ^ j"
      by (auto simp: next_power_of_two_def find_Some_iff split: option.splits)
    have "unat n \<le> unat (max n 1)" by (simp add: word_le_nat_alt [symmetric])
    then have "2 ^ 58 < (2 :: nat) ^ j" using j(3) False by linarith
    then have "59 \<le> j" using power_strict_increasing_iff [of "2 :: nat" 58 j] by linarith
    then show ?thesis using j(1,2) power_increasing [of 59 j "2 :: nat"] by (simp add: unat_pow2)
  qed
  then show ?thesis using False by fastforce
qed

text \<open>
  The construction of an index panics exactly when more than \<open>2 ^ 58\<close> lists are requested, and
  touches no invalid memory; apart from that it succeeds or aborts on a failed allocation.
\<close>

lemma sh_new_panics_iff:
  assumes "allocators al"
  shows "(sh_new ceil_log4 reserve al n hint = Inl Panic \<longleftrightarrow> 2 ^ 58 < unat n) \<and>
    sh_new ceil_log4 reserve al n hint \<noteq> Inl UB"
proof -
  let ?k = "next_power_of_two (max n 1)"
  let ?p = "push_shards ceil_log4 al (max (hint div ?k) 2) (unat ?k) []"
  have "?p \<noteq> Inl Panic \<and> ?p \<noteq> Inl UB" by (rule push_shards_no_panic [OF assms])
  then show ?thesis
    unfolding sh_new_def Let_def shard_count_fits [of n, symmetric] by (cases ?p) auto
qed

end
