(* ===== verification/MmapLog.thy ===== *)
theory MmapLog
  imports Prelude
begin

text \<open>
  The write-ahead log, \<open>crates/zerokv/src/mmap_log.rs\<close>: a page-aligned buffer with an append cursor
  and an index of raw pointers into the buffer, loaded from and flushed to a file.  The live
  allocations are a map from addresses to sizes, so that a leak and a wrong deallocation are
  visible; the allocator is an argument.  A file is its bytes and the position of the handle, and
  an argument says which system calls fail.
\<close>

section \<open>Files and allocations\<close>

record os_file =
  f_data :: bytes
  f_pos :: nat

text \<open>The calls that may fail, and how many bytes a failing \<open>write_all\<close> has written.\<close>

datatype io_call = OpenFile | ReadToEnd | SeekEnd | SeekStart | WriteAll | FlushFile

record os =
  os_fails :: "io_call \<Rightarrow> bool"
  os_written :: nat

definition file_write :: "bytes \<Rightarrow> os_file \<Rightarrow> os_file" where
  "file_write xs f =
     f\<lparr>f_data := take (f_pos f) (f_data f @ replicate (f_pos f - length (f_data f)) 0) @ xs @
                  drop (f_pos f + length xs) (f_data f),
       f_pos := f_pos f + length xs\<rparr>"

type_synonym heap = "usize \<rightharpoonup> usize"

type_synonym page_alloc = "heap \<Rightarrow> usize \<Rightarrow> usize"

section \<open>Model\<close>

definition PAGE :: usize where
  "PAGE = 4096"

record mapped_log =
  ml_base :: usize
  ml_cap :: usize
  ml_len :: usize
  ml_spans :: "(usize \<times> usize) list"
  ml_file :: os_file
  ml_buf :: bytes

definition round_page :: "usize \<Rightarrow> usize" where
  "round_page cap = (cap + PAGE - 1) AND NOT (PAGE - 1)"

text \<open>\<open>Layout::from_size_align\<close> with page alignment fails beyond \<open>isize::MAX\<close> after rounding up.\<close>

definition layout_ok :: "usize \<Rightarrow> bool" where
  "layout_ok sz \<longleftrightarrow> unat sz \<le> 2 ^ 63 - 4096"

text \<open>
  \<open>open\<close>: an allocation of size 0 is undefined behaviour, a failed one aborts.  The error returns
  after the allocation leave it live.
\<close>

definition log_open ::
    "page_alloc \<Rightarrow> os \<Rightarrow> os_file \<Rightarrow> usize \<Rightarrow> heap \<Rightarrow> ((mapped_log, io_call) result \<times> heap) res" where
  "log_open al os f cap0 h =
     (let cap = round_page cap0 in
      if \<not> layout_ok cap then Inl Panic
      else if cap = 0 then Inl UB
      else let base = al h cap in
      if base = 0 then Inl Abort
      else let h' = h(base \<mapsto> cap) in
      if os_fails os OpenFile then Inr (Err OpenFile, h')
      else if os_fails os ReadToEnd then Inr (Err ReadToEnd, h')
      else let existing = f_data f; len = min (length existing) (unat cap);
             buf = write_at 0 (take len existing) (replicate (unat cap) 0)
        in if os_fails os SeekEnd then Inr (Err SeekEnd, h')
           else Inr (Ok \<lparr>ml_base = base, ml_cap = cap, ml_len = of_nat len, ml_spans = [],
                         ml_file = f\<lparr>f_pos := length (f_data f)\<rparr>, ml_buf = buf\<rparr>, h'))"

text \<open>\<open>append\<close>: the copy to \<open>base + len\<close> must stay inside the buffer.\<close>

definition log_append :: "bytes \<Rightarrow> mapped_log \<Rightarrow> (usize option \<times> mapped_log) res" where
  "log_append bytes l =
     (let n = of_nat (length bytes) in
      if ml_len l + n > ml_cap l then Inr (None, l)
      else let dst = ml_base l + ml_len l; off = unat (ml_len l) in
        if length (ml_buf l) < off + length bytes then Inl UB
        else let l' = l\<lparr>ml_buf := write_at off bytes (ml_buf l), ml_spans := ml_spans l @ [(dst, n)],
                        ml_len := ml_len l + n\<rparr>
          in Inr (Some (of_nat (length (ml_spans l')) - 1), l'))"

text \<open>\<open>from_raw_parts\<close> on a span: its bytes must lie inside the buffer.\<close>

definition read_span :: "mapped_log \<Rightarrow> usize \<times> usize \<Rightarrow> bytes res" where
  "read_span l sp =
     (let off = unat (fst sp - ml_base l); n = unat (snd sp) in
      if length (ml_buf l) < off + n then Inl UB else Inr (region off n (ml_buf l)))"

definition log_record :: "usize \<Rightarrow> mapped_log \<Rightarrow> bytes option res" where
  "log_record index l =
     (if unat index < length (ml_spans l)
      then try_bind (read_span l (ml_spans l ! unat index)) (\<lambda>b. Inr (Some b))
      else Inr None)"

definition log_flush :: "os \<Rightarrow> mapped_log \<Rightarrow> ((unit, io_call) result \<times> mapped_log) res" where
  "log_flush os l =
     try_bind (read_span l (ml_base l, ml_len l)) (\<lambda>data.
       if os_fails os SeekStart then Inr (Err SeekStart, l)
       else let f = (ml_file l)\<lparr>f_pos := 0\<rparr> in
         if os_fails os WriteAll
         then Inr (Err WriteAll, l\<lparr>ml_file := file_write (take (os_written os) data) f\<rparr>)
         else let l' = l\<lparr>ml_file := file_write data f\<rparr> in
           if os_fails os FlushFile then Inr (Err FlushFile, l') else Inr (Ok (), l'))"

definition log_len :: "mapped_log \<Rightarrow> usize" where
  "log_len l = ml_len l"

definition log_capacity :: "mapped_log \<Rightarrow> usize" where
  "log_capacity l = ml_cap l"

definition log_is_empty :: "mapped_log \<Rightarrow> bool" where
  "log_is_empty l \<longleftrightarrow> ml_len l = 0"

text \<open>\<open>Drop\<close>: the deallocation must name a live allocation with its size.\<close>

definition log_drop :: "mapped_log \<Rightarrow> heap \<Rightarrow> heap res" where
  "log_drop l h =
     (if \<not> layout_ok (ml_cap l) then Inl Panic
      else if h (ml_base l) = Some (ml_cap l) then Inr (h(ml_base l := None)) else Inl UB)"

section \<open>Allocator\<close>

text \<open>A returned block is new, page aligned and does not run over the end of the address space.\<close>

definition page_allocator :: "page_alloc \<Rightarrow> bool" where
  "page_allocator al \<longleftrightarrow>
     (\<forall>h sz. al h sz \<noteq> 0 \<longrightarrow> h (al h sz) = None \<and> al h sz AND (PAGE - 1) = 0 \<and> unat (al h sz) + unat sz \<le> 2 ^ 64)"

section \<open>Invariant\<close>

text \<open>
  \<open>log_inv pre rs l\<close>: the buffer starts with the bytes \<open>pre\<close> loaded from the file, followed by the
  records \<open>rs\<close>, and span \<open>i\<close> is the place of record \<open>i\<close>.
\<close>

definition span_at :: "usize \<Rightarrow> bytes \<Rightarrow> bytes list \<Rightarrow> nat \<Rightarrow> usize \<times> usize" where
  "span_at base pre rs i =
     (base + of_nat (length pre + length (concat (take i rs))), of_nat (length (rs ! i)))"

definition log_inv :: "bytes \<Rightarrow> bytes list \<Rightarrow> mapped_log \<Rightarrow> bool" where
  "log_inv pre rs l \<longleftrightarrow>
     length (ml_buf l) = unat (ml_cap l) \<and> unat (ml_cap l) \<le> 2 ^ 63 - 4096 \<and>
     unat (ml_len l) = length pre + length (concat rs) \<and> ml_len l \<le> ml_cap l \<and>
     take (unat (ml_len l)) (ml_buf l) = pre @ concat rs \<and>
     ml_spans l = map (span_at (ml_base l) pre rs) [0..<length rs]"

lemma log_invD:
  assumes "log_inv pre rs l"
  shows "length (ml_buf l) = unat (ml_cap l)" "unat (ml_cap l) \<le> 2 ^ 63 - 4096"
    "unat (ml_len l) = length pre + length (concat rs)" "unat (ml_len l) \<le> unat (ml_cap l)"
    "take (unat (ml_len l)) (ml_buf l) = pre @ concat rs"
    "ml_spans l = map (span_at (ml_base l) pre rs) [0..<length rs]"
  using assms unfolding log_inv_def word_le_nat_alt by - (elim conjE, assumption)+

lemma log_inv_append:
  assumes "log_inv pre rs l" "length b < 2 ^ 63" "length rs < 2 ^ 63"
  shows "log_append b l = (if unat (ml_len l) + length b \<le> unat (ml_cap l)
    then Inr (Some (of_nat (length rs)), l\<lparr>ml_buf := write_at (unat (ml_len l)) b (ml_buf l),
        ml_spans := ml_spans l @ [(ml_base l + ml_len l, of_nat (length b))], ml_len := ml_len l + of_nat (length b)\<rparr>)
    else Inr (None, l))"
proof -
  have L: "unat (ml_len l) \<le> 2 ^ 63 - 4096" using log_invD(2,4) [OF assms(1)] by simp
  have n: "unat (of_nat (length b) :: usize) = length b" using assms(2) by (simp add: unat_of_nat)
  have "unat (ml_len l + of_nat (length b)) = unat (ml_len l) + length b"
    using L assms(2) n by (subst unat_add_no_wrap) simp_all
  then have "ml_len l + of_nat (length b) > ml_cap l \<longleftrightarrow> unat (ml_cap l) < unat (ml_len l) + length b"
    by (simp add: word_less_nat_alt)
  then show ?thesis
    using assms by (auto simp: log_append_def Let_def log_inv_def not_le)
qed

lemma log_inv_step:
  assumes "log_inv pre rs l" "length b < 2 ^ 63" "length rs < 2 ^ 63" "unat (ml_len l) + length b \<le> unat (ml_cap l)"
  shows "\<exists>l'. log_append b l = Inr (Some (of_nat (length rs)), l') \<and> log_inv pre (rs @ [b]) l' \<and>
    ml_cap l' = ml_cap l \<and> ml_base l' = ml_base l \<and> ml_file l' = ml_file l"
proof -
  let ?l = "l\<lparr>ml_buf := write_at (unat (ml_len l)) b (ml_buf l),
    ml_spans := ml_spans l @ [(ml_base l + ml_len l, of_nat (length b))], ml_len := ml_len l + of_nat (length b)\<rparr>"
  have n: "unat (of_nat (length b) :: usize) = length b" using assms(2) by (simp add: unat_of_nat)
  note cap = log_invD(2,1,3,5) [OF assms(1)]
  have len: "unat (ml_len l + of_nat (length b)) = unat (ml_len l) + length b"
    using cap(1) assms(4) n by (subst unat_add_no_wrap) simp_all
  have "ml_len l = of_nat (length pre + length (concat rs))" by (simp only: cap(3) [symmetric]) simp
  then have spans: "ml_spans ?l = map (span_at (ml_base l) pre (rs @ [b])) [0..<length (rs @ [b])]"
    using assms(1) by (simp add: log_inv_def span_at_def nth_append)
  have "log_inv pre (rs @ [b]) ?l"
    using cap len spans assms(4) by (simp add: log_inv_def word_le_nat_alt write_at_def)
  then show ?thesis using log_inv_append [OF assms(1,2,3)] assms(4) by simp
qed

text \<open>The records that fit, in order, into a given room; a record that does not fit is skipped.\<close>

fun accepted :: "nat \<Rightarrow> bytes list \<Rightarrow> bytes list" where
  "accepted room [] = []"
| "accepted room (b # bs) =
     (if length b \<le> room then b # accepted (room - length b) bs else accepted room bs)"

fun log_appends :: "bytes list \<Rightarrow> mapped_log \<Rightarrow> mapped_log res" where
  "log_appends [] l = Inr l"
| "log_appends (b # bs) l = try_bind (log_append b l) (\<lambda>(_, l'). log_appends bs l')"

definition room :: "mapped_log \<Rightarrow> nat" where
  "room l = unat (ml_cap l) - unat (ml_len l)"

lemma log_appends_inv:
  assumes "log_inv pre rs l" "\<forall>b \<in> set bs. length b < 2 ^ 63" "length rs + length bs < 2 ^ 63"
  shows "\<exists>l'. log_appends bs l = Inr l' \<and> log_inv pre (rs @ accepted (room l) bs) l' \<and>
    ml_cap l' = ml_cap l \<and> ml_base l' = ml_base l \<and> ml_file l' = ml_file l"
  using assms
proof (induction bs arbitrary: rs l)
  case (Cons b bs)
  have b: "length b < 2 ^ 63" "length rs < 2 ^ 63" using Cons.prems(2,3) by simp_all
  note le = log_invD(4) [OF Cons.prems(1)]
  show ?case
  proof (cases "unat (ml_len l) + length b \<le> unat (ml_cap l)")
    case True
    from log_inv_step [OF Cons.prems(1) b True] obtain l1 where
      l1: "log_append b l = Inr (Some (of_nat (length rs)), l1)" "log_inv pre (rs @ [b]) l1"
        "ml_cap l1 = ml_cap l" "ml_base l1 = ml_base l" "ml_file l1 = ml_file l" by blast
    have "unat (ml_len l1) = unat (ml_len l) + length b"
      using l1(2) Cons.prems(1) by (simp add: log_inv_def)
    then have r: "room l1 = room l - length b" "length b \<le> room l"
      using True by (simp_all add: room_def l1(3))
    have "\<exists>l'. log_appends bs l1 = Inr l' \<and> log_inv pre ((rs @ [b]) @ accepted (room l1) bs) l' \<and>
      ml_cap l' = ml_cap l1 \<and> ml_base l' = ml_base l1 \<and> ml_file l' = ml_file l1"
      using Cons.prems(2,3) by (intro Cons.IH [OF l1(2)]) simp_all
    then show ?thesis using l1(1,3-5) r by simp
  next
    case False
    then have "log_append b l = Inr (None, l)" "\<not> length b \<le> room l"
      using log_inv_append [OF Cons.prems(1) b] le by (auto simp: room_def)
    then show ?thesis using Cons.IH [OF Cons.prems(1)] Cons.prems(2,3) by simp
  qed
qed auto

lemma region_prefix: "off + n \<le> k \<Longrightarrow> region off n (take k buf) = region off n buf"
  by (simp add: region_def drop_take min_def)

lemma read_span_inv:
  assumes "log_inv pre rs l" "off + n \<le> unat (ml_len l)"
  shows "read_span l (ml_base l + of_nat off, of_nat n) = Inr (region off n (pre @ concat rs))"
proof -
  note b = log_invD [OF assms(1)]
  have u: "unat (of_nat off :: usize) = off" "unat (of_nat n :: usize) = n"
    using b(2,4) assms(2) by (simp_all add: unat_of_nat)
  have "region off n (ml_buf l) = region off n (pre @ concat rs)"
    using region_prefix [OF assms(2), of "ml_buf l"] b(5) by simp
  then show ?thesis using u b(4) assms(2) b(1) by (simp add: read_span_def Let_def)
qed

lemma concat_split: "i < length rs \<Longrightarrow> concat rs = concat (take i rs) @ rs ! i @ concat (drop (Suc i) rs)"
  by (subst id_take_nth_drop [of i rs]) simp_all

lemma log_record_inv:
  assumes "log_inv pre rs l" "length rs < 2 ^ 63"
  shows "log_record i l = Inr (if unat i < length rs then Some (rs ! unat i) else None)"
proof (cases "unat i < length rs")
  case True
  let ?off = "length pre + length (concat (take (unat i) rs))"
  note sp = log_invD(6) [OF assms(1)] and len = log_invD(3) [OF assms(1)]
  note split = concat_split [OF True]
  have "?off + length (rs ! unat i) \<le> unat (ml_len l)" unfolding len by (subst split) simp
  from read_span_inv [OF assms(1) this]
  have "read_span l (ml_spans l ! unat i) = Inr (region ?off (length (rs ! unat i)) (pre @ concat rs))"
    using True by (simp add: sp span_at_def)
  also have "region ?off (length (rs ! unat i)) (pre @ concat rs) = rs ! unat i"
    by (subst split) (simp add: region_def)
  finally show ?thesis using True by (simp add: log_record_def sp)
next
  case False
  then show ?thesis using assms(1) by (simp add: log_record_def log_inv_def)
qed

section \<open>Opening and flushing\<close>

definition no_fail :: os where
  "no_fail = \<lparr>os_fails = \<lambda>_. False, os_written = 0\<rparr>"

lemma take_min: "take (min (length xs) n) xs = take n xs"
  by (simp add: min_def)

lemma log_open_inv:
  assumes "log_open al os f cap h = Inr (Ok l, h')"
  shows "log_inv (take (unat (round_page cap)) (f_data f)) [] l" "ml_cap l = round_page cap"
    "f_data (ml_file l) = f_data f" "h' = h(ml_base l \<mapsto> ml_cap l)" "ml_base l = al h (round_page cap)"
    "ml_base l \<noteq> 0" "layout_ok (ml_cap l)" "ml_spans l = []"
    "unat (ml_len l) = min (length (f_data f)) (unat (ml_cap l))"
proof -
  let ?c = "round_page cap" let ?n = "min (length (f_data f)) (unat (round_page cap))"
  have "?n \<le> unat ?c" by simp
  then have "?n < 2 ^ 64" using unsigned_less [of ?c, where ?'a = nat] by simp
  then have u: "unat (of_nat ?n :: usize) = ?n" by (simp add: unat_of_nat)
  from assms have l: "l = \<lparr>ml_base = al h ?c, ml_cap = ?c, ml_len = of_nat ?n, ml_spans = [],
      ml_file = f\<lparr>f_pos := length (f_data f)\<rparr>, ml_buf = write_at 0 (take ?n (f_data f)) (replicate (unat ?c) 0)\<rparr>"
    and rest: "h' = h(al h ?c \<mapsto> ?c)" "al h ?c \<noteq> 0" "layout_ok ?c"
    by (auto simp: log_open_def Let_def split: if_splits)
  show "log_inv (take (unat (round_page cap)) (f_data f)) [] l"
    using u rest(3) by (simp add: l log_inv_def layout_ok_def write_at_def word_le_nat_alt take_min)
  show "ml_cap l = round_page cap" "f_data (ml_file l) = f_data f" "h' = h(ml_base l \<mapsto> ml_cap l)"
    "ml_base l = al h (round_page cap)" "ml_base l \<noteq> 0" "layout_ok (ml_cap l)" "ml_spans l = []"
    "unat (ml_len l) = min (length (f_data f)) (unat (ml_cap l))"
    using u rest by (simp_all add: l)
qed

lemma log_flush_inv:
  assumes "log_inv pre rs l"
  shows "\<exists>l'. log_flush no_fail l = Inr (Ok (), l') \<and>
    f_data (ml_file l') = pre @ concat rs @ drop (unat (ml_len l)) (f_data (ml_file l)) \<and>
    ml_base l' = ml_base l \<and> ml_cap l' = ml_cap l \<and> log_inv pre rs l'"
proof -
  have len: "unat (ml_len l) = length (pre @ concat rs)" using assms by (simp add: log_inv_def)
  have "read_span l (ml_base l, ml_len l) = Inr (take (unat (ml_len l)) (pre @ concat rs))"
    using read_span_inv [OF assms, of 0 "unat (ml_len l)"] by simp
  then have "read_span l (ml_base l, ml_len l) = Inr (pre @ concat rs)" by (simp add: len)
  then show ?thesis using assms len
    by (simp add: log_flush_def no_fail_def Let_def file_write_def log_inv_def)
qed

lemma round_page_nat: "unat (round_page cap) = (unat cap + 4095) mod 2 ^ 64 div 4096 * 4096"
proof -
  have "round_page cap = (cap + 4095) AND NOT (2 ^ 12 - 1)" by (simp add: round_page_def PAGE_def add.commute)
  then have "unat (round_page cap) = unat (cap + 4095) div 2 ^ 12 * 2 ^ 12" by (simp only: and_not_mask)
  then show ?thesis by (simp add: unat_word_ariths)
qed

text \<open>An allocator that has one block, for concrete runs.\<close>

definition one_page :: page_alloc where
  "one_page h sz = (if h 4096 = None \<and> unat sz \<le> 2 ^ 63 then 4096 else 0)"

lemma one_page: "page_allocator one_page"
  by (simp add: page_allocator_def one_page_def PAGE_def)

lemma round_page_one: "round_page 1 = 4096"
  by (simp add: round_page_def PAGE_def)

lemma one_page_open: "\<exists>l h. log_open one_page no_fail f 1 Map.empty = Inr (Ok l, h)"
  by (simp add: log_open_def round_page_one layout_ok_def one_page_def no_fail_def Let_def)

section \<open>Properties\<close>

text \<open>
  C27: On an opened log, a sequence of appends never faults, and afterwards record \<open>i\<close> reads back the
  \<open>i\<close>-th record that fitted, byte for byte; there are no other records, and \<open>len\<close> counts the
  bytes loaded from the file and those of the records.
\<close>

theorem log_records_read_back:
  assumes "log_open al os f cap h = Inr (Ok l, h')" "\<forall>b \<in> set bs. length b < 2 ^ 63" "length bs < 2 ^ 63"
  shows "\<exists>l'. log_appends bs l = Inr l' \<and> (let rs = accepted (room l) bs in
    (\<forall>i. log_record i l' = Inr (if unat i < length rs then Some (rs ! unat i) else None)) \<and>
    unat (log_len l') = min (length (f_data f)) (unat (log_capacity l)) + length (concat rs)) \<and>
    log_len l' \<le> log_capacity l'"
proof -
  define rs where "rs = accepted (room l) bs"
  note I = log_open_inv [OF assms(1)]
  obtain l' where l': "log_appends bs l = Inr l'" "log_inv (take (unat (round_page cap)) (f_data f)) rs l'"
    using log_appends_inv [OF I(1) assms(2)] assms(3) by (auto simp: rs_def)
  have "length (accepted r bs) \<le> length bs" for r by (induction r bs rule: accepted.induct) auto
  from this [of "room l"] have "length rs < 2 ^ 63" using assms(3) by (simp add: rs_def)
  then show ?thesis
    using l'(1) log_record_inv [OF l'(2)] log_invD(3,4) [OF l'(2)] I(2)
    by (simp add: Let_def rs_def [symmetric] log_len_def log_capacity_def word_le_nat_alt)
qed

theorem log_records_read_back_witness:
  "\<exists>l h l'. log_open one_page no_fail \<lparr>f_data = [7], f_pos = 0\<rparr> 1 Map.empty = Inr (Ok l, h) \<and>
    log_appends [[1, 2], [3]] l = Inr l' \<and> log_record 1 l' = Inr (Some [3]) \<and> unat (log_len l') = 4"
proof -
  obtain l h where o1: "log_open one_page no_fail \<lparr>f_data = [7], f_pos = 0\<rparr> 1 Map.empty = Inr (Ok l, h)"
    using one_page_open by blast
  have "accepted (room l) [[1, 2], [3]] = [[1, 2], [3]]" "unat (log_capacity l) = 4096"
    using log_open_inv(2,9) [OF o1] by (simp_all add: room_def round_page_one log_capacity_def)
  with log_records_read_back [OF o1, of "[[1, 2], [3]]"] o1 show ?thesis by (auto simp: Let_def)
qed

text \<open>
  C28: What was flushed is there after a restart: appending, flushing without an I/O error, and
  opening the file again with the same capacity gives a log with the same length and the same
  bytes up to it, whichever address the new buffer has.  The record index is not recovered.
\<close>

theorem flush_then_reopen:
  assumes "log_open al no_fail f cap h = Inr (Ok l, h1)" "\<forall>b \<in> set bs. length b < 2 ^ 63" "length bs < 2 ^ 63"
    "log_open al' no_fail f' cap h2 = Inr (Ok l2, h3)"
    "log_appends bs l = Inr la" "log_flush no_fail la = Inr (Ok (), lf)" "f_data f' = f_data (ml_file lf)"
  shows "log_len l2 = log_len la \<and> take (unat (log_len l2)) (ml_buf l2) = take (unat (log_len la)) (ml_buf la) \<and>
    log_record i l2 = Inr None"
proof -
  let ?pre = "take (unat (round_page cap)) (f_data f)" let ?rs = "accepted (room l) bs"
  note I = log_open_inv [OF assms(1)] and J = log_open_inv [OF assms(4)]
  have la: "log_inv ?pre ?rs la" "ml_cap la = ml_cap l" "ml_file la = ml_file l"
    using log_appends_inv [OF I(1) assms(2)] assms(3,5) by auto
  have f: "f_data f' = (?pre @ concat ?rs) @ drop (unat (ml_len la)) (f_data f)"
    using log_flush_inv [OF la(1)] assms(6,7) la(3) I(3) by auto
  have len: "unat (ml_len la) = length (?pre @ concat ?rs)" "take (unat (ml_len la)) (ml_buf la) = ?pre @ concat ?rs"
    "unat (ml_len la) \<le> unat (round_page cap)"
    using log_invD(3,4,5) [OF la(1)] la(2) I(2) by simp_all
  have tail: "drop (unat (ml_len la)) (f_data f) = [] \<or> unat (ml_len la) = unat (round_page cap)"
    using len(1,3) by (auto simp: min_def split: if_splits)
  then have l2: "unat (ml_len l2) = unat (ml_len la)"
    using J(9) J(2) f len(1,3) by (auto simp: min_def)
  have "take (unat (ml_len l2)) (ml_buf l2) = take (unat (round_page cap)) (f_data f')"
    using log_invD(5) [OF J(1)] by simp
  also have "\<dots> = ?pre @ concat ?rs" using f tail len(1,3) by auto
  finally show ?thesis using l2 len(2) J(8) by (simp add: log_len_def log_record_def word_unat_eq_iff)
qed

theorem flush_then_reopen_witness:
  "\<exists>l h la lf l2 h3. log_open one_page no_fail \<lparr>f_data = [7], f_pos = 0\<rparr> 1 Map.empty = Inr (Ok l, h) \<and>
    log_appends [[1, 2], [3]] l = Inr la \<and> log_flush no_fail la = Inr (Ok (), lf) \<and>
    log_open one_page no_fail (ml_file lf) 1 Map.empty = Inr (Ok l2, h3) \<and>
    log_len l2 = log_len la"
proof -
  obtain l h where o1: "log_open one_page no_fail \<lparr>f_data = [7], f_pos = 0\<rparr> 1 Map.empty = Inr (Ok l, h)"
    using one_page_open by blast
  from log_appends_inv [OF log_open_inv(1) [OF o1], of "[[1, 2], [3]]"] obtain la where
    la: "log_appends [[1, 2], [3]] l = Inr la" "log_inv [7] (accepted (room l) [[1, 2], [3]]) la"
    by (auto simp: round_page_one)
  from log_flush_inv [OF la(2)] obtain lf where lf: "log_flush no_fail la = Inr (Ok (), lf)" by blast
  obtain l2 h3 where o2: "log_open one_page no_fail (ml_file lf) 1 Map.empty = Inr (Ok l2, h3)"
    using one_page_open by blast
  from flush_then_reopen [OF o1 _ _ o2 la(1) lf refl] have "log_len l2 = log_len la" by simp
  with o1 la(1) lf o2 show ?thesis by blast
qed

text \<open>
  Opening rounds the capacity up to whole pages and panics, faults or succeeds by the size
  alone: beyond \<open>isize::MAX\<close> rounded down to a page it panics, and a capacity of 0 or one that
  wraps to 0 when rounded allocates nothing, which is undefined behaviour.
\<close>

lemma log_open_outcomes:
  "(log_open al os f cap h = Inl Panic \<longleftrightarrow> 2 ^ 63 - 4096 < unat cap \<and> unat cap \<le> 2 ^ 64 - 4096) \<and>
   (log_open al os f cap h = Inl UB \<longleftrightarrow> cap = 0 \<or> 2 ^ 64 - 4096 < unat cap) \<and>
   (0 < unat cap \<and> unat cap \<le> 2 ^ 64 - 4096 \<longrightarrow>
      unat (round_page cap) = (unat cap + 4095) div 4096 * 4096)"
proof -
  have "unat cap < 2 ^ 64" using unsigned_less [of cap, where ?'a = nat] by simp
  then have small: "unat (round_page cap) = (unat cap + 4095) div 4096 * 4096" if "unat cap \<le> 2 ^ 64 - 4096"
    using that by (simp add: round_page_nat)
  have wrap: "unat (round_page cap) = 0" if "2 ^ 64 - 4096 < unat cap"
    using that \<open>unat cap < 2 ^ 64\<close> by (simp add: round_page_nat mod_if)
  have "unat (round_page cap) = 0 \<longleftrightarrow> unat cap = 0 \<or> 2 ^ 64 - 4096 < unat cap"
    using small wrap by (cases "unat cap \<le> 2 ^ 64 - 4096") (auto simp: div_eq_0_iff)
  moreover have "\<not> layout_ok (round_page cap) \<longleftrightarrow> 2 ^ 63 - 4096 < unat cap \<and> unat cap \<le> 2 ^ 64 - 4096"
    using small wrap by (cases "unat cap \<le> 2 ^ 64 - 4096") (auto simp: layout_ok_def)
  ultimately show ?thesis
    using small by (auto simp: log_open_def Let_def unat_eq_zero split: if_splits)
qed

text \<open>
  Opening and dropping a log leaves the live allocations as they were: the buffer is
  deallocated once, with the size it was allocated with.
\<close>

lemma open_drop_balanced:
  assumes "page_allocator al" "log_open al os f cap h = Inr (Ok l, h')"
  shows "h' (ml_base l) = Some (ml_cap l) \<and> log_drop l h' = Inr h"
proof -
  note I = log_open_inv [OF assms(2)]
  have "h (ml_base l) = None" using assms(1) I(5,6) by (simp add: page_allocator_def)
  then show ?thesis using I(4,7) by (auto simp: log_drop_def fun_eq_iff)
qed

text \<open>
  When the file cannot be opened, read or positioned, \<open>open\<close> returns the error with the buffer
  still allocated and nothing left that refers to it: the buffer leaks.
\<close>

lemma open_error_leaks:
  assumes "page_allocator al" "log_open al os f cap h = Inr (Err e, h')"
  shows "\<exists>base. base \<noteq> 0 \<and> h base = None \<and> h' = h(base \<mapsto> round_page cap) \<and> os_fails os e"
proof -
  let ?b = "al h (round_page cap)"
  from assms(2) have "?b \<noteq> 0" "h' = h(?b \<mapsto> round_page cap)" "os_fails os e"
    by (auto simp: log_open_def Let_def split: if_splits)
  moreover have "h ?b = None" using assms(1) \<open>?b \<noteq> 0\<close> by (simp add: page_allocator_def)
  ultimately show ?thesis by blast
qed

end
