(* ===== verification/Store.thy ===== *)
theory Store
  imports Shard MmapLog
begin

text \<open>
  The store, \<open>crates/zerokv/src/store.rs\<close>: the sharded index with an optional write-ahead log.
  The store implements the index interface; what the log holds after a run is stated separately.
\<close>

section \<open>Model\<close>

record kv_store =
  ks_index :: sharded_index
  ks_wal :: "mapped_log option"

text \<open>Whether an allocation of so many bytes succeeds, and the allocator of the lists.\<close>

type_synonym store_env = "(nat \<Rightarrow> bool) \<times> sh_alloc"

definition in_memory :: "(usize \<Rightarrow> nat) \<Rightarrow> store_env \<Rightarrow> usize \<Rightarrow> usize \<Rightarrow> kv_store res" where
  "in_memory ceil_log4 env shards capacity_hint =
     try_bind (sh_new ceil_log4 (fst env) (snd env) shards capacity_hint)
       (\<lambda>ix. Inr \<lparr>ks_index = ix, ks_wal = None\<rparr>)"

definition durable ::
    "(usize \<Rightarrow> nat) \<Rightarrow> store_env \<Rightarrow> page_alloc \<Rightarrow> os \<Rightarrow> os_file \<Rightarrow> usize \<Rightarrow> usize \<Rightarrow> usize \<Rightarrow> heap \<Rightarrow>
       ((kv_store, io_call) result \<times> heap) res" where
  "durable ceil_log4 env al os f shards capacity_hint wal_bytes h =
     try_bind (log_open al os f wal_bytes h) (\<lambda>(r, h').
       case r of
         Err e \<Rightarrow> Inr (Err e, h')
       | Ok log \<Rightarrow>
           try_bind (sh_new ceil_log4 (fst env) (snd env) shards capacity_hint)
             (\<lambda>ix. Inr (Ok \<lparr>ks_index = ix, ks_wal = Some log\<rparr>, h')))"

text \<open>
  The frame of a \<open>put\<close>: the length of the key in four bytes, the key, the value.  Its vector panics
  with a capacity overflow beyond \<open>isize::MAX\<close> bytes.
\<close>

definition frame :: "bytes \<Rightarrow> bytes \<Rightarrow> bytes" where
  "frame key val = le_bytes 4 (of_nat (length key) :: u32) @ key @ val"

definition build_frame :: "store_env \<Rightarrow> bytes \<Rightarrow> bytes \<Rightarrow> bytes res" where
  "build_frame env key val =
     (let n = 4 + length key + length val in
      if 2 ^ 63 \<le> n then Inl Panic else if \<not> fst env n then Inl Abort else Inr (frame key val))"

text \<open>The log part of \<open>put\<close>: the result of \<open>append\<close> is dropped.\<close>

definition put_wal :: "store_env \<Rightarrow> bytes \<Rightarrow> bytes \<Rightarrow> mapped_log option \<Rightarrow> mapped_log option res" where
  "put_wal env key val w =
     (case w of
        None \<Rightarrow> Inr None
      | Some wal \<Rightarrow>
          try_bind (build_frame env key val) (\<lambda>fr.
          try_bind (log_append fr wal) (\<lambda>(_, wal'). Inr (Some wal'))))"

definition kv_put :: "store_env \<Rightarrow> u64 \<Rightarrow> bytes \<Rightarrow> bytes \<Rightarrow> kv_store \<Rightarrow> (bool \<times> u64 \<times> kv_store) run" where
  "kv_put env rng key val st =
     step_bind (put_wal env key val (ks_wal st)) (\<lambda>wal'.
     run_bind (sh_insert (snd env) rng key val (ks_index st)) (\<lambda>(new, rng', ix).
       Some (Inr (new, rng', \<lparr>ks_index = ix, ks_wal = wal'\<rparr>))))"

definition kv_get :: "bytes \<Rightarrow> kv_store \<Rightarrow> bytes option run" where
  "kv_get key st = sh_get_owned key (ks_index st)"

definition kv_delete :: "bytes \<Rightarrow> kv_store \<Rightarrow> (bool \<times> kv_store) run" where
  "kv_delete key st =
     run_bind (sh_remove key (ks_index st)) (\<lambda>(hit, ix). Some (Inr (hit, st\<lparr>ks_index := ix\<rparr>)))"

definition kv_len :: "kv_store \<Rightarrow> usize" where
  "kv_len st = sh_len (ks_index st)"

definition kv_is_empty :: "kv_store \<Rightarrow> bool" where
  "kv_is_empty st \<longleftrightarrow> sh_is_empty (ks_index st)"

definition kv_flush :: "os \<Rightarrow> kv_store \<Rightarrow> ((unit, io_call) result \<times> kv_store) res" where
  "kv_flush os st =
     (case ks_wal st of
        None \<Rightarrow> Inr (Ok (), st)
      | Some wal \<Rightarrow> try_bind (log_flush os wal) (\<lambda>(r, wal'). Inr (r, st\<lparr>ks_wal := Some wal'\<rparr>)))"

section \<open>The map of a store\<close>

text \<open>The log is sound, and its records are frames, of at least four bytes.\<close>

fun wal_ok :: "mapped_log option \<Rightarrow> bool" where
  "wal_ok None = True"
| "wal_ok (Some l) = (\<exists>pre rs. log_inv pre rs l \<and> (\<forall>r \<in> set rs. 4 \<le> length r))"

definition store_repr :: "kv_store \<Rightarrow> (bytes \<rightharpoonup> bytes) \<Rightarrow> bool" where
  "store_repr st m \<longleftrightarrow> index_repr (ks_index st) m \<and> wal_ok (ks_wal st)"

definition store_env_ok :: "store_env \<Rightarrow> bool" where
  "store_env_ok env \<longleftrightarrow> allocators (snd env)"

definition store_may_fail :: "store_env \<Rightarrow> bool" where
  "store_may_fail env \<longleftrightarrow> some_may_fail (snd env) \<or> (\<exists>n. \<not> fst env n)"

text \<open>A frame has a length that fits \<open>isize\<close>.\<close>

definition frame_fits :: "bytes \<Rightarrow> bytes \<Rightarrow> bool" where
  "frame_fits key val \<longleftrightarrow> 4 + length key + length val < 2 ^ 63"

lemma length_frame [simp]: "length (frame k v) = 4 + length k + length v"
  by (simp add: frame_def)

lemma records_few:
  assumes "log_inv pre rs l" "\<forall>r \<in> set rs. 4 \<le> length r"
  shows "length rs < 2 ^ 61"
proof -
  have "4 * length rs \<le> length (concat rs)" using assms(2) by (induction rs) auto
  then show ?thesis using log_invD(2,3,4) [OF assms(1)] by simp
qed

lemma wal_append:
  assumes "wal_ok (Some l)" "4 \<le> length b" "length b < 2 ^ 63"
  shows "\<exists>r l'. log_append b l = Inr (r, l') \<and> wal_ok (Some l')"
proof -
  obtain pre rs where rs: "log_inv pre rs l" "\<forall>r \<in> set rs. 4 \<le> length r" using assms(1) by auto
  have few: "length rs < 2 ^ 63" using records_few [OF rs] by simp
  show ?thesis
  proof (cases "unat (ml_len l) + length b \<le> unat (ml_cap l)")
    case True
    from log_inv_step [OF rs(1) assms(3) few True] obtain l' where
      "log_append b l = Inr (Some (of_nat (length rs)), l')" "log_inv pre (rs @ [b]) l'" by blast
    moreover have "\<forall>r \<in> set (rs @ [b]). 4 \<le> length r" using rs(2) assms(2) by simp
    ultimately show ?thesis by (auto simp del: set_append)
  next
    case False
    then show ?thesis using log_inv_append [OF rs(1) assms(3) few] assms(1) by simp
  qed
qed

lemma put_wal_cases:
  assumes "wal_ok w" "frame_fits k v"
  shows "(put_wal env k v w = Inl Abort \<and> (\<exists>n. \<not> fst env n)) \<or> (\<exists>w'. put_wal env k v w = Inr w' \<and> wal_ok w')"
proof (cases w)
  case (Some l)
  have "length (frame k v) < 2 ^ 63" using assms(2) by (simp add: frame_fits_def)
  then obtain x l' where "log_append (frame k v) l = Inr (x, l')" "wal_ok (Some l')"
    using wal_append [of l "frame k v"] assms(1) Some by (auto simp del: wal_ok.simps)
  then show ?thesis
    using assms(2) Some by (auto simp: put_wal_def build_frame_def Let_def frame_fits_def simp del: wal_ok.simps)
qed (simp add: put_wal_def)

interpretation store: kv_index store_env_ok store_may_fail frame_fits store_repr kv_put kv_get kv_delete kv_len
proof
  fix e :: store_env and k v st m rng
  assume e: "store_env_ok e" and f: "frame_fits k v" and r: "store_repr st m"
  have ix: "index_repr (ks_index st) m" and w: "wal_ok (ks_wal st)" using r by (simp_all add: store_repr_def)
  have al: "allocators (snd e)" using e by (simp add: store_env_ok_def)
  from put_wal_cases [OF w f, of e]
  show "(kv_put e rng k v st = Some (Inl Abort) \<and> store_may_fail e) \<or>
    (\<exists>rng' s'. kv_put e rng k v st = Some (Inr (m k = None, rng', s')) \<and> store_repr s' (m(k \<mapsto> v)))"
  proof (elim disjE exE conjE)
    fix w' assume w': "put_wal e k v (ks_wal st) = Inr w'" "wal_ok w'"
    from sharded.ins_law [OF al TrueI ix, of rng k v] show ?thesis
    proof (elim disjE exE conjE)
      fix rng' ix'
      assume "sh_insert (snd e) rng k v (ks_index st) = Some (Inr (m k = None, rng', ix'))"
        "index_repr ix' (m(k \<mapsto> v))"
      then show ?thesis using w' by (auto simp: kv_put_def store_repr_def simp del: fun_upd_apply)
    qed (use w'(1) in \<open>simp add: kv_put_def store_may_fail_def\<close>)
  qed (auto simp: kv_put_def store_may_fail_def)
next
  fix st m k
  assume r: "store_repr st m"
  have ix: "index_repr (ks_index st) m" using r by (simp add: store_repr_def)
  have "sh_get k (ks_index st) = Some (Inr (m k))" by (rule sharded.look_law [OF ix])
  then show "kv_get k st = Some (Inr (m k))"
    using index_reprD(1) [OF ix refl, of k] by (simp add: kv_get_def sh_get_owned_def sh_get_def option.map_id)
  from sharded.del_law [OF ix, of k] r
  show "\<exists>s'. kv_delete k st = Some (Inr (m k \<noteq> None, s')) \<and> store_repr s' (m(k := None))"
    by (auto simp: kv_delete_def store_repr_def simp del: fun_upd_apply)
  show "finite (dom m) \<and> kv_len st = of_nat (card (dom m))"
    using sharded.count_law [OF ix] by (simp add: kv_len_def)
qed

section \<open>Construction and the log of a run\<close>

lemma in_memory_repr:
  assumes "store_env_ok env" "in_memory ceil_log4 env n hint = Inr st"
  shows "store_repr st Map.empty"
proof -
  obtain ix where ix: "sh_new ceil_log4 (fst env) (snd env) n hint = Inr ix" "st = \<lparr>ks_index = ix, ks_wal = None\<rparr>"
    using assms(2) by (auto simp: in_memory_def try_bind_def split: sum.splits)
  have "index_repr ix Map.empty" using assms(1) ix(1) new_index_repr by (simp add: store_env_ok_def)
  then show ?thesis by (simp add: store_repr_def ix(2))
qed

lemma durable_Ok:
  assumes "durable ceil_log4 env al os f n hint cap h = Inr (Ok st, h')"
  obtains l ix where "log_open al os f cap h = Inr (Ok l, h')" "st = \<lparr>ks_index = ix, ks_wal = Some l\<rparr>"
    "sh_new ceil_log4 (fst env) (snd env) n hint = Inr ix"
  using assms by (auto simp: durable_def try_bind_def split: sum.splits result.splits)

lemma durable_repr:
  assumes "store_env_ok env" "durable ceil_log4 env al os f n hint cap h = Inr (Ok st, h')"
  shows "store_repr st Map.empty"
proof -
  obtain l ix where l: "log_open al os f cap h = Inr (Ok l, h')" "st = \<lparr>ks_index = ix, ks_wal = Some l\<rparr>"
    "sh_new ceil_log4 (fst env) (snd env) n hint = Inr ix" by (rule durable_Ok [OF assms(2)])
  have "index_repr ix Map.empty" using assms(1) l(3) new_index_repr by (simp add: store_env_ok_def)
  moreover have "wal_ok (Some l)" using log_open_inv(1) [OF l(1)] by force
  ultimately show ?thesis by (simp add: store_repr_def l(2))
qed

text \<open>The frames of the insertions of a run.\<close>

fun frames :: "kv_op list \<Rightarrow> bytes list" where
  "frames [] = []"
| "frames (Put k v # xs) = frame k v # frames xs"
| "frames (Get k # xs) = frames xs"
| "frames (Del k # xs) = frames xs"

lemma length_frames: "length (frames xs) \<le> length xs"
  by (induction xs rule: frames.induct) auto

lemma frames_fit: "\<forall>x \<in> set xs. op_fits frame_fits x \<Longrightarrow> b \<in> set (frames xs) \<Longrightarrow> length b < 2 ^ 63"
  by (induction xs rule: frames.induct) (auto simp: frame_fits_def)

lemma put_wal_Some:
  assumes "put_wal env k v (Some l) = Inr w'"
  shows "\<exists>x l'. log_append (frame k v) l = Inr (x, l') \<and> w' = Some l'"
  using assms by (auto simp: put_wal_def build_frame_def Let_def try_bind_def split: if_splits sum.splits)

lemma run_bind_Inr:
  assumes "run_bind a f = Some (Inr y)"
  obtains x where "a = Some (Inr x)" "f x = Some (Inr y)"
  using assms by (auto simp: run_bind_def split: sum.splits bind_splits)

lemma run_wal:
  assumes "kv_run (kv_put env) kv_get kv_delete ops rng st = Some (Inr (rs, rng', st'))" "ks_wal st = Some l"
  shows "\<exists>l'. log_appends (frames ops) l = Inr l' \<and> ks_wal st' = Some l'"
  using assms
proof (induction ops arbitrary: rng st rs l)
  case (Cons x ops)
  from Cons.prems(1) obtain r rng1 st1 rs1 where
    step: "kv_step (kv_put env) kv_get kv_delete x rng st = Some (Inr (r, rng1, st1))" and
    rest: "kv_run (kv_put env) kv_get kv_delete ops rng1 st1 = Some (Inr (rs1, rng', st'))"
    by (auto elim!: run_bind_Inr)
  show ?case
  proof (cases x)
    case (Put k v)
    from step obtain w' where w': "put_wal env k v (ks_wal st) = Inr w'" "ks_wal st1 = w'"
      by (auto simp: Put kv_put_def step_bind_def elim!: run_bind_Inr split: sum.splits)
    from w'(1) obtain y l1 where l1: "log_append (frame k v) l = Inr (y, l1)" "w' = Some l1"
      using put_wal_Some Cons.prems(2) by metis
    then show ?thesis using Cons.IH [OF rest, of l1] w'(2) by (simp add: Put)
  next
    case (Get k)
    then show ?thesis using step Cons.IH [OF rest, of l] Cons.prems(2) by (auto elim!: run_bind_Inr)
  next
    case (Del k)
    then show ?thesis
      using step Cons.IH [OF rest, of l] Cons.prems(2) by (auto simp: kv_delete_def elim!: run_bind_Inr)
  qed
qed simp

lemma small_durable:
  "\<exists>st h. durable (\<lambda>_. 2) (\<lambda>_. True, \<lambda>_ _. small_alloc) one_page no_fail f 2 100 1 Map.empty = Inr (Ok st, h) \<and>
     (\<forall>rng k v. frame_fits k v \<longrightarrow> kv_put (\<lambda>_. True, \<lambda>_ _. small_alloc) rng k v st \<noteq> Some (Inl Abort))"
proof -
  obtain l h where l: "log_open one_page no_fail f 1 Map.empty = Inr (Ok l, h)" using one_page_open by blast
  obtain sh where sh: "sh_new (\<lambda>_. 2) (\<lambda>_. True) (\<lambda>_ _. small_alloc) 2 100 = Inr sh"
    "\<forall>rng k v. sh_insert (\<lambda>_ _. small_alloc) rng k v sh \<noteq> Some (Inl Abort)" using small_index by blast
  let ?st = "\<lparr>ks_index = sh, ks_wal = Some l\<rparr>"
  have "kv_put (\<lambda>_. True, \<lambda>_ _. small_alloc) rng k v ?st \<noteq> Some (Inl Abort)" if "frame_fits k v" for rng k v
  proof -
    have "wal_ok (Some l)" using log_open_inv(1) [OF l] by force
    from put_wal_cases [OF this that, of "(\<lambda>_. True, \<lambda>_ _. small_alloc)"] obtain w' where
      "put_wal (\<lambda>_. True, \<lambda>_ _. small_alloc) k v (Some l) = Inr w'" by auto
    then show ?thesis
      using sh(2) by (auto simp: kv_put_def run_bind_def split: bind_splits sum.splits)
  qed
  moreover have "durable (\<lambda>_. 2) (\<lambda>_. True, \<lambda>_ _. small_alloc) one_page no_fail f 2 100 1 Map.empty = Inr (Ok ?st, h)"
    using l sh(1) by (simp add: durable_def)
  ultimately show ?thesis by blast
qed

lemma small_env: "store_env_ok (\<lambda>_. True, \<lambda>_ _. small_alloc)"
  using small_index by (auto simp: store_env_ok_def)

section \<open>Properties\<close>

text \<open>
  C4: Any sequence of \<open>put\<close>, \<open>get\<close> and \<open>delete\<close> on a new store, in memory or durable, returns what
  it returns on a finite map, terminates and never faults, as long as every frame fits \<open>isize\<close>;
  a failed allocation aborts.  The state of the log never changes a result.
\<close>

theorem store_refines_map:
  assumes "store_env_ok env" "\<forall>x \<in> set ops. op_fits frame_fits x"
    "in_memory ceil_log4 env n hint = Inr st \<or> durable ceil_log4 env al os f n hint cap h = Inr (Ok st, h')"
  shows "(kv_run (kv_put env) kv_get kv_delete ops rng st = Some (Inl Abort) \<and> store_may_fail env) \<or>
    (\<exists>rng' st'. kv_run (kv_put env) kv_get kv_delete ops rng st =
        Some (Inr (fst (map_ops ops Map.empty), rng', st')) \<and>
      kv_len st' = of_nat (card (dom (snd (map_ops ops Map.empty)))))"
proof -
  have "store_repr st Map.empty" using assms(1,3) in_memory_repr durable_repr by blast
  from store.run_refines [OF assms(1) this assms(2), of rng] show ?thesis using store.count_law by blast
qed

theorem store_refines_map_witness:
  "\<exists>st h rng' st'. durable (\<lambda>_. 2) (\<lambda>_. True, \<lambda>_ _. small_alloc) one_page no_fail \<lparr>f_data = [7], f_pos = 0\<rparr>
       2 100 1 Map.empty = Inr (Ok st, h) \<and>
     kv_run (kv_put (\<lambda>_. True, \<lambda>_ _. small_alloc)) kv_get kv_delete [Put [1] [2], Get [1]] 5 st =
       Some (Inr ([Inserted True, Got (Some [2])], rng', st')) \<and> kv_len st' = 1"
proof -
  let ?e = "(\<lambda>_. True, \<lambda>_ _. small_alloc)" and ?ops = "[Put [1] [2], Get [1]]"
  have fits: "frame_fits [1] [2]" by (simp add: frame_fits_def)
  obtain st h where d: "durable (\<lambda>_. 2) ?e one_page no_fail \<lparr>f_data = [7], f_pos = 0\<rparr> 2 100 1 Map.empty = Inr (Ok st, h)"
    "kv_put ?e 5 [1] [2] st \<noteq> Some (Inl Abort)" using small_durable fits by blast
  have "kv_run (kv_put ?e) kv_get kv_delete ?ops 5 st \<noteq> Some (Inl Abort)"
    by (rule store.one_put [OF small_env fits durable_repr [OF small_env d(1)] d(2)]) simp
  moreover have "\<forall>x \<in> set ?ops. op_fits frame_fits x" using fits by simp
  ultimately show ?thesis
    using store_refines_map [OF small_env _ disjI2 [OF d(1)], of ?ops 5] d(1) by (auto simp: Let_def)
qed

text \<open>
  C6: After any run on a durable store, the log holds exactly the frames of the \<open>put\<close>s that fitted,
  in order, one record each, and nothing of the \<open>delete\<close>s; a flush without an I/O error writes
  the bytes loaded at opening followed by these frames to the start of the file.
\<close>

theorem wal_holds_the_puts:
  assumes "durable ceil_log4 env al os f n hint cap h = Inr (Ok st, h')"
    "kv_run (kv_put env) kv_get kv_delete ops rng st = Some (Inr (rs, rng', st'))"
    "\<forall>x \<in> set ops. op_fits frame_fits x" "length ops < 2 ^ 63"
  shows "\<exists>l l' st2 l2. ks_wal st = Some l \<and> ks_wal st' = Some l' \<and>
    (let fs = accepted (room l) (frames ops) in
     (\<forall>i. log_record i l' = Inr (if unat i < length fs then Some (fs ! unat i) else None)) \<and>
     kv_flush no_fail st' = Inr (Ok (), st2) \<and> ks_wal st2 = Some l2 \<and>
     f_data (ml_file l2) = take (unat (round_page cap)) (f_data f) @ concat fs @ drop (unat (log_len l')) (f_data f))"
proof -
  obtain l ix where l: "log_open al os f cap h = Inr (Ok l, h')" "st = \<lparr>ks_index = ix, ks_wal = Some l\<rparr>"
    by (rule durable_Ok [OF assms(1)])
  let ?fs = "accepted (room l) (frames ops)" let ?pre = "take (unat (round_page cap)) (f_data f)"
  note I = log_open_inv [OF l(1)]
  obtain l' where l': "log_appends (frames ops) l = Inr l'" "ks_wal st' = Some l'"
    using run_wal [OF assms(2), of l] l(2) by auto
  have n: "length (frames ops) < 2 ^ 63" using length_frames [of ops] assms(4) by linarith
  have inv: "log_inv ?pre ?fs l'" "ml_file l' = ml_file l"
    using log_appends_inv [OF I(1), of "frames ops"] frames_fit [OF assms(3)] n l'(1) by auto
  have "length (accepted r bs) \<le> length bs" for r bs by (induction r bs rule: accepted.induct) auto
  from this [of "room l" "frames ops"] n have "length ?fs < 2 ^ 63" by simp
  note rec = log_record_inv [OF inv(1) this]
  obtain l2 where "log_flush no_fail l' = Inr (Ok (), l2)"
    "f_data (ml_file l2) = ?pre @ concat ?fs @ drop (unat (ml_len l')) (f_data f)"
    using log_flush_inv [OF inv(1)] inv(2) I(3) by auto
  then show ?thesis using l(2) l'(2) rec by (simp add: Let_def kv_flush_def log_len_def)
qed

theorem wal_holds_the_puts_witness:
  "\<exists>st h rs rng' st' l'. durable (\<lambda>_. 2) (\<lambda>_. True, \<lambda>_ _. small_alloc) one_page no_fail \<lparr>f_data = [7], f_pos = 0\<rparr>
       2 100 1 Map.empty = Inr (Ok st, h) \<and>
     kv_run (kv_put (\<lambda>_. True, \<lambda>_ _. small_alloc)) kv_get kv_delete [Put [1] [2], Del [1]] 5 st =
       Some (Inr (rs, rng', st')) \<and> ks_wal st' = Some l' \<and> log_record 0 l' = Inr (Some (frame [1] [2]))"
proof -
  let ?e = "(\<lambda>_. True, \<lambda>_ _. small_alloc)" and ?ops = "[Put [1] [2], Del [1]]"
  have fits: "frame_fits [1] [2]" by (simp add: frame_fits_def)
  then have fit: "\<forall>x \<in> set ?ops. op_fits frame_fits x" by simp
  obtain st h where d: "durable (\<lambda>_. 2) ?e one_page no_fail \<lparr>f_data = [7], f_pos = 0\<rparr> 2 100 1 Map.empty = Inr (Ok st, h)"
    "kv_put ?e 5 [1] [2] st \<noteq> Some (Inl Abort)" using small_durable fits by blast
  note r = durable_repr [OF small_env d(1)]
  have "kv_run (kv_put ?e) kv_get kv_delete ?ops 5 st \<noteq> Some (Inl Abort)"
    by (rule store.one_put [OF small_env fits r d(2)]) simp
  then obtain rs rng' st' where run: "kv_run (kv_put ?e) kv_get kv_delete ?ops 5 st = Some (Inr (rs, rng', st'))"
    using store.run_refines [OF small_env r fit, of 5] by blast
  obtain l ix where o1: "log_open one_page no_fail \<lparr>f_data = [7], f_pos = 0\<rparr> 1 Map.empty = Inr (Ok l, h)"
    "st = \<lparr>ks_index = ix, ks_wal = Some l\<rparr>" by (rule durable_Ok [OF d(1)])
  have "accepted (room l) (frames ?ops) = [frame [1] [2]]"
    using log_open_inv(2,9) [OF o1(1)] by (simp add: room_def round_page_one)
  with wal_holds_the_puts [OF d(1) run fit] d(1) run o1(2) show ?thesis by (auto simp: Let_def)
qed

text \<open>
  C29: A \<open>put\<close> whose frame no longer fits the log is acknowledged as if it were durable: the index
  is updated, the caller is told so, and the log is left as it was.
\<close>

theorem full_wal_is_silent:
  assumes "store_repr st m" "ks_wal st = Some l" "frame_fits k v"
    "unat (log_capacity l) < unat (log_len l) + length (frame k v)"
    "kv_put env rng k v st = Some (Inr (new, rng', st'))" "store_env_ok env"
  shows "ks_wal st' = Some l \<and> kv_get k st' = Some (Inr (Some v)) \<and> new = (m k = None)"
proof -
  obtain pre rs where rs: "log_inv pre rs l" "\<forall>r \<in> set rs. 4 \<le> length r"
    using assms(1,2) by (auto simp: store_repr_def)
  have "length (frame k v) < 2 ^ 63" "length rs < 2 ^ 63"
    using assms(3) records_few [OF rs] by (simp_all add: frame_fits_def)
  from log_inv_append [OF rs(1) this] have app: "log_append (frame k v) l = Inr (None, l)"
    using assms(4) by (simp add: log_capacity_def log_len_def)
  have "ks_wal st' = Some l"
    using assms(2,5) app by (auto simp: kv_put_def step_bind_def put_wal_def build_frame_def Let_def
        try_bind_def elim!: run_bind_Inr split: sum.splits if_splits)
  moreover from store.ins_law [OF assms(6,3,1), of rng] assms(5)
  have "new = (m k = None)" "store_repr st' (m(k \<mapsto> v))" by (auto simp del: fun_upd_apply)
  ultimately show ?thesis using store.look_law [of st' "m(k \<mapsto> v)" k] by simp
qed

theorem full_wal_is_silent_witness:
  "\<exists>st h l rng' st'. durable (\<lambda>_. 2) (\<lambda>_. True, \<lambda>_ _. small_alloc) one_page no_fail
       \<lparr>f_data = replicate 5000 0, f_pos = 0\<rparr> 2 100 1 Map.empty = Inr (Ok st, h) \<and> ks_wal st = Some l \<and>
     kv_put (\<lambda>_. True, \<lambda>_ _. small_alloc) 5 [1] [2] st = Some (Inr (True, rng', st')) \<and> ks_wal st' = Some l"
proof -
  let ?e = "(\<lambda>_. True, \<lambda>_ _. small_alloc)" and ?f = "\<lparr>f_data = replicate 5000 0, f_pos = 0\<rparr>"
  have fits: "frame_fits [1] [2]" by (simp add: frame_fits_def)
  obtain st h where d: "durable (\<lambda>_. 2) ?e one_page no_fail ?f 2 100 1 Map.empty = Inr (Ok st, h)"
    "kv_put ?e 5 [1] [2] st \<noteq> Some (Inl Abort)" using small_durable fits by blast
  note r = durable_repr [OF small_env d(1)]
  obtain rng' st' where p: "kv_put ?e 5 [1] [2] st = Some (Inr (True, rng', st'))"
    using store.ins_law [OF small_env fits r, of 5] d(2) by auto
  obtain l ix where o1: "log_open one_page no_fail ?f 1 Map.empty = Inr (Ok l, h)"
    "st = \<lparr>ks_index = ix, ks_wal = Some l\<rparr>" by (rule durable_Ok [OF d(1)])
  have "unat (log_capacity l) < unat (log_len l) + length (frame [1] [2])"
    using log_open_inv(2,9) [OF o1(1)] by (simp add: log_capacity_def log_len_def round_page_one)
  with full_wal_is_silent [OF r _ fits _ p small_env, of l] d(1) p o1(2) show ?thesis by auto
qed

end
