(* ===== verification/Arena.thy ===== *)
theory Arena
  imports Prelude
begin

text \<open>
  The bump allocator, \<open>crates/zerokv/src/arena.rs\<close>.  \<open>alloc_raw\<close> is modelled twice: as the loop one
  thread runs, with spurious failures of the weak compare-and-swap as an argument, and as the steps
  of any number of threads that share the cursor.  The bytes of the region are optional, \<^term>\<open>None\<close>
  being an uninitialised byte, which must not be read.
\<close>

section \<open>Model\<close>

record arena =
  ar_base :: usize
  ar_cap :: usize
  ar_align :: usize
  ar_head :: usize
  ar_mem :: "u8 option list"

text \<open>
  \<open>with_capacity\<close>: the assertions panic, and so does a layout whose sz rounded up to the
  alignment exceeds \<open>isize::MAX\<close>; \<open>al\<close> is the global allocator, 0 when it fails.
\<close>

definition arena_new :: "(usize \<Rightarrow> usize \<Rightarrow> usize) \<Rightarrow> usize \<Rightarrow> usize \<Rightarrow> arena res" where
  "arena_new al cap align =
     (if \<not> is_power_of_two align then Inl Panic
      else if cap = 0 then Inl Panic
      else if 2 ^ 63 < unat cap + unat align then Inl Panic
      else let base = al cap align in
        if base = 0 then Inl Abort
        else Inr \<lparr>ar_base = base, ar_cap = cap, ar_align = align, ar_head = 0,
                  ar_mem = replicate (unat cap) None\<rparr>)"

text \<open>One round of \<open>alloc_raw\<close> on the cursor \<open>cur\<close>: the aligned address and the new cursor.\<close>

definition bump :: "usize \<Rightarrow> usize \<Rightarrow> usize \<Rightarrow> usize \<Rightarrow> usize \<Rightarrow> (usize \<times> usize) option" where
  "bump base cap sz align cur =
     (let start = base + cur;
          aligned = (start + align - 1) AND NOT (align - 1);
          pad = aligned - start
      in case checked_add cur pad of
           None \<Rightarrow> None
         | Some c \<Rightarrow>
             (case checked_add c sz of
                None \<Rightarrow> None
              | Some new_head \<Rightarrow> if new_head > cap then None else Some (aligned, new_head)))"

text \<open>
  The loop.  Alone, a thread's compare-and-swap fails only spuriously: \<open>spur i\<close> says that the
  \<open>i\<close>-th one does.
\<close>

partial_function (option) alloc_loop ::
    "(nat \<Rightarrow> bool) \<Rightarrow> nat \<Rightarrow> usize \<Rightarrow> usize \<Rightarrow> usize \<Rightarrow> arena \<Rightarrow> (usize option \<times> arena) option" where
  "alloc_loop spur i sz align cur ar =
     (case bump (ar_base ar) (ar_cap ar) sz align cur of
        None \<Rightarrow> Some (None, ar)
      | Some (aligned, new_head) \<Rightarrow>
          if ar_head ar = cur \<and> \<not> spur i then Some (Some aligned, ar\<lparr>ar_head := new_head\<rparr>)
          else alloc_loop spur (Suc i) sz align (ar_head ar) ar)"

definition alloc_raw :: "(nat \<Rightarrow> bool) \<Rightarrow> usize \<Rightarrow> usize \<Rightarrow> arena \<Rightarrow> (usize option \<times> arena) option" where
  "alloc_raw spur sz align ar =
     (if sz = 0 then Some (Some (ar_base ar), ar)
      else alloc_loop spur 0 sz align (ar_head ar) ar)"

text \<open>A slice is its address and length; reading it requires initialised bytes of the region.\<close>

definition read_slice :: "usize \<times> nat \<Rightarrow> arena \<Rightarrow> bytes res" where
  "read_slice sl ar =
     (let off = unat (fst sl - ar_base ar); bs = region off (snd sl) (ar_mem ar) in
      if length (ar_mem ar) < off + snd sl \<or> None \<in> set bs then Inl UB else Inr (map the bs))"

definition push_bytes :: "(nat \<Rightarrow> bool) \<Rightarrow> bytes \<Rightarrow> arena \<Rightarrow> ((usize \<times> nat) option \<times> arena) run" where
  "push_bytes spur bytes ar =
     (case alloc_raw spur (of_nat (length bytes)) 1 ar of
        None \<Rightarrow> None
      | Some (None, ar') \<Rightarrow> Some (Inr (None, ar'))
      | Some (Some dst, ar') \<Rightarrow>
          let off = unat (dst - ar_base ar') in
          if length (ar_mem ar') < off + length bytes then Some (Inl UB)
          else Some (Inr (Some (dst, length bytes), ar'\<lparr>ar_mem := write_at off (map Some bytes) (ar_mem ar')\<rparr>)))"

definition arena_used :: "arena \<Rightarrow> usize" where
  "arena_used ar = ar_head ar"

definition arena_capacity :: "arena \<Rightarrow> usize" where
  "arena_capacity ar = ar_cap ar"

definition arena_reset :: "arena \<Rightarrow> arena" where
  "arena_reset ar = ar\<lparr>ar_head := 0\<rparr>"

text \<open>\<open>Drop\<close>: the deallocation must name a live allocation with its size and alignment.\<close>

definition arena_drop :: "arena \<Rightarrow> (usize \<rightharpoonup> usize \<times> usize) \<Rightarrow> (usize \<rightharpoonup> usize \<times> usize) res" where
  "arena_drop ar h =
     (if 2 ^ 63 < unat (ar_cap ar) + unat (ar_align ar) then Inl Panic
      else if h (ar_base ar) = Some (ar_cap ar, ar_align ar) then Inr (h(ar_base ar := None)) else Inl UB)"

section \<open>One round\<close>

text \<open>The allocator's promise: the region does not run over the end of the address space.\<close>

definition arena_ok :: "arena \<Rightarrow> bool" where
  "arena_ok ar \<longleftrightarrow> ar_base ar \<noteq> 0 \<and> unat (ar_base ar) + unat (ar_cap ar) \<le> 2 ^ 64 \<and>
     ar_head ar \<le> ar_cap ar \<and> length (ar_mem ar) = unat (ar_cap ar)"

text \<open>The least multiple of \<open>a\<close> that is at least \<open>x\<close>.\<close>

definition round_up :: "nat \<Rightarrow> nat \<Rightarrow> nat" where
  "round_up x a = (x + a - 1) div a * a"

lemma round_up_bounds:
  assumes "0 < a"
  shows "x \<le> round_up x a" "round_up x a < x + a" "a dvd round_up x a"
proof -
  have "(x + a - 1) div a * a + (x + a - 1) mod a = x + a - 1" by simp
  moreover have "(x + a - 1) mod a < a" using assms by simp
  ultimately show "x \<le> round_up x a" "round_up x a < x + a" unfolding round_up_def using assms by linarith+
  show "a dvd round_up x a" by (simp add: round_up_def)
qed

lemma round_up_least: "0 < a \<Longrightarrow> a dvd y \<Longrightarrow> x \<le> y \<Longrightarrow> round_up x a \<le> y"
proof -
  assume a: "0 < a" and "a dvd y" "x \<le> y"
  then obtain k where y: "y = k * a" by (metis dvd_def mult.commute)
  have "(x + a - 1) div a \<le> (k * a + (a - 1)) div a" using \<open>x \<le> y\<close> y a by (intro div_le_mono) simp
  also have "\<dots> = k" using a by (subst div_mult_self3) simp_all
  finally show ?thesis by (simp add: round_up_def y)
qed

text \<open>Rounding on words: exact, or 0 where it wraps.\<close>

lemma align_up_word:
  assumes "is_power_of_two align"
  shows "unat ((start + align - 1) AND NOT (align - 1)) =
    (if unat start + unat align - 1 < 2 ^ 64 then round_up (unat start) (unat align) else 0)"
proof -
  from assms obtain k where k: "k < 64" "align = 2 ^ k" by (auto simp: is_power_of_two_def)
  have a: "unat align = 2 ^ k" "1 \<le> unat align" using k by (simp_all add: unat_pow2)
  have s: "unat start < 2 ^ 64" "unat align < 2 ^ 64"
    using unsigned_less [of start, where ?'a = nat] unsigned_less [of align, where ?'a = nat] by simp_all
  have "unat (align - 1) = unat align - 1" using a(2) by (simp add: unat_diff_le word_le_nat_alt)
  moreover have "unat (start + align - 1) = (unat start + unat (align - 1)) mod 2 ^ 64"
    using unat_word_ariths(1) [of start "align - 1"] by (simp only: add_diff_eq) simp
  ultimately have "unat (start + align - 1) = (unat start + unat align - 1) mod 2 ^ 64" using a(2) by simp
  then have "unat ((start + align - 1) AND NOT (align - 1)) =
      (unat start + unat align - 1) mod 2 ^ 64 div unat align * unat align"
    by (simp only: k(2) and_not_mask [OF k(1)] unat_pow2 [OF k(1)])
  moreover have "(unat start + unat align - 1) mod 2 ^ 64 div unat align = 0"
    if "\<not> unat start + unat align - 1 < 2 ^ 64"
    using that s by (simp add: mod_if)
  ultimately show ?thesis by (simp add: round_up_def)
qed

lemma round_up_top:
  assumes "is_power_of_two align" "2 ^ 64 \<le> x + unat align - 1"
  shows "2 ^ 64 \<le> round_up x (unat align)"
proof -
  from assms(1) obtain k where k: "k < 64" "align = 2 ^ k" by (auto simp: is_power_of_two_def)
  have "(2 :: nat) ^ 64 = 2 ^ (64 - k) * 2 ^ k" using k(1) by (simp flip: power_add)
  then have "2 ^ 64 div unat align * unat align = 2 ^ 64" using k by (simp add: unat_pow2)
  moreover have "2 ^ 64 div unat align * unat align \<le> round_up x (unat align)"
    unfolding round_up_def using assms(2) by (intro mult_le_mono1 div_le_mono)
  ultimately show ?thesis by simp
qed

text \<open>A cursor that reaches past the capacity, whether or not the sums wrap.\<close>

lemma checked_over:
  assumes "unat c < unat x + unat y"
  shows "(case checked_add x y of None \<Rightarrow> None | Some h \<Rightarrow> if h > c then None else Some (a, h)) = None"
  using assms by (auto simp: checked_add_def word_less_nat_alt unat_add_no_wrap)

lemma bump_spec:
  assumes "base \<noteq> 0" "unat base + unat cap \<le> 2 ^ 64" "cur \<le> cap" "is_power_of_two align" "sz \<noteq> 0"
  shows "bump base cap sz align cur =
    (let a = round_up (unat base + unat cur) (unat align) in
     if a + unat sz \<le> unat base + unat cap
     then Some (of_nat a, of_nat (a + unat sz - unat base)) else None)"
proof -
  define a where "a = round_up (unat base + unat cur) (unat align)"
  have none: ?thesis if "bump base cap sz align cur = None" "\<not> a + unat sz \<le> unat base + unat cap"
    using that by (simp add: Let_def a_def)
  define start where "start = base + cur"
  define w where "w = (start + align - 1) AND NOT (align - 1)"
  have al: "1 \<le> unat align" using assms(4) by (rule is_power_of_two_ge1)
  have n: "unat cur \<le> unat cap" "0 < unat sz" "0 < unat base" and al64: "unat align < 2 ^ 64"
    using assms(1,3,5) unsigned_less [of align, where ?'a = nat] by (simp_all add: word_le_nat_alt unat_gt_0)
  have a: "unat base + unat cur \<le> a" unfolding a_def using al by (intro round_up_bounds) simp
  have W: "unat w = (if unat start + unat align - 1 < 2 ^ 64 then round_up (unat start) (unat align) else 0)"
    unfolding w_def by (rule align_up_word [OF assms(4)])
  have B: "bump base cap sz align cur = (case checked_add cur (w - start) of None \<Rightarrow> None
      | Some c \<Rightarrow> (case checked_add c sz of None \<Rightarrow> None | Some h \<Rightarrow> if h > cap then None else Some (w, h)))"
    by (simp only: bump_def Let_def start_def w_def)
  consider (top) "unat base + unat cur = 2 ^ 64" | (wrap) "unat base + unat cur < 2 ^ 64" "2 ^ 64 \<le> unat base + unat cur + unat align - 1"
    | (fits) "unat base + unat cur + unat align - 1 < 2 ^ 64"
    using n(1) assms(2) al by linarith
  then show ?thesis
  proof cases
    case top
    then have st: "start = 0" by (simp add: start_def unat_eq_zero [symmetric] unat_word_ariths)
    have "w = 0" using W al64 al by (simp add: st round_up_def unat_eq_zero [symmetric])
    then have "bump base cap sz align cur = None"
      unfolding B st using checked_over [of cap cur sz w] top assms(2) n by (simp add: checked_add_def)
    then show ?thesis by (rule none) (use a top assms(2) n in linarith)
  next
    case wrap
    have st: "unat start = unat base + unat cur" using wrap(1) by (simp add: start_def unat_add_no_wrap)
    then have "w = 0" using W wrap(2) by (simp add: unat_eq_zero [symmetric])
    then have "unat (w - start) = 2 ^ 64 - (unat base + unat cur)"
      using st wrap(1) n(3) by (simp only: unat_sub_if_size word_size) simp
    then have "checked_add cur (w - start) = Some (cur + (w - start))" "unat (cur + (w - start)) = 2 ^ 64 - unat base"
      using wrap(1) n(3) by (simp_all add: checked_add_def unat_add_no_wrap)
    then have "bump base cap sz align cur = None"
      unfolding B using checked_over [of cap "cur + (w - start)" sz w] assms(2) n(2) by simp
    moreover have "2 ^ 64 \<le> a" unfolding a_def by (rule round_up_top [OF assms(4) wrap(2)])
    ultimately show ?thesis by (intro none) (use assms(2) n(2) in linarith)+
  next
    case fits
    have st: "unat start = unat base + unat cur" using fits al by (simp add: start_def unat_add_no_wrap)
    then have w: "unat w = a" using W fits by (simp add: a_def)
    then have wa: "w = of_nat a" by (simp flip: w)
    have "start \<le> w" using a st w by (simp add: word_le_nat_alt)
    then have "unat (w - start) = a - (unat base + unat cur)" using w st by (simp add: unat_diff_le)
    moreover have "a < 2 ^ 64" using w unsigned_less [of w, where ?'a = nat] by simp
    ultimately have c: "checked_add cur (w - start) = Some (cur + (w - start))" "unat (cur + (w - start)) = a - unat base"
      using a by (simp_all add: checked_add_def unat_add_no_wrap)
    show ?thesis
    proof (cases "a + unat sz \<le> unat base + unat cap")
      case True
      then have u: "unat (cur + (w - start)) + unat sz < 2 ^ 64" "unat (cur + (w - start) + sz) = a + unat sz - unat base"
        using c(2) a assms(2) n(3) by (simp_all add: unat_add_no_wrap)
      then have "cur + (w - start) + sz = of_nat (a + unat sz - unat base)" by (simp only: u(2) [symmetric]) simp
      moreover have "\<not> cap < cur + (w - start) + sz" using u(2) True by (simp add: word_less_nat_alt)
      ultimately show ?thesis
        using True c(1) u(1) wa unfolding B by (simp add: Let_def a_def [symmetric] checked_add_def)
    next
      case False
      then have "unat cap < unat (cur + (w - start)) + unat sz" using c(2) a by linarith
      then have "bump base cap sz align cur = None"
        using c(1) checked_over [of cap "cur + (w - start)" sz w] unfolding B by simp
      then show ?thesis using False by (rule none)
    qed
  qed
qed

section \<open>One thread\<close>

lemma alloc_loop_spec:
  assumes "\<not> spur (i + d)"
  shows "alloc_loop spur i sz align (ar_head ar) ar =
    Some (case bump (ar_base ar) (ar_cap ar) sz align (ar_head ar) of
            None \<Rightarrow> (None, ar) | Some (a, h) \<Rightarrow> (Some a, ar\<lparr>ar_head := h\<rparr>))"
  using assms
proof (induction d arbitrary: i)
  case 0
  then show ?case by (subst alloc_loop.simps) (simp split: option.splits prod.splits)
next
  case (Suc d)
  then have "\<not> spur (Suc i + d)" by simp
  from Suc.IH [OF this] show ?case by (subst alloc_loop.simps) (simp split: option.splits prod.splits)
qed

lemma alloc_raw_spec:
  assumes "arena_ok ar" "is_power_of_two align" "\<not> spur d" "sz \<noteq> 0"
  shows "alloc_raw spur sz align ar =
    (let a = round_up (unat (ar_base ar) + unat (ar_head ar)) (unat align) in
     Some (if a + unat sz \<le> unat (ar_base ar) + unat (ar_cap ar)
       then (Some (of_nat a), ar\<lparr>ar_head := of_nat (a + unat sz - unat (ar_base ar))\<rparr>) else (None, ar)))"
  using bump_spec [of "ar_base ar" "ar_cap ar" "ar_head ar" align sz] alloc_loop_spec [of spur 0 d] assms
  by (simp add: alloc_raw_def arena_ok_def Let_def)

lemma round_up_1 [simp]: "round_up x 1 = x" "round_up x (Suc 0) = x"
  by (simp_all add: round_up_def)

lemma one_power: "is_power_of_two 1"
  unfolding is_power_of_two_def by (rule bexI [of _ 0]) simp_all

text \<open>The slice of a push, and the region after it.\<close>

definition pushed :: "bytes \<Rightarrow> arena \<Rightarrow> arena" where
  "pushed bs ar = ar\<lparr>ar_head := ar_head ar + of_nat (length bs),
     ar_mem := write_at (unat (ar_head ar)) (map Some bs) (ar_mem ar)\<rparr>"

definition push_addr :: "bytes \<Rightarrow> arena \<Rightarrow> usize" where
  "push_addr bs ar = (if bs = [] then ar_base ar else ar_base ar + ar_head ar)"

definition push_fits :: "bytes \<Rightarrow> arena \<Rightarrow> bool" where
  "push_fits bs ar \<longleftrightarrow> unat (ar_head ar) + length bs \<le> unat (ar_cap ar)"

lemma push_bytes_spec:
  assumes "arena_ok ar" "\<not> spur d" "length bs < 2 ^ 64"
  shows "push_bytes spur bs ar =
    Some (Inr (if push_fits bs ar then (Some (push_addr bs ar, length bs), pushed bs ar) else (None, ar)))"
proof (cases "bs = []")
  case True
  have "push_fits bs ar" using assms(1) True by (simp add: push_fits_def arena_ok_def word_le_nat_alt)
  moreover have "write_at k [] m = m" for k and m :: "u8 option list" by (simp add: write_at_def)
  ultimately show ?thesis using True by (simp add: push_bytes_def alloc_raw_def pushed_def push_addr_def)
next
  case False
  have n: "unat (of_nat (length bs) :: usize) = length bs" using assms(3) by (simp add: unat_of_nat)
  then have nz: "(of_nat (length bs) :: usize) \<noteq> 0" using False by (metis length_0_conv unat_0)
  have "length (ar_mem ar) = unat (ar_cap ar)" using assms(1) by (simp add: arena_ok_def)
  then show ?thesis
    using alloc_raw_spec [of ar 1 spur d, OF assms(1) one_power assms(2) nz] False n
    by (simp add: push_bytes_def Let_def push_fits_def push_addr_def pushed_def)
qed

lemma pushed_ok:
  assumes "arena_ok ar" "push_fits bs ar"
  shows "arena_ok (pushed bs ar)" "unat (ar_head (pushed bs ar)) = unat (ar_head ar) + length bs"
proof -
  have c: "unat (ar_cap ar) < 2 ^ 64" using unsigned_less [of "ar_cap ar", where ?'a = nat] by simp
  have n: "unat (of_nat (length bs) :: usize) = length bs" using assms(2) c by (simp add: push_fits_def unat_of_nat)
  then show h: "unat (ar_head (pushed bs ar)) = unat (ar_head ar) + length bs"
    using assms(2) c by (simp add: pushed_def push_fits_def unat_add_no_wrap)
  then show "arena_ok (pushed bs ar)"
    using assms by (simp add: arena_ok_def push_fits_def pushed_def word_le_nat_alt)
qed

text \<open>A slice below the cursor keeps its bytes.\<close>

definition holds :: "arena \<Rightarrow> usize \<times> nat \<Rightarrow> bytes \<Rightarrow> bool" where
  "holds ar sl bs \<longleftrightarrow> snd sl = length bs \<and> unat (fst sl - ar_base ar) + length bs \<le> unat (ar_head ar) \<and>
     region (unat (fst sl - ar_base ar)) (length bs) (ar_mem ar) = map Some bs"

lemma holds_read: "arena_ok ar \<Longrightarrow> holds ar sl bs \<Longrightarrow> read_slice sl ar = Inr bs"
  by (auto simp: holds_def read_slice_def Let_def arena_ok_def word_le_nat_alt)

lemma holds_pushed:
  assumes "arena_ok ar" "push_fits bs ar" "holds ar sl xs"
  shows "holds (pushed bs ar) sl xs"
proof -
  have "region (unat (fst sl - ar_base ar)) (length xs) (write_at (unat (ar_head ar)) (map Some bs) (ar_mem ar)) =
      region (unat (fst sl - ar_base ar)) (length xs) (ar_mem ar)"
    using assms by (intro region_write_disjoint) (auto simp: arena_ok_def push_fits_def holds_def word_le_nat_alt)
  then show ?thesis
    using assms(3) pushed_ok(2) [OF assms(1,2)] by (simp add: holds_def) (simp add: pushed_def)
qed

lemma holds_new:
  assumes "arena_ok ar" "push_fits bs ar"
  shows "holds (pushed bs ar) (push_addr bs ar, length bs) bs"
proof (cases "bs = []")
  case False
  have "region (unat (ar_head ar)) (length (map Some bs)) (write_at (unat (ar_head ar)) (map Some bs) (ar_mem ar)) = map Some bs"
    using assms by (intro region_write_same) (simp add: arena_ok_def push_fits_def)
  then show ?thesis
    using False pushed_ok(2) [OF assms] by (simp add: holds_def push_addr_def) (simp add: pushed_def)
qed (simp add: holds_def push_addr_def pushed_def region_def)

text \<open>A sequence of pushes.\<close>

fun pushes :: "(nat \<Rightarrow> bool) \<Rightarrow> bytes list \<Rightarrow> arena \<Rightarrow> ((usize \<times> nat) option list \<times> arena) run" where
  "pushes spur [] ar = Some (Inr ([], ar))"
| "pushes spur (b # bs) ar =
     run_bind (push_bytes spur b ar) (\<lambda>(s, ar).
     run_bind (pushes spur bs ar) (\<lambda>(ss, ar). Some (Inr (s # ss, ar))))"

text \<open>What became of a push: it did not fit, or its slice holds its bytes.\<close>

fun placed :: "arena \<Rightarrow> (usize \<times> nat) option \<Rightarrow> bytes \<Rightarrow> bool" where
  "placed ar None b = (unat (ar_cap ar) < unat (ar_head ar) + length b)"
| "placed ar (Some sl) b = holds ar sl b"

lemma pushes_spec:
  assumes "arena_ok ar" "\<not> spur d" "\<forall>b \<in> set bs. length b < 2 ^ 64"
  shows "\<exists>ss ar'. pushes spur bs ar = Some (Inr (ss, ar')) \<and> arena_ok ar' \<and> ar_cap ar' = ar_cap ar \<and>
    (\<forall>s b. placed ar s b \<longrightarrow> placed ar' s b) \<and> list_all2 (placed ar') ss bs"
  using assms(1,3)
proof (induction bs arbitrary: ar)
  case (Cons b bs)
  define ar1 where "ar1 = (if push_fits b ar then pushed b ar else ar)"
  define s where "s = (if push_fits b ar then Some (push_addr b ar, length b) else None)"
  have run: "push_bytes spur b ar = Some (Inr (s, ar1))"
    using push_bytes_spec [of ar spur d b, OF Cons.prems(1) assms(2)] Cons.prems(2) by (simp add: s_def ar1_def)
  have ok: "arena_ok ar1" using Cons.prems(1) pushed_ok(1) by (simp add: ar1_def)
  have cap: "ar_cap ar1 = ar_cap ar" by (simp add: ar1_def pushed_def)
  have keep: "placed ar1 s b" if "placed ar s b" for s b
    using holds_pushed [OF Cons.prems(1)] pushed_ok(2) [OF Cons.prems(1)] that
    by (cases s) (auto simp: ar1_def, simp add: pushed_def)
  have new: "placed ar1 s b" using holds_new [OF Cons.prems(1)] by (simp add: s_def ar1_def push_fits_def)
  from Cons.IH [OF ok] Cons.prems(2) obtain ss ar' where r: "pushes spur bs ar1 = Some (Inr (ss, ar'))"
    "arena_ok ar'" "ar_cap ar' = ar_cap ar1" "\<And>s b. placed ar1 s b \<Longrightarrow> placed ar' s b"
    "list_all2 (placed ar') ss bs" by auto
  have "list_all2 (placed ar') (s # ss) (b # bs)" using r(4) [OF new] r(5) by simp
  then show ?case using run r(1-4) cap keep by (intro exI [of _ "s # ss"] exI [of _ ar']) simp
qed simp

section \<open>Many threads\<close>

text \<open>
  A thread is idle or has loaded the cursor and is about to compare and swap.  The blocks handed out
  and still in use are recorded with their size and alignment; \<open>reset\<close> is called, as its contract
  demands, when none is.  The requested alignment is a power of two, as \<open>alloc_raw\<close> asserts in debug
  builds.  A request of size 0 returns the base at once and takes no bytes, so it records no block.
\<close>

datatype apc = AIdle | ATry usize usize usize

record astate =
  a_arena :: arena
  a_pc :: "nat \<Rightarrow> apc"
  a_blocks :: "(usize \<times> usize \<times> usize) list"

inductive astep :: "astate \<Rightarrow> astate \<Rightarrow> bool" where
  zero: "a_pc s t = AIdle \<Longrightarrow> alloc_raw spur 0 align (a_arena s) = Some (Some p, ar') \<Longrightarrow>
    astep s (s\<lparr>a_arena := ar'\<rparr>)"
| load: "\<lbrakk>a_pc s t = AIdle; is_power_of_two align; sz \<noteq> 0\<rbrakk> \<Longrightarrow>
    astep s (s\<lparr>a_pc := (a_pc s)(t := ATry sz align (ar_head (a_arena s)))\<rparr>)"
| exhausted: "\<lbrakk>a_pc s t = ATry sz align cur; bump (ar_base (a_arena s)) (ar_cap (a_arena s)) sz align cur = None\<rbrakk> \<Longrightarrow>
    astep s (s\<lparr>a_pc := (a_pc s)(t := AIdle)\<rparr>)"
| cas_ok: "\<lbrakk>a_pc s t = ATry sz align cur; ar_head (a_arena s) = cur;
    bump (ar_base (a_arena s)) (ar_cap (a_arena s)) sz align cur = Some (aligned, new_head)\<rbrakk> \<Longrightarrow>
    astep s (s\<lparr>a_pc := (a_pc s)(t := AIdle), a_arena := (a_arena s)\<lparr>ar_head := new_head\<rparr>,
               a_blocks := (aligned, sz, align) # a_blocks s\<rparr>)"
| cas_fail: "\<lbrakk>a_pc s t = ATry sz align cur;
    bump (ar_base (a_arena s)) (ar_cap (a_arena s)) sz align cur = Some (aligned, new_head)\<rbrakk> \<Longrightarrow>
    astep s (s\<lparr>a_pc := (a_pc s)(t := ATry sz align (ar_head (a_arena s)))\<rparr>)"
| free: "astep s (s\<lparr>a_blocks := remove1 b (a_blocks s)\<rparr>)"
| reset: "a_blocks s = [] \<Longrightarrow> astep s (s\<lparr>a_arena := arena_reset (a_arena s)\<rparr>)"

definition block_in :: "arena \<Rightarrow> usize \<times> usize \<times> usize \<Rightarrow> bool" where
  "block_in ar b = (case b of (a, sz, align) \<Rightarrow>
     unat (ar_base ar) \<le> unat a \<and> unat a + unat sz \<le> unat (ar_base ar) + unat (ar_head ar) \<and> unat align dvd unat a)"

fun disjoint_blocks :: "usize \<times> usize \<times> usize \<Rightarrow> usize \<times> usize \<times> usize \<Rightarrow> bool" where
  "disjoint_blocks (a, n, _) (b, m, _) = (unat a + unat n \<le> unat b \<or> unat b + unat m \<le> unat a)"

definition ainv :: "astate \<Rightarrow> bool" where
  "ainv s \<longleftrightarrow> arena_ok (a_arena s) \<and> list_all (block_in (a_arena s)) (a_blocks s) \<and>
     sorted_wrt disjoint_blocks (a_blocks s) \<and>
     (\<forall>t sz align cur. a_pc s t = ATry sz align cur \<longrightarrow> cur \<le> ar_cap (a_arena s) \<and> is_power_of_two align \<and> sz \<noteq> 0)"

lemma bump_Some:
  assumes "bump base cap sz align cur = Some (a, h)" "base \<noteq> 0" "unat base + unat cap \<le> 2 ^ 64" "cur \<le> cap"
    "is_power_of_two align" "sz \<noteq> 0"
  shows "unat base + unat cur \<le> unat a" "unat a + unat sz = unat base + unat h" "unat align dvd unat a" "h \<le> cap"
proof -
  let ?r = "round_up (unat base + unat cur) (unat align)"
  have al: "0 < unat align" using is_power_of_two_ge1 [OF assms(5)] by simp
  note R = round_up_bounds [OF al, of "unat base + unat cur"]
  have f: "?r + unat sz \<le> unat base + unat cap" "a = of_nat ?r" "h = of_nat (?r + unat sz - unat base)"
    using assms(1) bump_spec [OF assms(2-6)] by (auto simp: Let_def split: if_splits)
  have "0 < unat sz" "unat cap < 2 ^ 64" using assms(6) unsigned_less [of cap, where ?'a = nat] by (simp_all add: unat_gt_0)
  then have u: "unat a = ?r" "unat h = ?r + unat sz - unat base"
    using f assms(3) by (simp_all add: unat_of_nat)
  show "unat base + unat cur \<le> unat a" "unat a + unat sz = unat base + unat h" "unat align dvd unat a" "h \<le> cap"
    using R u f(1) by (simp_all add: word_le_nat_alt)
qed

lemma sorted_wrt_remove1: "sorted_wrt P xs \<Longrightarrow> sorted_wrt P (remove1 x xs)"
proof (induction xs)
  case (Cons y ys)
  then show ?case using set_remove1_subset [of x ys] by auto
qed simp

lemma ainv_step: "astep s s' \<Longrightarrow> ainv s \<Longrightarrow> ainv s'"
proof (induction rule: astep.induct)
  case (zero s t spur align p ar')
  then show ?case by (auto simp: alloc_raw_def)
next
  case (load s t align sz)
  then show ?case by (auto simp: ainv_def arena_ok_def)
next
  case (exhausted s t sz align cur)
  then show ?case by (auto simp: ainv_def)
next
  case (cas_ok s t sz align cur aligned new_head)
  let ?ar = "a_arena s"
  have ok: "arena_ok ?ar" and pc: "cur \<le> ar_cap ?ar" "is_power_of_two align" "sz \<noteq> 0"
    using cas_ok.prems cas_ok.hyps(1) by (auto simp: ainv_def)
  note B = bump_Some [OF cas_ok.hyps(3) _ _ pc]
  have b: "unat (ar_base ?ar) + unat cur \<le> unat aligned" "unat aligned + unat sz = unat (ar_base ?ar) + unat new_head"
    "unat align dvd unat aligned" "new_head \<le> ar_cap ?ar" using B ok by (simp_all add: arena_ok_def)
  have le: "unat (ar_head ?ar) \<le> unat new_head" using b(1,2) cas_ok.hyps(2) by simp
  have "list_all (block_in (?ar\<lparr>ar_head := new_head\<rparr>)) (a_blocks s)"
    using cas_ok.prems le by (auto simp: ainv_def list_all_iff block_in_def)
  moreover have "disjoint_blocks (aligned, sz, align) x" if "x \<in> set (a_blocks s)" for x
    using that cas_ok.prems b(1) cas_ok.hyps(2) by (cases x) (auto simp: ainv_def list_all_iff block_in_def)
  ultimately show ?case
    using cas_ok.prems b ok by (auto simp: ainv_def arena_ok_def block_in_def)
next
  case (cas_fail s t sz align cur aligned new_head)
  then show ?case by (auto simp: ainv_def arena_ok_def)
next
  case (free s b)
  then show ?case by (auto simp: ainv_def list_all_iff sorted_wrt_remove1 dest: set_remove1_subset [THEN subsetD])
next
  case (reset s)
  then show ?case by (auto simp: ainv_def arena_ok_def arena_reset_def)
qed

definition astart :: "arena \<Rightarrow> astate" where
  "astart ar = \<lparr>a_arena = ar, a_pc = \<lambda>_. AIdle, a_blocks = []\<rparr>"

lemma ainv_reach: "astep\<^sup>*\<^sup>* s s' \<Longrightarrow> ainv s \<Longrightarrow> ainv s'"
  by (induction rule: rtranclp_induct) (auto intro: ainv_step)

text \<open>The global allocator's promise, and the arena it makes.\<close>

definition base_fits :: "(usize \<Rightarrow> usize \<Rightarrow> usize) \<Rightarrow> bool" where
  "base_fits al \<longleftrightarrow> (\<forall>cap align. unat (al cap align) + unat cap \<le> 2 ^ 64)"

lemma arena_new_ok:
  assumes "base_fits al" "arena_new al cap align = Inr ar"
  shows "arena_ok ar" "ar_cap ar = cap" "ar_head ar = 0"
  using assms by (auto simp: arena_new_def Let_def arena_ok_def base_fits_def split: if_splits)

section \<open>Properties\<close>

text \<open>
  C13: However the loads and the compare-and-swaps of any number of allocating threads interleave,
  with spurious failures, with blocks given up and with \<open>reset\<close> called when no block is in use, the
  blocks in use never overlap, lie inside the arena and have the requested alignment.
\<close>

theorem arena_blocks_disjoint:
  assumes "base_fits al" "arena_new al cap align = Inr ar" "astep\<^sup>*\<^sup>* (astart ar) s"
  shows "sorted_wrt disjoint_blocks (a_blocks s) \<and>
    (\<forall>(a, n, k) \<in> set (a_blocks s). unat (ar_base (a_arena s)) \<le> unat a \<and> unat k dvd unat a \<and>
       unat a + unat n \<le> unat (ar_base (a_arena s)) + unat (ar_cap (a_arena s)))"
proof -
  have "ainv (astart ar)" using arena_new_ok(1) [OF assms(1,2)] by (simp add: ainv_def astart_def)
  with assms(3) have "ainv s" by (rule ainv_reach)
  then show ?thesis by (fastforce simp: ainv_def list_all_iff block_in_def arena_ok_def word_le_nat_alt)
qed

text \<open>The allocator of the examples places every arena on the second page.\<close>

definition page_two :: "usize \<Rightarrow> usize \<Rightarrow> usize" where
  "page_two cap align = (if unat cap \<le> 2 ^ 63 then 4096 else 0)"

lemma page_two: "base_fits page_two"
proof -
  have "unat c < 2 ^ 64" for c :: usize using unsigned_less [of c, where ?'a = nat] by simp
  then show ?thesis by (auto simp: base_fits_def page_two_def intro: less_imp_le)
qed

lemma page_two_new: "\<exists>ar. arena_new page_two 64 64 = Inr ar \<and> ar_base ar = 4096"
proof -
  have "is_power_of_two 64" unfolding is_power_of_two_def by (rule bexI [of _ 6]) simp_all
  then show ?thesis by (simp add: arena_new_def page_two_def)
qed

text \<open>
  Two threads load the same cursor; the one whose compare-and-swap comes second retries and gets
  the next eight bytes.
\<close>

theorem arena_blocks_disjoint_witness:
  "\<exists>ar s. arena_new page_two 64 64 = Inr ar \<and> astep\<^sup>*\<^sup>* (astart ar) s \<and>
    a_blocks s = [(4104, 8, 4), (4096, 8, 8)] \<and> sorted_wrt disjoint_blocks (a_blocks s)"
proof -
  obtain ar where new: "arena_new page_two 64 64 = Inr ar" "ar_base ar = 4096" using page_two_new by blast
  note ok = arena_new_ok [OF page_two new(1)]
  have p: "is_power_of_two 4" "is_power_of_two 8"
    unfolding is_power_of_two_def by (rule bexI [of _ 2], simp_all) (rule bexI [of _ 3], simp_all)
  have b: "bump 4096 64 8 8 0 = Some (4096, 8)" "bump 4096 64 8 4 0 = Some (4096, 8)"
    "bump 4096 64 8 4 8 = Some (4104, 16)" by (simp_all add: bump_def Let_def checked_add_def)
  define s1 where "s1 = (astart ar)\<lparr>a_pc := (\<lambda>_. AIdle)(0 := ATry 8 8 0)\<rparr>"
  define s2 where "s2 = s1\<lparr>a_pc := (a_pc s1)(1 := ATry 8 4 0)\<rparr>"
  define s3 where "s3 = s2\<lparr>a_pc := (a_pc s2)(0 := AIdle), a_arena := ar\<lparr>ar_head := 8\<rparr>, a_blocks := [(4096, 8, 8)]\<rparr>"
  define s4 where "s4 = s3\<lparr>a_pc := (a_pc s3)(1 := ATry 8 4 8)\<rparr>"
  define s5 where "s5 = s4\<lparr>a_pc := (a_pc s4)(1 := AIdle), a_arena := ar\<lparr>ar_head := 16\<rparr>,
    a_blocks := [(4104, 8, 4), (4096, 8, 8)]\<rparr>"
  note D = s1_def s2_def s3_def s4_def s5_def astart_def
  have "astep (astart ar) s1" "astep s1 s2" "astep s2 s3" "astep s3 s4" "astep s4 s5"
    using astep.load [of "astart ar" 0 8 8] astep.load [of s1 1 4 8] astep.cas_ok [of s2 0 8 8 0 4096 8]
      astep.cas_fail [of s3 1 8 4 0 4096 8] astep.cas_ok [of s4 1 8 4 8 4104 16] ok new(2) p b
    by (simp_all add: D)
  then have r: "astep\<^sup>*\<^sup>* (astart ar) s5" by (meson rtranclp.rtrancl_into_rtrancl rtranclp.rtrancl_refl)
  have "a_blocks s5 = [(4104, 8, 4), (4096, 8, 8)]" by (simp add: D)
  then show ?thesis using arena_blocks_disjoint [OF page_two new(1) r] new(1) r by blast
qed

text \<open>
  C30: For a power-of-two alignment, and as long as not every compare-and-swap fails spuriously,
  \<open>alloc_raw\<close> returns.  A request of size 0 gets the base of the arena, whatever the alignment, the
  cursor and the room left.  Any other gets either the lowest address at or above the cursor with
  the requested alignment, with the cursor moved just behind the block, or \<open>None\<close> when even that
  address leaves no room.  No sum that wraps gets through.
\<close>

theorem alloc_raw_exact:
  assumes "arena_ok ar" "is_power_of_two align" "\<not> spur d"
  shows "\<exists>r ar'. alloc_raw spur sz align ar = Some (r, ar') \<and>
    (if sz = 0 then r = Some (ar_base ar) \<and> ar' = ar
     else case r of
       None \<Rightarrow> ar' = ar \<and> (\<forall>q. unat align dvd q \<and> unat (ar_base ar) + unat (ar_head ar) \<le> q \<longrightarrow>
         unat (ar_base ar) + unat (ar_cap ar) < q + unat sz)
     | Some p \<Rightarrow> unat align dvd unat p \<and> unat (ar_base ar) + unat (ar_head ar) \<le> unat p \<and>
         (\<forall>q. unat align dvd q \<and> unat (ar_base ar) + unat (ar_head ar) \<le> q \<longrightarrow> unat p \<le> q) \<and>
         unat p + unat sz = unat (ar_base ar) + unat (ar_head ar') \<and> ar_head ar' \<le> ar_cap ar \<and>
         ar' = ar\<lparr>ar_head := ar_head ar'\<rparr>)"
proof (cases "sz = 0")
  case True
  then show ?thesis by (simp add: alloc_raw_def)
next
  case sz: False
  let ?x = "unat (ar_base ar) + unat (ar_head ar)" let ?r = "round_up ?x (unat align)"
  have al: "0 < unat align" using is_power_of_two_ge1 [OF assms(2)] by simp
  have ok: "ar_base ar \<noteq> 0" "unat (ar_base ar) + unat (ar_cap ar) \<le> 2 ^ 64" "ar_head ar \<le> ar_cap ar"
    using assms(1) by (simp_all add: arena_ok_def)
  have least: "\<forall>q. unat align dvd q \<and> ?x \<le> q \<longrightarrow> ?r \<le> q" using round_up_least [OF al] by blast
  note spec = alloc_raw_spec [of ar align spur d sz, OF assms sz, unfolded Let_def]
  show ?thesis
  proof (cases "?r + unat sz \<le> unat (ar_base ar) + unat (ar_cap ar)")
    case True
    then have b: "bump (ar_base ar) (ar_cap ar) sz align (ar_head ar) =
        Some (of_nat ?r, of_nat (?r + unat sz - unat (ar_base ar)))"
      using bump_spec [OF ok assms(2) sz] by (simp add: Let_def)
    have "unat (of_nat ?r :: usize) = ?r"
      using True ok(2) sz by (simp add: unat_of_nat unat_gt_0 [symmetric])
    then show ?thesis using True spec bump_Some [OF b ok assms(2) sz] least sz by simp
  next
    case False
    then have "\<forall>q. unat align dvd q \<and> ?x \<le> q \<longrightarrow> unat (ar_base ar) + unat (ar_cap ar) < q + unat sz"
      using least by force
    then show ?thesis using False spec sz by simp
  qed
qed

theorem alloc_raw_exact_witness:
  "\<exists>ar r ar'. arena_new page_two 64 64 = Inr ar \<and> alloc_raw (\<lambda>i. i < 3) 8 16 ar = Some (r, ar') \<and>
    (case r of None \<Rightarrow> False | Some p \<Rightarrow> unat p \<le> 4096) \<and>
    alloc_raw (\<lambda>i. i < 3) 0 8192 ar = Some (Some 4096, ar)"
proof -
  obtain ar where new: "arena_new page_two 64 64 = Inr ar" "ar_base ar = 4096" using page_two_new by blast
  have p: "is_power_of_two 16" "is_power_of_two 8192"
    unfolding is_power_of_two_def by (rule bexI [of _ 4], simp_all) (rule bexI [of _ 13], simp_all)
  note ok = arena_new_ok [OF page_two new(1)]
  obtain r ar' where r: "alloc_raw (\<lambda>i. i < 3) 8 16 ar = Some (r, ar')"
    "case r of None \<Rightarrow> ar' = ar \<and> (\<forall>q :: nat. 16 dvd q \<and> 4096 \<le> q \<longrightarrow> 4160 < q + 8)
       | Some p \<Rightarrow> \<forall>q. 16 dvd q \<and> 4096 \<le> q \<longrightarrow> unat p \<le> q"
    using alloc_raw_exact [OF ok(1) p(1), of "\<lambda>i. i < 3" 3 8] ok(2,3) new(2) by (auto split: option.splits)
  have "(16 :: nat) dvd 4096" by simp
  moreover have "alloc_raw (\<lambda>i. i < 3) 0 8192 ar = Some (Some 4096, ar)"
    using alloc_raw_exact [OF ok(1) p(2), of "\<lambda>i. i < 3" 3 0] new(2) by simp
  ultimately show ?thesis using r new(1) by (cases r) (auto dest!: spec [of _ 4096])
qed

text \<open>
  C31: Any sequence of \<open>push_bytes\<close> on a new arena terminates without touching memory outside it, and
  at the end every slice that was returned still reads exactly the bytes pushed into it, all
  initialised; a push is refused only when its bytes do not fit behind the cursor.
\<close>

theorem pushed_bytes_read_back:
  assumes "base_fits al" "arena_new al cap align = Inr ar" "\<not> spur d" "\<forall>b \<in> set bs. length b < 2 ^ 64"
  shows "\<exists>ss ar'. pushes spur bs ar = Some (Inr (ss, ar')) \<and>
    list_all2 (\<lambda>s b. case s of None \<Rightarrow> unat cap < unat (arena_used ar') + length b
                             | Some sl \<Rightarrow> read_slice sl ar' = Inr b) ss bs"
proof -
  note ok = arena_new_ok [OF assms(1,2)]
  obtain ss ar' where r: "pushes spur bs ar = Some (Inr (ss, ar'))" "arena_ok ar'" "ar_cap ar' = cap"
    "list_all2 (placed ar') ss bs" using pushes_spec [of ar spur d bs, OF ok(1) assms(3,4)] ok(2) by auto
  have rd: "placed ar' s b \<Longrightarrow> (case s of None \<Rightarrow> unat cap < unat (arena_used ar') + length b
      | Some sl \<Rightarrow> read_slice sl ar' = Inr b)" for s b
    using holds_read [OF r(2)] r(3) by (cases s) (simp_all add: arena_used_def)
  show ?thesis using r(1) list_all2_mono [OF r(4) rd] by (intro exI conjI)
qed

theorem pushed_bytes_read_back_witness:
  "\<exists>ar ss ar'. arena_new page_two 64 64 = Inr ar \<and> pushes (\<lambda>i. i < 3) [[1, 2], [], [3]] ar = Some (Inr (ss, ar')) \<and>
    length ss = 3"
proof -
  obtain ar where new: "arena_new page_two 64 64 = Inr ar" using page_two_new by blast
  from pushed_bytes_read_back [OF page_two new, of "\<lambda>i. i < 3" 3 "[[1, 2], [], [3]]"] new
  show ?thesis by (auto dest: list_all2_lengthD)
qed

end
