(* ===== verification/ZeroCopy.thy ===== *)
theory ZeroCopy
  imports Arena
begin

text \<open>
  The zero-copy layer: the arena-backed store of \<open>crates/zerokv/src/zerocopy.rs\<close>, and the code that
  \<open>#[derive(ZeroCopy)]\<close> of \<open>crates/zerokv-derive/src/lib.rs\<close> generates for a record type.  The layout
  the compiler picks for a record is an argument; bytes of a record that belong to no field are
  uninitialised.  \<open>Pod\<close> is an open trait, so which types of the downstream crate implement it is an
  argument as well; its contract, that a value has no uninitialised byte, is what \<open>record_mem\<close> takes
  from it.
\<close>

section \<open>The arena-backed store\<close>

record arena_kv =
  ak_arena :: arena
  ak_entries :: "((usize \<times> nat) \<times> (usize \<times> nat)) list"

definition arena_kv_new :: "(usize \<Rightarrow> usize \<Rightarrow> usize) \<Rightarrow> usize \<Rightarrow> arena_kv res" where
  "arena_kv_new al cap = try_bind (arena_new al cap 64) (\<lambda>ar. Inr \<lparr>ak_arena = ar, ak_entries = []\<rparr>)"

text \<open>\<open>put\<close>: the key stays in the arena when the value does not fit.\<close>

definition arena_kv_put :: "(nat \<Rightarrow> bool) \<Rightarrow> bytes \<Rightarrow> bytes \<Rightarrow> arena_kv \<Rightarrow> (bool \<times> arena_kv) run" where
  "arena_kv_put spur key val s =
     run_bind (push_bytes spur key (ak_arena s)) (\<lambda>(k, ar).
       case k of
         None \<Rightarrow> Some (Inr (False, s\<lparr>ak_arena := ar\<rparr>))
       | Some k \<Rightarrow>
           run_bind (push_bytes spur val ar) (\<lambda>(v, ar).
             case v of
               None \<Rightarrow> Some (Inr (False, s\<lparr>ak_arena := ar\<rparr>))
             | Some v \<Rightarrow> Some (Inr (True, s\<lparr>ak_arena := ar, ak_entries := ak_entries s @ [(k, v)]\<rparr>))))"

text \<open>\<open>get\<close>: a linear scan; the borrow that is returned is read here.\<close>

fun scan :: "bytes \<Rightarrow> arena \<Rightarrow> ((usize \<times> nat) \<times> (usize \<times> nat)) list \<Rightarrow> bytes option res" where
  "scan key ar [] = Inr None"
| "scan key ar ((k, v) # es) =
     try_bind (read_slice k ar) (\<lambda>kb.
       if kb = key then try_bind (read_slice v ar) (\<lambda>vb. Inr (Some vb)) else scan key ar es)"

definition arena_kv_get :: "bytes \<Rightarrow> arena_kv \<Rightarrow> bytes option res" where
  "arena_kv_get key s = scan key (ak_arena s) (ak_entries s)"

text \<open>The entries hold the pairs \<open>kvs\<close>.\<close>

definition ak_inv :: "arena_kv \<Rightarrow> (bytes \<times> bytes) list \<Rightarrow> bool" where
  "ak_inv s kvs \<longleftrightarrow> arena_ok (ak_arena s) \<and>
     list_all2 (\<lambda>(k, v) (kb, vb). holds (ak_arena s) k kb \<and> holds (ak_arena s) v vb) (ak_entries s) kvs"

lemma ak_get:
  assumes "ak_inv s kvs"
  shows "arena_kv_get key s = Inr (map_of kvs key)"
proof -
  have ok: "arena_ok (ak_arena s)" using assms by (simp add: ak_inv_def)
  have "scan key (ak_arena s) es = Inr (map_of kvs key)"
    if "list_all2 (\<lambda>(k, v) (kb, vb). holds (ak_arena s) k kb \<and> holds (ak_arena s) v vb) es kvs" for es kvs
    using that by (induction es kvs rule: list_all2_induct) (auto simp: holds_read [OF ok])
  then show ?thesis using assms by (simp add: ak_inv_def arena_kv_get_def)
qed

lemma ak_inv_pushed:
  assumes "ak_inv s kvs" "push_fits b (ak_arena s)"
  shows "ak_inv (s\<lparr>ak_arena := pushed b (ak_arena s)\<rparr>) kvs"
proof -
  have ok: "arena_ok (ak_arena s)" using assms by (simp add: ak_inv_def)
  have "list_all2 (\<lambda>(k, v) (kb, vb). holds (pushed b (ak_arena s)) k kb \<and> holds (pushed b (ak_arena s)) v vb) (ak_entries s) kvs"
    using assms unfolding ak_inv_def by (auto elim!: list_all2_mono intro: holds_pushed)
  then show ?thesis using pushed_ok(1) [OF ok assms(2)] by (simp add: ak_inv_def)
qed

lemma ak_put:
  assumes "ak_inv s kvs" "\<not> spur d" "length key < 2 ^ 64" "length val < 2 ^ 64"
  shows "\<exists>b s'. arena_kv_put spur key val s = Some (Inr (b, s')) \<and>
    ak_inv s' (if b then kvs @ [(key, val)] else kvs)"
proof -
  let ?ar = "ak_arena s"
  have ok: "arena_ok ?ar" using assms(1) by (simp add: ak_inv_def)
  note P = push_bytes_spec [of _ spur d, OF _ assms(2)]
  show ?thesis
  proof (cases "push_fits key ?ar")
    case False
    then show ?thesis using P [OF ok assms(3)] assms(1) by (auto simp: arena_kv_put_def)
  next
    case fk: True
    let ?a1 = "pushed key ?ar" let ?s1 = "s\<lparr>ak_arena := ?a1\<rparr>"
    note ok1 = pushed_ok(1) [OF ok fk] and i1 = ak_inv_pushed [OF assms(1) fk]
    note k1 = holds_new [OF ok fk]
    show ?thesis
    proof (cases "push_fits val ?a1")
      case False
      then show ?thesis using fk P [OF ok assms(3)] P [OF ok1 assms(4)] i1 by (auto simp: arena_kv_put_def)
    next
      case fv: True
      have "ak_inv (?s1\<lparr>ak_arena := pushed val ?a1\<rparr>) kvs" using ak_inv_pushed [OF i1] fv by simp
      moreover have "holds (pushed val ?a1) (push_addr key ?ar, length key) key"
        by (rule holds_pushed [OF ok1 fv k1])
      moreover have "holds (pushed val ?a1) (push_addr val ?a1, length val) val" by (rule holds_new [OF ok1 fv])
      ultimately show ?thesis
        using fk fv P [OF ok assms(3)] P [OF ok1 assms(4)]
        by (intro exI [of _ True]) (simp add: arena_kv_put_def ak_inv_def list_all2_appendI)
    qed
  qed
qed

fun arena_kv_puts :: "(nat \<Rightarrow> bool) \<Rightarrow> (bytes \<times> bytes) list \<Rightarrow> arena_kv \<Rightarrow> (bool list \<times> arena_kv) run" where
  "arena_kv_puts spur [] s = Some (Inr ([], s))"
| "arena_kv_puts spur ((k, v) # kvs) s =
     run_bind (arena_kv_put spur k v s) (\<lambda>(b, s).
     run_bind (arena_kv_puts spur kvs s) (\<lambda>(bs, s). Some (Inr (b # bs, s))))"

lemma ak_puts:
  assumes "ak_inv s old" "\<not> spur d" "\<forall>(k, v) \<in> set kvs. length k < 2 ^ 64 \<and> length v < 2 ^ 64"
  shows "\<exists>bs s'. arena_kv_puts spur kvs s = Some (Inr (bs, s')) \<and> length bs = length kvs \<and>
    ak_inv s' (old @ map snd (filter fst (zip bs kvs)))"
  using assms(1,3)
proof (induction kvs arbitrary: s old)
  case (Cons kv kvs)
  obtain k v where kv: "kv = (k, v)" by fastforce
  obtain b s1 where b: "arena_kv_put spur k v s = Some (Inr (b, s1))" "ak_inv s1 (if b then old @ [(k, v)] else old)"
    using ak_put [of s old spur d k v, OF Cons.prems(1) assms(2)] Cons.prems(2) kv by auto
  from Cons.IH [OF b(2)] Cons.prems(2) obtain bs s' where r: "arena_kv_puts spur kvs s1 = Some (Inr (bs, s'))"
    "length bs = length kvs" "ak_inv s' ((if b then old @ [(k, v)] else old) @ map snd (filter fst (zip bs kvs)))" by auto
  then show ?case
    using b(1) kv by (intro exI [of _ "b # bs"] exI [of _ s']) (cases b; simp)
qed simp

section \<open>Derived record types\<close>

text \<open>
  A field type is a primitive one, an array, or a type of the downstream crate with its name, its
  size and its alignment.  Sizes and alignments are those of 64-bit targets.
\<close>

datatype prim = U8 | U16 | U32 | U64 | U128 | Usize | I8 | I16 | I32 | I64 | I128 | Isize | F32 | F64

datatype field_ty = Prim prim | Arr field_ty nat | Named string nat nat

fun prim_size :: "prim \<Rightarrow> nat" where
  "prim_size U8 = 1" | "prim_size U16 = 2" | "prim_size U32 = 4" | "prim_size U64 = 8" | "prim_size U128 = 16"
| "prim_size Usize = 8" | "prim_size I8 = 1" | "prim_size I16 = 2" | "prim_size I32 = 4" | "prim_size I64 = 8"
| "prim_size I128 = 16" | "prim_size Isize = 8" | "prim_size F32 = 4" | "prim_size F64 = 8"

fun size_of :: "field_ty \<Rightarrow> nat" where
  "size_of (Prim p) = prim_size p"
| "size_of (Arr t n) = size_of t * n"
| "size_of (Named _ sz _) = sz"

text \<open>A primitive type is aligned to its size.\<close>

fun align_of :: "field_ty \<Rightarrow> nat" where
  "align_of (Prim p) = prim_size p"
| "align_of (Arr t n) = align_of t"
| "align_of (Named _ _ al) = al"

text \<open>
  The implementations of \<open>Pod\<close>: \<open>zerocopy.rs\<close> has those of the primitive types and of arrays; \<open>pod\<close>
  tells which other types have one.
\<close>

fun is_pod :: "(string \<Rightarrow> bool) \<Rightarrow> field_ty \<Rightarrow> bool" where
  "is_pod pod (Prim p) = True"
| "is_pod pod (Arr t n) = is_pod pod t"
| "is_pod pod (Named name _ _) = pod name"

text \<open>The input of the macro: a struct with its generic parameters and its fields, or something else.\<close>

datatype item = Struct "string list" "field_ty list" | Enum | Union

text \<open>
  The layout of a record: its size, its alignment, the offsets of its fields, and \<open>n\<close> when the type
  is declared \<open>repr(packed(n))\<close>.
\<close>

record layout =
  ly_size :: nat
  ly_align :: nat
  ly_offs :: "nat list"
  ly_pack :: "nat option"

text \<open>
  A reference to a field of a packed struct compiles only when the alignment of the field's type
  is at most the packing.
\<close>

definition refs_compile :: "field_ty list \<Rightarrow> layout \<Rightarrow> bool" where
  "refs_compile tys ly =
     (case ly_pack ly of None \<Rightarrow> True | Some p \<Rightarrow> list_all (\<lambda>t. align_of t \<le> p) tys)"

text \<open>
  The checks of the macro and of the items it emits; a type that fails one does not compile.  The
  emitted \<open>const\<close> items name the type with its generic parameters, which are not in scope there.
\<close>

definition derive_zero_copy :: "(string \<Rightarrow> bool) \<Rightarrow> item \<Rightarrow> layout \<Rightarrow> layout option" where
  "derive_zero_copy pod it ly =
     (case it of
        Struct generics tys \<Rightarrow>
          if generics = [] \<and> list_all (is_pod pod) tys \<and> ly_size ly = sum_list (map size_of tys) \<and>
             refs_compile tys ly
          then Some ly else None
      | _ \<Rightarrow> None)"

definition encode :: "layout \<Rightarrow> u8 option list \<Rightarrow> bytes \<Rightarrow> bytes res" where
  "encode ly self dst =
     (if length dst < ly_size ly then Inl Panic
      else if None \<in> set (take (ly_size ly) self) then Inl UB
      else Inr (write_at 0 (map the (take (ly_size ly) self)) dst))"

definition decode :: "layout \<Rightarrow> bytes \<Rightarrow> u8 option list res" where
  "decode ly src = (if length src < ly_size ly then Inl Panic else Inr (map Some (take (ly_size ly) src)))"

text \<open>\<open>view\<close> of the bytes at address \<open>ptr\<close>: the record that the returned reference points to.\<close>

definition view :: "layout \<Rightarrow> usize \<Rightarrow> bytes \<Rightarrow> u8 option list option" where
  "view ly ptr src =
     (if length src < ly_size ly then None
      else if unat ptr mod ly_align ly \<noteq> 0 then None
      else Some (map Some (take (ly_size ly) src)))"

text \<open>What the compiler guarantees of a layout: fields lie inside the record and do not overlap.\<close>

definition field_bytes :: "field_ty list \<Rightarrow> layout \<Rightarrow> nat \<Rightarrow> nat set" where
  "field_bytes tys ly i = {ly_offs ly ! i ..< ly_offs ly ! i + size_of (tys ! i)}"

definition layout_of :: "field_ty list \<Rightarrow> layout \<Rightarrow> bool" where
  "layout_of tys ly \<longleftrightarrow> length (ly_offs ly) = length tys \<and>
     (\<forall>i < length tys. field_bytes tys ly i \<subseteq> {..<ly_size ly}) \<and>
     (\<forall>i < length tys. \<forall>j < length tys. i \<noteq> j \<longrightarrow> field_bytes tys ly i \<inter> field_bytes tys ly j = {})"

text \<open>
  The layout that the language defines for \<open>repr(C)\<close>, with \<open>packed(n)\<close> or without: the fields in
  their order, each at the next multiple of its alignment, which the packing caps.
\<close>

definition field_align :: "nat option \<Rightarrow> field_ty \<Rightarrow> nat" where
  "field_align pack t = (case pack of None \<Rightarrow> align_of t | Some p \<Rightarrow> min p (align_of t))"

fun place_fields :: "nat option \<Rightarrow> nat \<Rightarrow> field_ty list \<Rightarrow> nat list \<times> nat" where
  "place_fields pack off [] = ([], off)"
| "place_fields pack off (t # ts) =
     (let o1 = round_up off (field_align pack t); (offs, e) = place_fields pack (o1 + size_of t) ts in (o1 # offs, e))"

definition repr_c :: "nat option \<Rightarrow> field_ty list \<Rightarrow> layout" where
  "repr_c pack tys =
     (let (offs, e) = place_fields pack 0 tys; al = foldr max (map (field_align pack) tys) 1
      in \<lparr>ly_size = round_up e al, ly_align = al, ly_offs = offs, ly_pack = pack\<rparr>)"

text \<open>A record in memory: field \<open>i\<close> has the bytes \<open>vals ! i\<close>; every other byte is uninitialised.\<close>

definition record_mem :: "field_ty list \<Rightarrow> layout \<Rightarrow> bytes list \<Rightarrow> u8 option list" where
  "record_mem tys ly vals =
     map (\<lambda>j. case find (\<lambda>i. j \<in> field_bytes tys ly i) [0..<length tys] of
                None \<Rightarrow> None | Some i \<Rightarrow> Some (vals ! i ! (j - ly_offs ly ! i))) [0..<ly_size ly]"

text \<open>Fields of the right total size leave no gap.\<close>

lemma fields_card:
  assumes "layout_of tys ly"
  shows "card (\<Union>i < length tys. field_bytes tys ly i) = sum_list (map size_of tys)"
proof -
  have "card (\<Union>i \<in> {..<length tys}. field_bytes tys ly i) = (\<Sum>i < length tys. card (field_bytes tys ly i))"
    using assms by (intro card_UN_disjoint) (auto simp: layout_of_def field_bytes_def)
  also have "\<dots> = sum_list (map size_of tys)"
    by (simp add: field_bytes_def sum_list_sum_nth atLeast0LessThan)
  finally show ?thesis .
qed

lemma fields_cover:
  assumes "layout_of tys ly" "ly_size ly = sum_list (map size_of tys)"
  shows "(\<Union>i < length tys. field_bytes tys ly i) = {..<ly_size ly}"
proof (rule card_subset_eq)
  show "(\<Union>i < length tys. field_bytes tys ly i) \<subseteq> {..<ly_size ly}" using assms(1) by (auto simp: layout_of_def)
  show "card (\<Union>i < length tys. field_bytes tys ly i) = card {..<ly_size ly}"
    using fields_card [OF assms(1)] assms(2) by simp
qed simp

lemma record_initialised:
  assumes "layout_of tys ly" "ly_size ly = sum_list (map size_of tys)"
  shows "None \<notin> set (record_mem tys ly vals)"
proof
  assume "None \<in> set (record_mem tys ly vals)"
  then obtain j where j: "j < ly_size ly" "find (\<lambda>i. j \<in> field_bytes tys ly i) [0..<length tys] = None"
    by (auto simp: record_mem_def split: option.splits)
  then have "j \<notin> (\<Union>i < length tys. field_bytes tys ly i)" by (auto simp: find_None_iff)
  then show False using fields_cover [OF assms] j(1) by simp
qed

text \<open>The layout of \<open>repr(C)\<close> is one: the fields follow each other.\<close>

lemma place_fields_spec:
  assumes "place_fields pack off tys = (offs, e)" "\<forall>t \<in> set tys. 0 < field_align pack t"
  shows "length offs = length tys" "off \<le> e"
    "i < length tys \<Longrightarrow> off \<le> offs ! i \<and> offs ! i + size_of (tys ! i) \<le> e"
    "i < j \<Longrightarrow> j < length tys \<Longrightarrow> offs ! i + size_of (tys ! i) \<le> offs ! j"
proof -
  have "length offs = length tys \<and> off \<le> e \<and>
      (\<forall>i < length tys. off \<le> offs ! i \<and> offs ! i + size_of (tys ! i) \<le> e) \<and>
      (\<forall>j < length tys. \<forall>i < j. offs ! i + size_of (tys ! i) \<le> offs ! j)"
    using assms
  proof (induction tys arbitrary: off offs)
    case (Cons t ts)
    define o1 where "o1 = round_up off (field_align pack t)"
    obtain os where os: "place_fields pack (o1 + size_of t) ts = (os, e)" "offs = o1 # os"
      using Cons.prems(1) by (auto simp: o1_def Let_def split: prod.splits)
    have "off \<le> o1" using Cons.prems(2) round_up_bounds(1) [of "field_align pack t" off] by (simp add: o1_def)
    then show ?case using Cons.IH [OF os(1)] Cons.prems(2) os(2)
      by (auto simp: nth_Cons' less_Suc_eq_0_disj)
  qed simp
  then show "length offs = length tys" "off \<le> e"
    "i < length tys \<Longrightarrow> off \<le> offs ! i \<and> offs ! i + size_of (tys ! i) \<le> e"
    "i < j \<Longrightarrow> j < length tys \<Longrightarrow> offs ! i + size_of (tys ! i) \<le> offs ! j" by auto
qed

lemma foldr_max_ge1: "1 \<le> foldr max xs (1 :: nat)"
  by (induction xs) auto

lemma repr_c_layout:
  assumes "\<forall>t \<in> set tys. 0 < field_align pack t"
  shows "layout_of tys (repr_c pack tys)"
proof -
  obtain offs e where p: "place_fields pack 0 tys = (offs, e)" by fastforce
  note S = place_fields_spec [OF p assms]
  have "e \<le> ly_size (repr_c pack tys)"
    using round_up_bounds(1) foldr_max_ge1 [of "map (field_align pack) tys"] by (simp add: repr_c_def p Let_def)
  moreover have "ly_offs (repr_c pack tys) = offs" by (simp add: repr_c_def p Let_def)
  moreover have "offs ! i + size_of (tys ! i) \<le> offs ! j \<or> offs ! j + size_of (tys ! j) \<le> offs ! i"
    if "i < length tys" "j < length tys" "i \<noteq> j" for i j
    using S(4) [of i j] S(4) [of j i] that by linarith
  ultimately show ?thesis using S(1) S(3) by (fastforce simp: layout_of_def field_bytes_def)
qed

section \<open>Properties\<close>

text \<open>
  C32: After any sequence of \<open>put\<close>s on a new arena store, \<open>get\<close> reads only initialised bytes of the
  arena and returns the value of the first \<open>put\<close> of the key that succeeded: a later \<open>put\<close> of the
  same key succeeds and has no effect.
\<close>

theorem arena_kv_first_put_wins:
  assumes "base_fits al" "arena_kv_new al cap = Inr s" "\<not> spur d"
    "\<forall>(k, v) \<in> set kvs. length k < 2 ^ 64 \<and> length v < 2 ^ 64"
  shows "\<exists>bs s'. arena_kv_puts spur kvs s = Some (Inr (bs, s')) \<and> length bs = length kvs \<and>
    arena_kv_get key s' = Inr (map_of (map snd (filter fst (zip bs kvs))) key)"
proof -
  from assms(2) obtain ar where ar: "arena_new al cap 64 = Inr ar" "s = \<lparr>ak_arena = ar, ak_entries = []\<rparr>"
    by (auto simp: arena_kv_new_def try_bind_def split: sum.splits)
  have "ak_inv s []" using arena_new_ok(1) [OF assms(1) ar(1)] by (simp add: ak_inv_def ar(2))
  from ak_puts [of s "[]" spur d kvs, OF this assms(3,4)] obtain bs s' where
    "arena_kv_puts spur kvs s = Some (Inr (bs, s'))" "length bs = length kvs"
    "ak_inv s' (map snd (filter fst (zip bs kvs)))" by auto
  then show ?thesis using ak_get by blast
qed

theorem arena_kv_first_put_wins_witness:
  "\<exists>s s'. arena_kv_new page_two 64 = Inr s \<and>
    arena_kv_puts (\<lambda>_. False) [([1], [10]), ([1], [20])] s = Some (Inr ([True, True], s')) \<and>
    arena_kv_get [1] s' = Inr (Some [10]) \<and> arena_kv_get [9] s' = Inr None"
proof -
  let ?kvs = "[([1 :: u8], [10 :: u8]), ([1], [20])]"
  obtain ar where ar: "arena_new page_two 64 64 = Inr ar" using page_two_new by blast
  let ?s = "\<lparr>ak_arena = ar, ak_entries = []\<rparr>"
  from ar have new: "arena_kv_new page_two 64 = Inr ?s" by (simp add: arena_kv_new_def)
  note ok = arena_new_ok [OF page_two ar]
  have one: "push_bytes (\<lambda>_. False) [b] a = Some (Inr (Some (push_addr [b] a, 1), pushed [b] a)) \<and>
      arena_ok (pushed [b] a) \<and> unat (ar_head (pushed [b] a)) = unat (ar_head a) + 1 \<and> ar_cap (pushed [b] a) = ar_cap a"
    if "arena_ok a" "unat (ar_head a) < 64" "ar_cap a = 64" for a b
  proof -
    have f: "push_fits [b] a" using that(2,3) by (simp add: push_fits_def)
    show ?thesis using push_bytes_spec [of a "\<lambda>_. False" 0 "[b]"] pushed_ok [OF that(1) f] f that(1,3)
      by (simp add: pushed_def)
  qed
  let ?a1 = "pushed [1] ar" let ?a2 = "pushed [10] ?a1" let ?a3 = "pushed [1] ?a2"
  note p1 = one [OF ok(1), of 1] note p2 = one [of ?a1 10] note p3 = one [of ?a2 1] note p4 = one [of ?a3 20]
  have "\<exists>s'. arena_kv_puts (\<lambda>_. False) ?kvs ?s = Some (Inr ([True, True], s'))"
    using p1 p2 p3 p4 ok by (simp add: arena_kv_put_def)
  then obtain s' where s': "arena_kv_puts (\<lambda>_. False) ?kvs ?s = Some (Inr ([True, True], s'))" by blast
  have "\<forall>(k, v) \<in> set ?kvs. length k < 2 ^ 64 \<and> length v < 2 ^ 64" by simp
  note W = arena_kv_first_put_wins [OF page_two new _ this, of "\<lambda>_. False" 0]
  show ?thesis using W [of "[1]"] W [of "[9]"] new s' by auto
qed

text \<open>
  C38: The macro accepts a struct exactly when it has no generic parameters, every field type
  implements \<open>Pod\<close>, the layout has no padding, so that every byte of the record belongs to exactly
  one field, and no field of a packed struct has an alignment above the packing.  Enums and unions
  are rejected.
\<close>

theorem derive_accepts_iff:
  assumes "layout_of tys ly"
  shows "(derive_zero_copy pod (Struct generics tys) ly = Some ly \<longleftrightarrow>
      generics = [] \<and> list_all (is_pod pod) tys \<and>
      (\<forall>j < ly_size ly. \<exists>!i. i < length tys \<and> j \<in> field_bytes tys ly i) \<and>
      (\<forall>p i. ly_pack ly = Some p \<and> i < length tys \<longrightarrow> align_of (tys ! i) \<le> p)) \<and>
    (derive_zero_copy pod (Struct generics tys) ly \<noteq> Some ly \<longrightarrow> derive_zero_copy pod (Struct generics tys) ly = None) \<and>
    derive_zero_copy pod Enum ly = None \<and> derive_zero_copy pod Union ly = None"
proof -
  let ?U = "\<Union>i < length tys. field_bytes tys ly i"
  have sub: "?U \<subseteq> {..<ly_size ly}" using assms by (auto simp: layout_of_def)
  have uniq: "i = i'" if "i < length tys" "i' < length tys" "j \<in> field_bytes tys ly i" "j \<in> field_bytes tys ly i'" for i i' j
    using assms that unfolding layout_of_def by (metis disjoint_iff)
  have "ly_size ly = sum_list (map size_of tys) \<longleftrightarrow> ?U = {..<ly_size ly}"
    using fields_cover [OF assms] fields_card [OF assms] by force
  also have "\<dots> \<longleftrightarrow> (\<forall>j < ly_size ly. \<exists>i < length tys. j \<in> field_bytes tys ly i)" using sub by auto
  also have "\<dots> \<longleftrightarrow> (\<forall>j < ly_size ly. \<exists>!i. i < length tys \<and> j \<in> field_bytes tys ly i)"
    using uniq by metis
  finally have "ly_size ly = sum_list (map size_of tys) \<longleftrightarrow>
    (\<forall>j < ly_size ly. \<exists>!i. i < length tys \<and> j \<in> field_bytes tys ly i)" .
  moreover have "refs_compile tys ly \<longleftrightarrow> (\<forall>p i. ly_pack ly = Some p \<and> i < length tys \<longrightarrow> align_of (tys ! i) \<le> p)"
    by (auto simp: refs_compile_def list_all_length split: option.splits)
  ultimately show ?thesis by (simp add: derive_zero_copy_def)
qed

text \<open>
  Three records of the examples: a \<open>u32\<close> and two \<open>u16\<close>; a \<open>u32\<close> and a \<open>u8\<close>, which \<open>repr(C)\<close> pads; and
  the latter packed, which leaves no padding but an unaligned field.
\<close>

lemma example_layouts:
  "repr_c None [Prim U32, Prim U16, Prim U16] = \<lparr>ly_size = 8, ly_align = 4, ly_offs = [0, 4, 6], ly_pack = None\<rparr>"
  "repr_c None [Prim U32, Prim U8] = \<lparr>ly_size = 8, ly_align = 4, ly_offs = [0, 4], ly_pack = None\<rparr>"
  "repr_c (Some 1) [Prim U32, Prim U8] = \<lparr>ly_size = 5, ly_align = 1, ly_offs = [0, 4], ly_pack = Some 1\<rparr>"
  by (simp_all add: repr_c_def Let_def field_align_def round_up_def)

lemma example_layout_of:
  "layout_of [Prim U32, Prim U16, Prim U16] (repr_c None [Prim U32, Prim U16, Prim U16])"
  "layout_of [Prim U32, Prim U8] (repr_c None [Prim U32, Prim U8])"
  "layout_of [Prim U32, Prim U8] (repr_c (Some 1) [Prim U32, Prim U8])"
  by (rule repr_c_layout; simp add: field_align_def)+

theorem derive_accepts_iff_witness:
  "derive_zero_copy (\<lambda>_. False) (Struct [] [Prim U32, Prim U16, Prim U16]) (repr_c None [Prim U32, Prim U16, Prim U16]) \<noteq> None \<and>
   (\<exists>!i. i < 3 \<and> 5 \<in> field_bytes [Prim U32, Prim U16, Prim U16] (repr_c None [Prim U32, Prim U16, Prim U16]) i) \<and>
   derive_zero_copy (\<lambda>_. False) (Struct [] [Prim U32, Prim U8]) (repr_c None [Prim U32, Prim U8]) = None \<and>
   derive_zero_copy (\<lambda>_. False) (Struct [] [Prim U32, Prim U8]) (repr_c (Some 1) [Prim U32, Prim U8]) = None"
proof (intro conjI)
  note A = derive_accepts_iff [OF example_layout_of(1), of "\<lambda>_. False" "[]"]
    and B = derive_accepts_iff [OF example_layout_of(2), of "\<lambda>_. False" "[]"]
    and C = derive_accepts_iff [OF example_layout_of(3), of "\<lambda>_. False" "[]"]
  have a: "derive_zero_copy (\<lambda>_. False) (Struct [] [Prim U32, Prim U16, Prim U16]) (repr_c None [Prim U32, Prim U16, Prim U16]) =
      Some (repr_c None [Prim U32, Prim U16, Prim U16])"
    by (simp add: derive_zero_copy_def refs_compile_def example_layouts)
  then show "derive_zero_copy (\<lambda>_. False) (Struct [] [Prim U32, Prim U16, Prim U16]) (repr_c None [Prim U32, Prim U16, Prim U16]) \<noteq> None"
    by simp
  show "\<exists>!i. i < 3 \<and> 5 \<in> field_bytes [Prim U32, Prim U16, Prim U16] (repr_c None [Prim U32, Prim U16, Prim U16]) i"
    using A a by (simp add: example_layouts(1) numeral_3_eq_3)
  have gap: "\<not> (\<exists>i < 2. 7 \<in> field_bytes [Prim U32, Prim U8] (repr_c None [Prim U32, Prim U8]) i)"
    by (auto simp: example_layouts field_bytes_def dest!: less_2_cases)
  have "7 < ly_size (repr_c None [Prim U32, Prim U8])" by (simp add: example_layouts)
  moreover have "length [Prim U32, Prim U8] = 2" by simp
  ultimately show "derive_zero_copy (\<lambda>_. False) (Struct [] [Prim U32, Prim U8]) (repr_c None [Prim U32, Prim U8]) = None"
    using B gap by metis
  have "ly_pack (repr_c (Some 1) [Prim U32, Prim U8]) = Some 1" "\<not> align_of ([Prim U32, Prim U8] ! 0) \<le> 1"
    "0 < length [Prim U32, Prim U8]" by (simp_all add: example_layouts(3) [simplified])
  then show "derive_zero_copy (\<lambda>_. False) (Struct [] [Prim U32, Prim U8]) (repr_c (Some 1) [Prim U32, Prim U8]) = None"
    using C by metis
qed

text \<open>
  C36: Packing never makes a \<open>repr(C)\<close> struct acceptable: the macro accepts its packed form exactly
  when it accepts the unpacked one and no field is aligned above the packing.  So the advice of the
  padding error, to add \<open>#[repr(C, packed)]\<close>, leads from that error to another one.
\<close>

theorem packing_never_helps:
  "derive_zero_copy pod (Struct generics tys) (repr_c (Some p) tys) \<noteq> None \<longleftrightarrow>
     derive_zero_copy pod (Struct generics tys) (repr_c None tys) \<noteq> None \<and> list_all (\<lambda>t. align_of t \<le> p) tys"
proof (cases "list_all (\<lambda>t. align_of t \<le> p) tys")
  case True
  then have al: "map (field_align (Some p)) tys = map (field_align None) tys"
    by (auto simp: field_align_def list_all_iff)
  have "place_fields (Some p) off tys = place_fields None off tys" for off
    using True by (induction tys arbitrary: off) (auto simp: field_align_def min_absorb2)
  then have "ly_size (repr_c (Some p) tys) = ly_size (repr_c None tys)"
    by (simp add: repr_c_def al Let_def split: prod.splits)
  moreover have "ly_pack (repr_c (Some p) tys) = Some p" "ly_pack (repr_c None tys) = None"
    by (simp_all add: repr_c_def Let_def split: prod.splits)
  ultimately show ?thesis using True by (simp add: derive_zero_copy_def refs_compile_def)
next
  case False
  have "ly_pack (repr_c (Some p) tys) = Some p" by (simp add: repr_c_def Let_def split: prod.splits)
  then show ?thesis using False by (simp add: derive_zero_copy_def refs_compile_def)
qed

text \<open>
  C33: For every record type the macro accepts, \<open>encode\<close> reads initialised bytes only, and \<open>decode\<close>
  gives the record back; \<open>view\<close> gives it back in place exactly when the address is aligned.  Both
  panic, or refuse, on a buffer that is too small.
\<close>

theorem derived_round_trip:
  assumes "layout_of tys ly" "derive_zero_copy pod (Struct generics tys) ly = Some z"
  shows "if length dst < ly_size z
    then encode z (record_mem tys ly vals) dst = Inl Panic \<and> decode z dst = Inl Panic \<and> view z ptr dst = None
    else \<exists>dst'. encode z (record_mem tys ly vals) dst = Inr dst' \<and> length dst' = length dst \<and>
      drop (ly_size z) dst' = drop (ly_size z) dst \<and> decode z dst' = Inr (record_mem tys ly vals) \<and>
      view z ptr dst' = (if unat ptr mod ly_align z = 0 then Some (record_mem tys ly vals) else None)"
proof (cases "length dst < ly_size z")
  case True
  then show ?thesis by (simp add: encode_def decode_def view_def)
next
  case False
  let ?m = "record_mem tys ly vals"
  have z: "z = ly" "ly_size ly = sum_list (map size_of tys)"
    using assms(2) by (auto simp: derive_zero_copy_def split: if_splits)
  have len: "length ?m = ly_size ly" by (simp add: record_mem_def)
  have init: "None \<notin> set ?m" by (rule record_initialised [OF assms(1) z(2)])
  have "map Some (map the ?m) = ?m"
    unfolding map_map by (rule map_idI) (metis comp_apply init option.collapse)
  moreover have "take (ly_size ly) (write_at 0 (map the ?m) dst) = map the ?m" using len by (simp add: write_at_def)
  moreover have "drop (ly_size ly) (write_at 0 (map the ?m) dst) = drop (ly_size ly) dst"
    using len by (simp add: write_at_def)
  ultimately show ?thesis using False init len
    by (simp add: z(1) encode_def decode_def view_def)
qed

theorem derived_round_trip_witness:
  "\<exists>ly dst'. ly = repr_c None [Prim U32, Prim U16, Prim U16] \<and>
    encode ly (record_mem [Prim U32, Prim U16, Prim U16] ly [[1, 2, 3, 4], [5, 6], [9, 0]]) [0, 0, 0, 0, 0, 0, 0, 0, 7] = Inr dst' \<and>
    decode ly dst' = Inr (record_mem [Prim U32, Prim U16, Prim U16] ly [[1, 2, 3, 4], [5, 6], [9, 0]]) \<and>
    view ly 4096 dst' = Some (record_mem [Prim U32, Prim U16, Prim U16] ly [[1, 2, 3, 4], [5, 6], [9, 0]])"
proof -
  let ?tys = "[Prim U32, Prim U16, Prim U16]"
  let ?ly = "repr_c None ?tys"
  have ly: "ly_size ?ly = 8" "ly_align ?ly = 4" by (simp_all add: example_layouts)
  have "derive_zero_copy (\<lambda>_. False) (Struct [] ?tys) ?ly = Some ?ly"
    by (simp add: derive_zero_copy_def refs_compile_def example_layouts)
  from derived_round_trip [OF example_layout_of(1) this, of "[0, 0, 0, 0, 0, 0, 0, 0, 7]" "[[1, 2, 3, 4], [5, 6], [9, 0]]" 4096]
  show ?thesis unfolding ly by auto
qed

end
