(* ===== verification/Treiber.thy ===== *)
theory Treiber
  imports Prelude
begin

text \<open>
  The multi-producer stack that \<open>group_commit.rs\<close> and \<open>mesh.rs\<close> both contain: producers push a boxed
  node with a compare-and-swap on the head, the one consumer detaches the whole stack with a swap
  and frees the nodes as it walks them.  This theory has the accesses to the shared memory and the
  invariant of that memory; the component theories put the steps of their threads on top.

  A node that a producer has not published yet belongs to that producer.  Addresses are reused
  after the consumer has freed a node, so a compare-and-swap may succeed on a head that has been
  away in the meantime; the invariant says why that is harmless for a push.
\<close>

section \<open>Memory\<close>

record 'a tnode =
  tn_item :: 'a
  tn_next :: usize

type_synonym 'a theap = "usize \<rightharpoonup> 'a tnode"

text \<open>\<open>Box::new\<close> with a null link, and the store of the loaded head into the link.\<close>

definition t_new :: "usize \<Rightarrow> 'a \<Rightarrow> 'a theap \<Rightarrow> 'a theap" where
  "t_new a x h = h(a \<mapsto> \<lparr>tn_item = x, tn_next = 0\<rparr>)"

definition t_set_next :: "usize \<Rightarrow> usize \<Rightarrow> 'a theap \<Rightarrow> 'a theap" where
  "t_set_next a p h = (case h a of None \<Rightarrow> h | Some nd \<Rightarrow> h(a \<mapsto> nd\<lparr>tn_next := p\<rparr>))"

text \<open>The walk of the consumer: every node is turned back into a box, read and freed.\<close>

partial_function (option) drain :: "usize \<Rightarrow> 'a theap \<Rightarrow> ('a list \<times> 'a theap) run" where
  "drain node h =
     (if node = 0 then Some (Inr ([], h))
      else case h node of
        None \<Rightarrow> Some (Inl UB)
      | Some nd \<Rightarrow> run_bind (drain (tn_next nd) (h(node := None))) (\<lambda>(xs, h'). Some (Inr (tn_item nd # xs, h'))))"

section \<open>Chains\<close>

fun chain :: "'a theap \<Rightarrow> usize \<Rightarrow> usize list \<Rightarrow> bool" where
  "chain h p [] \<longleftrightarrow> p = 0"
| "chain h p (a # as) \<longleftrightarrow> p = a \<and> a \<noteq> 0 \<and> (\<exists>nd. h a = Some nd \<and> chain h (tn_next nd) as)"

definition tn_items :: "'a theap \<Rightarrow> usize list \<Rightarrow> 'a list" where
  "tn_items h as = map (\<lambda>a. tn_item (the (h a))) as"

lemma chain_cong: "(\<And>a. a \<in> set as \<Longrightarrow> h a = h' a) \<Longrightarrow> chain h p as \<longleftrightarrow> chain h' p as"
  by (induction as arbitrary: p) auto

lemma items_cong: "(\<And>a. a \<in> set as \<Longrightarrow> h a = h' a) \<Longrightarrow> tn_items h as = tn_items h' as"
  by (simp add: tn_items_def)

lemma chain_upd [simp]: "a \<notin> set as \<Longrightarrow> chain (h(a := v)) p as \<longleftrightarrow> chain h p as"
  by (rule chain_cong) auto

lemma items_upd [simp]: "a \<notin> set as \<Longrightarrow> tn_items (h(a := v)) as = tn_items h as"
  by (rule items_cong) auto

lemma chain_set_next [simp]: "a \<notin> set as \<Longrightarrow> chain (t_set_next a q h) p as \<longleftrightarrow> chain h p as"
  by (simp add: t_set_next_def split: option.splits)

lemma items_set_next [simp]: "tn_items (t_set_next a q h) as = tn_items h as"
  by (auto simp: tn_items_def t_set_next_def split: option.splits)

lemma chain_dom: "chain h p as \<Longrightarrow> set as \<subseteq> dom h"
  by (induction as arbitrary: p) auto

text \<open>A chain without repetition is walked to its end, and exactly its nodes are freed.\<close>

lemma drain_chain:
  assumes "chain h p as" "distinct as"
  shows "drain p h = Some (Inr (tn_items h as, h |` (- set as)))"
  using assms
proof (induction as arbitrary: h p)
  case Nil
  then show ?case by (subst drain.simps) (simp add: tn_items_def restrict_map_def)
next
  case (Cons a as)
  then obtain nd where a: "p = a" "a \<noteq> 0" "h a = Some nd" "chain h (tn_next nd) as" by auto
  have "drain (tn_next nd) (h(a := None)) = Some (Inr (tn_items (h(a := None)) as, (h(a := None)) |` (- set as)))"
    using a(4) Cons.prems(2) by (intro Cons.IH) (simp_all del: fun_upd_apply)
  moreover have "(h(a := None)) |` (- set as) = h |` (- set (a # as))" by (auto simp: restrict_map_def)
  ultimately show ?case
    using a Cons.prems(2) by (subst drain.simps) (simp add: tn_items_def)
qed

section \<open>The invariant of the shared memory\<close>

text \<open>
  The stack is a chain of distinct nodes, producers own pairwise different nodes outside it, and
  nothing else is allocated.
\<close>

definition stack_inv :: "'a theap \<Rightarrow> usize \<Rightarrow> usize list \<Rightarrow> usize set \<Rightarrow> bool" where
  "stack_inv h head as own \<longleftrightarrow>
     chain h head as \<and> distinct as \<and> set as \<inter> own = {} \<and> 0 \<notin> own \<and> dom h = set as \<union> own"

lemma stack_inv_empty [simp]: "stack_inv Map.empty 0 [] {}"
  by (simp add: stack_inv_def)

lemma stack_inv_new:
  assumes "stack_inv h head as own" "a \<noteq> 0" "h a = None"
  shows "stack_inv (t_new a x h) head as (insert a own)" "tn_items (t_new a x h) as = tn_items h as"
    "t_new a x h a = Some \<lparr>tn_item = x, tn_next = 0\<rparr>"
proof -
  have "a \<notin> set as" "a \<notin> own" using assms by (auto simp: stack_inv_def)
  then show "stack_inv (t_new a x h) head as (insert a own)" "tn_items (t_new a x h) as = tn_items h as"
    using assms by (auto simp: stack_inv_def t_new_def)
  show "t_new a x h a = Some \<lparr>tn_item = x, tn_next = 0\<rparr>" by (simp add: t_new_def)
qed

lemma dom_set_next [simp]: "dom (t_set_next a q h) = dom h"
  by (auto simp: t_set_next_def split: option.splits)

lemma stack_inv_set_next:
  "stack_inv h head as own \<Longrightarrow> a \<in> own \<Longrightarrow> stack_inv (t_set_next a q h) head as own"
  unfolding stack_inv_def by (subst chain_set_next) auto

text \<open>
  The push.  Whatever happened since the producer loaded the head, the link of its node equals the
  present head when the compare-and-swap succeeds.
\<close>

lemma stack_inv_push:
  assumes "stack_inv h head as own" "a \<in> own" "h a = Some nd" "tn_next nd = head"
  shows "stack_inv h a (a # as) (own - {a})" "tn_items h (a # as) = tn_item nd # tn_items h as"
  using assms by (auto simp: stack_inv_def tn_items_def)

text \<open>The swap hands the chain to the consumer, whose walk meets nothing of anybody else.\<close>

lemma stack_inv_swap:
  assumes "stack_inv h head as own"
  shows "stack_inv h 0 [] (own \<union> set as)" "chain h head as" "distinct as" "set as \<inter> own = {}"
proof -
  have "chain h p as \<Longrightarrow> 0 \<notin> set as" for p by (induction as arbitrary: p) auto
  then have "0 \<notin> set as" using assms unfolding stack_inv_def by blast
  then show "stack_inv h 0 [] (own \<union> set as)" using assms by (auto simp: stack_inv_def)
  show "chain h head as" "distinct as" "set as \<inter> own = {}" using assms by (simp_all add: stack_inv_def)
qed

lemma stack_inv_drain:
  assumes "stack_inv h head as own" "chain h p ds" "distinct ds" "set ds \<subseteq> own"
  shows "drain p h = Some (Inr (tn_items h ds, h |` (- set ds)))" "stack_inv (h |` (- set ds)) head as (own - set ds)"
    "tn_items (h |` (- set ds)) as = tn_items h as"
proof -
  show "drain p h = Some (Inr (tn_items h ds, h |` (- set ds)))" by (rule drain_chain [OF assms(2,3)])
  have eq: "(h |` (- set ds)) a = h a" if "a \<in> set as" for a
    using that assms(1,4) by (auto simp: stack_inv_def restrict_map_def)
  then show "tn_items (h |` (- set ds)) as = tn_items h as" by (rule items_cong)
  have "chain (h |` (- set ds)) head as \<longleftrightarrow> chain h head as" using eq by (rule chain_cong)
  then show "stack_inv (h |` (- set ds)) head as (own - set ds)" using assms(1,4) by (auto simp: stack_inv_def)
qed

lemma stack_inv_head: "stack_inv h head as own \<Longrightarrow> head = 0 \<longleftrightarrow> as = []"
  by (cases as) (auto simp: stack_inv_def)

section \<open>Exclusive ownership\<close>

text \<open>What each of any number of threads holds, with no two threads holding the same thing.\<close>

definition exclusive :: "('t \<Rightarrow> 'b set) \<Rightarrow> bool" where
  "exclusive F \<longleftrightarrow> (\<forall>t t'. t \<noteq> t' \<longrightarrow> F t \<inter> F t' = {})"

lemma exclusive_empty [simp]: "exclusive (\<lambda>_. {})"
  by (simp add: exclusive_def)

lemma exclusive_drop:
  assumes "exclusive F"
  shows "exclusive (F(t := {}))" "\<Union>(range (F(t := {}))) = \<Union>(range F) - F t"
proof -
  show "exclusive (F(t := {}))" using assms by (auto simp: exclusive_def)
  have "x \<notin> F t" if "x \<in> F u" "u \<noteq> t" for x u using assms that unfolding exclusive_def by blast
  then show "\<Union>(range (F(t := {}))) = \<Union>(range F) - F t" by (auto split: if_splits) metis
qed

lemma exclusive_add:
  assumes "exclusive F" "F t = {}" "X \<inter> \<Union>(range F) = {}"
  shows "exclusive (F(t := X))" "\<Union>(range (F(t := X))) = X \<union> \<Union>(range F)"
proof -
  show "exclusive (F(t := X))" using assms by (fastforce simp: exclusive_def)
  show "\<Union>(range (F(t := X))) = X \<union> \<Union>(range F)" using assms(2) by (auto split: if_splits)
qed

text \<open>The effect of a step of one thread on what all threads hold.\<close>

lemma keep_upd: "f v = f (g t) \<Longrightarrow> f \<circ> g(t := v) = f \<circ> g"
  by (auto simp: fun_eq_iff)

lemma upd_comp: "f \<circ> g(t := v) = (f \<circ> g)(t := f v)"
  by (rule fun_upd_comp)

end
