(* ===== verification/RegBuf.thy ===== *)
theory RegBuf
  imports MmapLog "HOL-Library.Multiset"
begin

text \<open>
  The registered buffers, \<open>crates/zerokv/src/regbuf.rs\<close>: the pool of page-aligned buffers cut from one
  slab, the handles, and the portable backend.  The lock on the free list is held for one pop or
  push, so every operation of the pool is one step.  The kernel decides how many bytes a positional
  read or write moves; its decisions are arguments.
\<close>

section \<open>The pool\<close>

record reg_buffers =
  rb_base :: usize
  rb_buf_len :: usize
  rb_count :: usize
  rb_free :: "u16 list"
  rb_mem :: bytes

definition rb_register :: "page_alloc \<Rightarrow> usize \<Rightarrow> usize \<Rightarrow> heap \<Rightarrow> (reg_buffers \<times> heap) res" where
  "rb_register al cnt buf_len0 h =
     (if \<not> (0 < cnt \<and> cnt \<le> 65535) then Inl Panic
      else let buf_len = round_page (max buf_len0 1) in
      case checked_mul cnt buf_len of
        None \<Rightarrow> Inl Panic
      | Some slab \<Rightarrow>
          if \<not> layout_ok slab then Inl Panic
          else if slab = 0 then Inl UB
          else let base = al h slab in
            if base = 0 then Inl Abort
            else Inr (\<lparr>rb_base = base, rb_buf_len = buf_len, rb_count = cnt,
                       rb_free = map of_nat [0..<unat (ucast cnt :: u16)], rb_mem = replicate (unat slab) 0\<rparr>,
                      h(base \<mapsto> slab)))"

record fixed_buf =
  fb_index :: u16
  fb_ptr :: usize
  fb_len :: usize

text \<open>\<open>acquire\<close> pops the last free index.\<close>

definition rb_acquire :: "reg_buffers \<Rightarrow> fixed_buf option \<times> reg_buffers" where
  "rb_acquire rb =
     (if rb_free rb = [] then (None, rb)
      else let index = last (rb_free rb) in
        (Some \<lparr>fb_index = index, fb_ptr = rb_base rb + ucast index * rb_buf_len rb, fb_len = rb_buf_len rb\<rparr>,
         rb\<lparr>rb_free := butlast (rb_free rb)\<rparr>))"

definition rb_release :: "u16 \<Rightarrow> reg_buffers \<Rightarrow> reg_buffers" where
  "rb_release index rb = rb\<lparr>rb_free := rb_free rb @ [index]\<rparr>"

definition rb_available :: "reg_buffers \<Rightarrow> usize" where
  "rb_available rb = of_nat (length (rb_free rb))"

definition rb_drop :: "reg_buffers \<Rightarrow> heap \<Rightarrow> heap res" where
  "rb_drop rb h =
     (let slab = rb_count rb * rb_buf_len rb in
      if \<not> layout_ok slab then Inl Panic
      else if h (rb_base rb) = Some slab then Inr (h(rb_base rb := None)) else Inl UB)"

text \<open>\<open>Drop for FixedBuf\<close>, and the bytes of a handle.\<close>

definition fb_drop :: "fixed_buf \<Rightarrow> reg_buffers \<Rightarrow> reg_buffers" where
  "fb_drop b rb = rb_release (fb_index b) rb"

definition fb_off :: "reg_buffers \<Rightarrow> fixed_buf \<Rightarrow> nat" where
  "fb_off rb b = unat (fb_ptr b - rb_base rb)"

definition fb_slice :: "fixed_buf \<Rightarrow> reg_buffers \<Rightarrow> bytes res" where
  "fb_slice b rb =
     (if length (rb_mem rb) < fb_off rb b + unat (fb_len b) then Inl UB
      else Inr (region (fb_off rb b) (unat (fb_len b)) (rb_mem rb)))"

text \<open>A write of \<open>xs\<close> to the start of \<open>as_mut_slice\<close>.\<close>

definition fb_write :: "bytes \<Rightarrow> fixed_buf \<Rightarrow> reg_buffers \<Rightarrow> reg_buffers res" where
  "fb_write xs b rb =
     (if length (rb_mem rb) < fb_off rb b + unat (fb_len b) then Inl UB
      else if unat (fb_len b) < length xs then Inl Panic
      else Inr (rb\<lparr>rb_mem := write_at (fb_off rb b) xs (rb_mem rb)\<rparr>))"

section \<open>The portable backend\<close>

text \<open>The kernel's answer to one positional call: an error, or at most so many bytes.\<close>

datatype io_answer = Fails | Moves nat

text \<open>A positional write to the bytes of a file, which grows as needed.\<close>

definition pwrite :: "nat \<Rightarrow> bytes \<Rightarrow> bytes \<Rightarrow> bytes" where
  "pwrite pos xs f =
     (if xs = [] then f
      else take pos (f @ replicate (pos - length f) 0) @ xs @ drop (pos + length xs) f)"

definition read_fixed ::
    "io_answer \<Rightarrow> bytes \<Rightarrow> u64 \<Rightarrow> usize \<Rightarrow> fixed_buf \<Rightarrow> reg_buffers \<Rightarrow> ((usize, unit) result \<times> reg_buffers) res" where
  "read_fixed ans f offset len0 b rb =
     (let len = min len0 (fb_len b) in
      case ans of
        Fails \<Rightarrow> Inr (Err (), rb)
      | Moves k \<Rightarrow>
          let got = take (min k (unat len)) (drop (unat offset) f) in
          try_bind (fb_write got b rb) (\<lambda>rb'. Inr (Ok (of_nat (length got)), rb')))"

text \<open>\<open>write_all_at\<close>: the kernel answers the calls with \<open>ks\<close>; a call that moves nothing is an error.\<close>

datatype write_error = WriteFailed | WriteZero | NoAnswer

function write_all_at ::
    "io_answer list \<Rightarrow> bytes \<Rightarrow> u64 \<Rightarrow> bytes \<Rightarrow> (unit, write_error) result \<times> bytes \<times> io_answer list" where
  "write_all_at ks data offset f =
     (if data = [] then (Ok (), f, ks)
      else case ks of
        [] \<Rightarrow> (Err NoAnswer, f, [])
      | Fails # ks' \<Rightarrow> (Err WriteFailed, f, ks')
      | Moves k # ks' \<Rightarrow>
          let n = min k (length data); f' = pwrite (unat offset) (take n data) f in
          if n = 0 then (Err WriteZero, f', ks')
          else write_all_at ks' (drop n data) (offset + of_nat n) f')"
  by pat_completeness auto
termination by (relation "measure (\<lambda>(ks, data, offset, f). length data)") auto

declare write_all_at.simps [simp del]

text \<open>\<open>write_vectored\<close>: the slices one after the other, at advancing positions.\<close>

fun write_slices ::
    "io_answer list \<Rightarrow> bytes list \<Rightarrow> u64 \<Rightarrow> usize \<Rightarrow> bytes \<Rightarrow> (usize, write_error) result \<times> bytes" where
  "write_slices ks [] pos tot f = (Ok tot, f)"
| "write_slices ks (s # ss) pos tot f =
     (case write_all_at ks s pos f of
        (Err e, f', ks') \<Rightarrow> (Err e, f')
      | (Ok _, f', ks') \<Rightarrow> write_slices ks' ss (pos + of_nat (length s)) (tot + of_nat (length s)) f')"

definition write_vectored ::
    "io_answer list \<Rightarrow> bytes list \<Rightarrow> u64 \<Rightarrow> bytes \<Rightarrow> (usize, write_error) result \<times> bytes" where
  "write_vectored ks bufs offset f = write_slices ks bufs offset 0 f"

section \<open>Handles are exclusive\<close>

text \<open>A pool and the handles in use; taking a handle, dropping one, and writing through one.\<close>

inductive rb_step :: "reg_buffers \<times> fixed_buf list \<Rightarrow> reg_buffers \<times> fixed_buf list \<Rightarrow> bool" where
  acquire: "rb_acquire rb = (Some b, rb') \<Longrightarrow> rb_step (rb, bs) (rb', b # bs)"
| exhausted: "rb_acquire rb = (None, rb') \<Longrightarrow> rb_step (rb, bs) (rb', bs)"
| drop: "b \<in> set bs \<Longrightarrow> rb_step (rb, bs) (fb_drop b rb, remove1 b bs)"
| fill: "\<lbrakk>b \<in> set bs; fb_write xs b rb = Inr rb'\<rbrakk> \<Longrightarrow> rb_step (rb, bs) (rb', bs)"

text \<open>Every index is free or held by one handle, and a handle addresses the buffer of its index.\<close>

definition rb_inv :: "reg_buffers \<times> fixed_buf list \<Rightarrow> bool" where
  "rb_inv s \<longleftrightarrow> (case s of (rb, bs) \<Rightarrow>
     mset (rb_free rb @ map fb_index bs) = mset (map of_nat [0..<unat (rb_count rb)]) \<and>
     0 < unat (rb_count rb) \<and> unat (rb_count rb) \<le> 65535 \<and>
     length (rb_mem rb) = unat (rb_count rb) * unat (rb_buf_len rb) \<and> length (rb_mem rb) < 2 ^ 63 \<and>
     (\<forall>b \<in> set bs. fb_ptr b = rb_base rb + ucast (fb_index b) * rb_buf_len rb \<and> fb_len b = rb_buf_len rb))"

lemma distinct_indices: "c \<le> 65535 \<Longrightarrow> distinct (map (of_nat :: nat \<Rightarrow> u16) [0..<c])"
  by (auto simp: distinct_map inj_on_def word_of_nat_eq_iff take_bit_eq_mod)

lemma rb_invD:
  assumes "rb_inv (rb, bs)"
  shows "distinct (rb_free rb @ map fb_index bs)"
    "x \<in> set (rb_free rb @ map fb_index bs) \<Longrightarrow> unat x < unat (rb_count rb)"
    "length (rb_free rb) + length bs = unat (rb_count rb)"
proof -
  let ?l = "map (of_nat :: nat \<Rightarrow> u16) [0..<unat (rb_count rb)]"
  have m: "mset (rb_free rb @ map fb_index bs) = mset ?l" and c: "unat (rb_count rb) \<le> 65535"
    using assms by (simp_all add: rb_inv_def)
  show "distinct (rb_free rb @ map fb_index bs)"
    using mset_eq_imp_distinct_iff [OF m] distinct_indices [OF c] by blast
  have "set (rb_free rb @ map fb_index bs) = set ?l" by (rule mset_eq_setD [OF m])
  then show "unat x < unat (rb_count rb)" if "x \<in> set (rb_free rb @ map fb_index bs)"
    using that c by (auto simp: unat_of_nat)
  show "length (rb_free rb) + length bs = unat (rb_count rb)"
    using mset_eq_length [OF m] by simp
qed

lemma unat_ucast_u16: "unat (ucast (x :: u16) :: usize) = unat x"
  using unsigned_less [of x, where ?'a = nat] by (simp add: unsigned_ucast_eq take_bit_eq_mod)

text \<open>The buffer of a handle is the one of its index.\<close>

lemma fb_off_index:
  assumes "rb_inv (rb, bs)" "b \<in> set bs"
  shows "fb_off rb b = unat (fb_index b) * unat (rb_buf_len rb)"
    "fb_off rb b + unat (fb_len b) \<le> length (rb_mem rb)" "fb_len b = rb_buf_len rb"
proof -
  have i: "unat (fb_index b) < unat (rb_count rb)" using rb_invD(2) [OF assms(1)] assms(2) by simp
  have b: "fb_ptr b = rb_base rb + ucast (fb_index b) * rb_buf_len rb" "fb_len b = rb_buf_len rb"
    and len: "length (rb_mem rb) = unat (rb_count rb) * unat (rb_buf_len rb)" "length (rb_mem rb) < 2 ^ 63"
    using assms by (simp_all add: rb_inv_def)
  have le: "(unat (fb_index b) + 1) * unat (rb_buf_len rb) \<le> length (rb_mem rb)"
    unfolding len(1) using i by (intro mult_le_mono1) simp
  then have "unat (fb_index b) * unat (rb_buf_len rb) < 2 ^ 64" using len(2) by simp
  then show "fb_off rb b = unat (fb_index b) * unat (rb_buf_len rb)"
    by (simp add: fb_off_def b(1) unat_word_ariths unat_ucast_u16)
  then show "fb_off rb b + unat (fb_len b) \<le> length (rb_mem rb)" using le b(2) by simp
  show "fb_len b = rb_buf_len rb" by (rule b(2))
qed

text \<open>Different handles address disjoint parts of the slab.\<close>

definition fb_disjoint :: "reg_buffers \<Rightarrow> fixed_buf \<Rightarrow> fixed_buf \<Rightarrow> bool" where
  "fb_disjoint rb b c \<longleftrightarrow> fb_off rb b + unat (fb_len b) \<le> fb_off rb c \<or> fb_off rb c + unat (fb_len c) \<le> fb_off rb b"

lemma index_disjoint:
  assumes "rb_inv (rb, bs)" "b \<in> set bs" "c \<in> set bs" "fb_index b \<noteq> fb_index c"
  shows "fb_disjoint rb b c"
proof -
  note B = fb_off_index [OF assms(1,2)] and C = fb_off_index [OF assms(1,3)]
  have "unat (fb_index b) \<noteq> unat (fb_index c)" using assms(4) by (simp add: word_unat_eq_iff)
  then consider "unat (fb_index b) + 1 \<le> unat (fb_index c)" | "unat (fb_index c) + 1 \<le> unat (fb_index b)" by linarith
  then show ?thesis
  proof cases
    case 1
    from mult_le_mono1 [OF this, of "unat (rb_buf_len rb)"] show ?thesis by (simp add: fb_disjoint_def B C)
  next
    case 2
    from mult_le_mono1 [OF this, of "unat (rb_buf_len rb)"] show ?thesis by (simp add: fb_disjoint_def B C)
  qed
qed

lemma fb_write_Inr:
  assumes "fb_write xs b rb = Inr rb'"
  shows "rb' = rb\<lparr>rb_mem := write_at (fb_off rb b) xs (rb_mem rb)\<rparr>" "length xs \<le> unat (fb_len b)"
    "fb_off rb b + length xs \<le> length (rb_mem rb)"
  using assms by (auto simp: fb_write_def split: if_splits)

lemma rb_inv_step: "rb_step s s' \<Longrightarrow> rb_inv s \<Longrightarrow> rb_inv s'"
proof (induction rule: rb_step.induct)
  case (acquire rb b rb' bs)
  then have f: "rb_free rb \<noteq> []" and rb': "rb' = rb\<lparr>rb_free := butlast (rb_free rb)\<rparr>"
    and b: "b = \<lparr>fb_index = last (rb_free rb), fb_ptr = rb_base rb + ucast (last (rb_free rb)) * rb_buf_len rb,
      fb_len = rb_buf_len rb\<rparr>"
    by (auto simp: rb_acquire_def Let_def split: if_splits)
  have "mset (rb_free rb) = add_mset (last (rb_free rb)) (mset (butlast (rb_free rb)))"
    by (metis f append_butlast_last_id mset.simps mset_append union_mset_add_mset_right add.right_neutral)
  then show ?case using acquire.prems by (simp add: rb_inv_def rb' b)
next
  case (exhausted rb rb' bs)
  then show ?case by (auto simp: rb_acquire_def Let_def split: if_splits)
next
  case (drop b bs rb)
  have "mset bs = add_mset b (mset (remove1 b bs))" using drop.hyps by simp
  from arg_cong [OF this, of "image_mset fb_index"]
  have "mset (map fb_index bs) = add_mset (fb_index b) (mset (map fb_index (remove1 b bs)))" by simp
  then show ?case
    using drop.prems set_remove1_subset [of b bs] by (auto simp: rb_inv_def fb_drop_def rb_release_def)
next
  case (fill b bs xs rb rb')
  then show ?case using fb_write_Inr [OF fill.hyps(2)] by (simp add: rb_inv_def)
qed

lemma rb_inv_reach: "rb_step\<^sup>*\<^sup>* s s' \<Longrightarrow> rb_inv s \<Longrightarrow> rb_inv s'"
  by (induction rule: rtranclp_induct) (auto intro: rb_inv_step)

lemma register_inv:
  assumes "rb_register al cnt len h = Inr (rb, h')"
  shows "rb_inv (rb, [])" "rb_count rb = cnt" "h' = h(rb_base rb \<mapsto> rb_count rb * rb_buf_len rb)"
    "layout_ok (rb_count rb * rb_buf_len rb)"
proof -
  let ?bl = "round_page (max len 1)"
  have c: "0 < cnt" "cnt \<le> 65535" using assms by (auto simp: rb_register_def split: if_splits)
  have m: "unat cnt * unat ?bl < 2 ^ 64" "layout_ok (cnt * ?bl)"
    using assms by (auto simp: rb_register_def Let_def checked_mul_def split: if_splits)
  then have r: "rb = \<lparr>rb_base = al h (cnt * ?bl), rb_buf_len = ?bl, rb_count = cnt,
      rb_free = map of_nat [0..<unat (ucast cnt :: u16)], rb_mem = replicate (unat (cnt * ?bl)) 0\<rparr>"
    "h' = h(al h (cnt * ?bl) \<mapsto> cnt * ?bl)"
    using assms by (auto simp: rb_register_def Let_def checked_mul_def split: if_splits)
  have u: "unat (cnt * ?bl) = unat cnt * unat ?bl" using m(1) by (simp add: unat_word_ariths)
  have uc: "unat cnt \<le> 65535" "0 < unat cnt" using c by (simp_all add: word_le_nat_alt word_less_nat_alt)
  then have "unat (ucast cnt :: u16) = unat cnt" by (simp add: unsigned_ucast_eq take_bit_eq_mod)
  then show "rb_inv (rb, [])" using uc u m(2) by (simp add: rb_inv_def r layout_ok_def)
  show "rb_count rb = cnt" "h' = h(rb_base rb \<mapsto> rb_count rb * rb_buf_len rb)"
    "layout_ok (rb_count rb * rb_buf_len rb)" using m(2) by (simp_all add: r)
qed

section \<open>Short writes\<close>

lemma pwrite_Nil [simp]: "pwrite pos [] f = f"
  by (simp add: pwrite_def)

text \<open>Two adjacent writes are one.\<close>

lemma pwrite_append: "pwrite (pos + length xs) ys (pwrite pos xs f) = pwrite pos (xs @ ys) f"
proof (cases "xs = [] \<or> ys = []")
  case False
  let ?g = "take pos (f @ replicate (pos - length f) 0)"
  have g: "length ?g = pos" by simp
  have "take (pos + length xs) (pwrite pos xs f) = ?g @ xs" using False g by (simp add: pwrite_def)
  moreover have "length (pwrite pos xs f) \<ge> pos + length xs" using False g by (simp add: pwrite_def)
  moreover have "drop (pos + length xs + length ys) (pwrite pos xs f) = drop (pos + length xs + length ys) f"
    using False g by (simp add: pwrite_def ac_simps)
  ultimately show ?thesis using False by (simp add: pwrite_def ac_simps)
qed auto

text \<open>How many bytes of a write arrive, given the kernel's answers.\<close>

fun moved :: "io_answer list \<Rightarrow> nat \<Rightarrow> nat" where
  "moved [] n = 0"
| "moved (Fails # ks) n = 0"
| "moved (Moves k # ks) n = (if n = 0 \<or> k = 0 then 0 else if n \<le> k then n else k + moved ks (n - k))"

lemma moved_le: "moved ks n \<le> n"
  by (induction ks n rule: moved.induct) auto

lemma moved_0 [simp]: "moved ks 0 = 0"
  using moved_le [of ks 0] by simp

lemma write_all_at_simps [simp]:
  "write_all_at ks [] offset f = (Ok (), f, ks)"
  "data \<noteq> [] \<Longrightarrow> write_all_at [] data offset f = (Err NoAnswer, f, [])"
  "data \<noteq> [] \<Longrightarrow> write_all_at (Fails # ks) data offset f = (Err WriteFailed, f, ks)"
  "data \<noteq> [] \<Longrightarrow> write_all_at (Moves 0 # ks) data offset f = (Err WriteZero, f, ks)"
  by (subst write_all_at.simps; simp add: Let_def)+

lemma write_all_at_Moves:
  assumes "data \<noteq> []" "0 < k"
  defines "n \<equiv> min k (length data)"
  shows "write_all_at (Moves k # ks) data offset f =
    write_all_at ks (drop n data) (offset + of_nat n) (pwrite (unat offset) (take n data) f)"
proof -
  have "\<not> n = 0" using assms by simp
  then show ?thesis using assms(1) unfolding n_def by (subst write_all_at.simps) (simp only: Let_def if_False list.case io_answer.case)
qed

lemma write_all_at_spec:
  assumes "unat offset + length data < 2 ^ 64"
  shows "\<exists>r ks'. write_all_at ks data offset f = (r, pwrite (unat offset) (take (moved ks (length data)) data) f, ks') \<and>
    (r = Ok () \<longleftrightarrow> moved ks (length data) = length data)"
  using assms
proof (induction ks "length data" arbitrary: data offset f rule: moved.induct)
  case (3 k ks)
  show ?case
  proof (cases "data = [] \<or> k = 0")
    case False
    define n where "n = min k (length data)"
    have n: "n \<le> length data" "length (take n data) = n" "unat (of_nat n :: u64) = n"
      using 3(2) by (simp_all add: n_def unat_of_nat)
    have o: "unat (offset + of_nat n) = unat offset + n" using 3(2) n by (subst unat_add_no_wrap) simp_all
    have m: "moved (Moves k # ks) (length data) = n + moved ks (length data - n)" using False by (auto simp: n_def)
    have "\<exists>r ks'. write_all_at ks (drop n data) (offset + of_nat n) (pwrite (unat offset) (take n data) f) =
        (r, pwrite (unat offset + n) (take (moved ks (length data - n)) (drop n data)) (pwrite (unat offset) (take n data) f), ks') \<and>
        (r = Ok () \<longleftrightarrow> moved ks (length data - n) = length data - n)"
    proof (cases "length data \<le> k")
      case True
      then show ?thesis by (simp add: n_def)
    next
      case less: False
      then have "n = k" by (simp add: n_def)
      then show ?thesis
        using 3(1) [of "drop n data" "offset + of_nat n"] 3(2) False less o n(1) by simp
    qed
    then obtain r ks' where r: "write_all_at (Moves k # ks) data offset f =
        (r, pwrite (unat offset + n) (take (moved ks (length data - n)) (drop n data)) (pwrite (unat offset) (take n data) f), ks')"
      "r = Ok () \<longleftrightarrow> moved ks (length data - n) = length data - n"
      using write_all_at_Moves [of data k] False by (auto simp: n_def)
    have "pwrite (unat offset + n) (take (moved ks (length data - n)) (drop n data)) (pwrite (unat offset) (take n data) f) =
        pwrite (unat offset) (take (n + moved ks (length data - n)) data) f"
      using pwrite_append [of "unat offset" "take n data" _ f] by (simp only: n(2) take_add)
    moreover have "r = Ok () \<longleftrightarrow> n + moved ks (length data - n) = length data" unfolding r(2) using n(1) by linarith
    ultimately show ?thesis unfolding m using r(1) by simp
  next
    case True
    then show ?thesis by (cases "data = []") auto
  qed
next
  case (1 data)
  then show ?case by (cases "data = []") auto
next
  case (2 ks data)
  then show ?case by (cases "data = []") auto
qed

lemma write_all_at_progress:
  assumes "\<forall>a \<in> set ks. \<exists>k > 0. a = Moves k" "length data \<le> length ks"
  shows "\<exists>f' ks'. write_all_at ks data offset f = (Ok (), f', ks') \<and> length ks \<le> length ks' + length data \<and> set ks' \<subseteq> set ks"
  using assms
proof (induction ks arbitrary: data offset f)
  case (Cons a ks)
  show ?case
  proof (cases "data = []")
    case False
    obtain k where a: "a = Moves k" and k: "0 < k" using Cons.prems(1) by auto
    let ?n = "min k (length data)"
    have "length (drop ?n data) \<le> length ks" using Cons.prems(2) k False by (cases data) auto
    moreover have "\<forall>a \<in> set ks. \<exists>k > 0. a = Moves k" using Cons.prems(1) by simp
    ultimately obtain f' ks' where r: "write_all_at ks (drop ?n data) (offset + of_nat ?n) (pwrite (unat offset) (take ?n data) f) = (Ok (), f', ks')"
      "length ks \<le> length ks' + length (drop ?n data)" "set ks' \<subseteq> set ks"
      using Cons.IH [of "drop ?n data"] by blast
    have "length (a # ks) \<le> length ks' + length data" using r(2) k False by (cases data) auto
    then show ?thesis using write_all_at_Moves [OF False k, of ks] r(1,3) a by auto
  qed simp
qed simp

lemma write_slices_spec:
  assumes "unat pos + length (concat ss) < 2 ^ 64"
  shows "\<exists>r m. write_slices ks ss pos tot f = (r, pwrite (unat pos) (take m (concat ss)) f) \<and>
    (\<forall>n. r = Ok n \<longrightarrow> m = length (concat ss) \<and> n = tot + of_nat (length (concat ss)))"
  using assms
proof (induction ss arbitrary: ks pos tot f)
  case (Cons s ss)
  have "unat pos + length s < 2 ^ 64" using Cons.prems by simp
  from write_all_at_spec [OF this, of ks f] obtain r ks' where
    r: "write_all_at ks s pos f = (r, pwrite (unat pos) (take (moved ks (length s)) s) f, ks')"
      "r = Ok () \<longleftrightarrow> moved ks (length s) = length s" by blast
  show ?case
  proof (cases r)
    case (Err e)
    have "moved ks (length s) - length s = 0" using moved_le [of ks "length s"] by simp
    then show ?thesis using r(1) Err by (intro exI [of _ "Err e"] exI [of _ "moved ks (length s)"]) simp
  next
    case (Ok u)
    then have full: "moved ks (length s) = length s" using r(2) by simp
    have l: "unat (of_nat (length s) :: u64) = length s" using Cons.prems by (simp add: unat_of_nat)
    then have p: "unat (pos + of_nat (length s)) = unat pos + length s" using Cons.prems by (subst unat_add_no_wrap) simp_all
    have "write_slices ks (s # ss) pos tot f =
        write_slices ks' ss (pos + of_nat (length s)) (tot + of_nat (length s)) (pwrite (unat pos) s f)"
      using r(1) Ok full by simp
    moreover obtain q m where "write_slices ks' ss (pos + of_nat (length s)) (tot + of_nat (length s)) (pwrite (unat pos) s f) =
        (q, pwrite (unat pos + length s) (take m (concat ss)) (pwrite (unat pos) s f))"
      "\<forall>n. q = Ok n \<longrightarrow> m = length (concat ss) \<and> n = tot + of_nat (length s) + of_nat (length (concat ss))"
      using Cons.IH [of "pos + of_nat (length s)" ks' "tot + of_nat (length s)" "pwrite (unat pos) s f"] Cons.prems p by auto
    ultimately show ?thesis
      by (intro exI [of _ q] exI [of _ "length s + m"]) (simp add: pwrite_append add.assoc)
  qed
qed simp

lemma write_slices_progress:
  assumes "\<forall>a \<in> set ks. \<exists>k > 0. a = Moves k" "length (concat ss) \<le> length ks"
  shows "\<exists>n f'. write_slices ks ss pos tot f = (Ok n, f')"
  using assms
proof (induction ss arbitrary: ks pos tot f)
  case (Cons s ss)
  have "length s \<le> length ks" using Cons.prems(2) by simp
  from write_all_at_progress [OF Cons.prems(1) this, of pos f] obtain f1 ks1 where
    w: "write_all_at ks s pos f = (Ok (), f1, ks1)" "length ks \<le> length ks1 + length s" "set ks1 \<subseteq> set ks" by blast
  have "\<forall>a \<in> set ks1. \<exists>k > 0. a = Moves k" "length (concat ss) \<le> length ks1"
    using Cons.prems w(2,3) by auto
  from Cons.IH [OF this] w(1) show ?case by simp
qed simp

section \<open>Properties\<close>

text \<open>
  C34: However handles are taken, written through and dropped, two handles in use never share a byte
  of the slab, every handle lies inside it, and the free buffers are those no handle holds; when all
  are in use \<open>acquire\<close> returns \<open>None\<close>.
\<close>

theorem handles_are_exclusive:
  assumes "rb_register al cnt len h = Inr (rb0, h')" "rb_step\<^sup>*\<^sup>* (rb0, []) (rb, bs)"
  shows "(\<forall>i < length bs. \<forall>j < length bs. i \<noteq> j \<longrightarrow> fb_disjoint rb (bs ! i) (bs ! j)) \<and>
    (\<forall>b \<in> set bs. \<exists>xs. fb_slice b rb = Inr xs \<and> length xs = unat (rb_buf_len rb)) \<and>
    unat (rb_available rb) + length bs = unat (rb_count rb) \<and>
    (fst (rb_acquire rb) = None \<longleftrightarrow> length bs = unat (rb_count rb))"
proof -
  have inv: "rb_inv (rb, bs)" using rb_inv_reach [OF assms(2)] register_inv(1) [OF assms(1)] by blast
  note D = rb_invD [OF inv]
  have "fb_disjoint rb (bs ! i) (bs ! j)" if "i < length bs" "j < length bs" "i \<noteq> j" for i j
  proof -
    have "fb_index (bs ! i) \<noteq> fb_index (bs ! j)"
      using D(1) that by (simp add: distinct_conv_nth [of "map fb_index bs"])
    then show ?thesis using index_disjoint [OF inv] that by simp
  qed
  moreover have "\<exists>xs. fb_slice b rb = Inr xs \<and> length xs = unat (rb_buf_len rb)" if "b \<in> set bs" for b
    using fb_off_index [OF inv that] by (simp add: fb_slice_def)
  moreover have c: "unat (rb_count rb) \<le> 65535" using inv by (simp add: rb_inv_def)
  have "unat (rb_available rb) = length (rb_free rb)" using D(3) c by (simp add: rb_available_def unat_of_nat)
  ultimately show ?thesis using D(3) by (auto simp: rb_acquire_def Let_def)
qed

theorem handles_are_exclusive_witness:
  "\<exists>rb h b rb'. rb_register one_page 2 100 Map.empty = Inr (rb, h) \<and> rb_step\<^sup>*\<^sup>* (rb, []) (rb', [b]) \<and>
    unat (rb_available rb') = 1"
proof -
  have "round_page 100 = 4096" by (simp add: round_page_def PAGE_def)
  then obtain rb h where r: "rb_register one_page 2 100 Map.empty = Inr (rb, h)"
    by (simp add: rb_register_def Let_def checked_mul_def layout_ok_def one_page_def)
  note I = register_inv [OF r]
  have "rb_free rb \<noteq> []" using rb_invD(3) [OF I(1)] I(2) by auto
  then obtain b rb' where "rb_acquire rb = (Some b, rb')" by (simp add: rb_acquire_def Let_def)
  then have "rb_step (rb, []) (rb', [b])" by (rule rb_step.acquire)
  then have s: "rb_step\<^sup>*\<^sup>* (rb, []) (rb', [b])" by blast
  have "rb_count rb' = 2" using \<open>rb_acquire rb = (Some b, rb')\<close> I(2) by (auto simp: rb_acquire_def Let_def split: if_splits)
  with handles_are_exclusive [OF r s] r s show ?thesis by auto
qed

text \<open>
  C35: However short the kernel's writes are, a vectored write that succeeds leaves the file as one
  write of all slices in order would and returns their total length; one that fails has written a
  prefix of them and nothing else; and it succeeds whenever every call moves at least one byte.
\<close>

theorem vectored_write_is_one_write:
  assumes "unat offset + length (concat bufs) < 2 ^ 64"
  shows "\<exists>r m. write_vectored ks bufs offset f = (r, pwrite (unat offset) (take m (concat bufs)) f) \<and>
    (\<forall>n. r = Ok n \<longrightarrow> m = length (concat bufs) \<and> unat n = length (concat bufs)) \<and>
    ((\<forall>a \<in> set ks. \<exists>k > 0. a = Moves k) \<and> length (concat bufs) \<le> length ks \<longrightarrow> (\<exists>n. r = Ok n))"
proof -
  have u: "unat (of_nat (length (concat bufs)) :: usize) = length (concat bufs)" using assms by (simp add: unat_of_nat)
  obtain r m where r: "write_slices ks bufs offset 0 f = (r, pwrite (unat offset) (take m (concat bufs)) f)"
    "\<And>n. r = Ok n \<Longrightarrow> m = length (concat bufs) \<and> n = 0 + of_nat (length (concat bufs))"
    using write_slices_spec [OF assms, of ks 0 f] by blast
  then have "unat n = length (concat bufs)" if "r = Ok n" for n using that u by simp
  moreover have "\<exists>n. r = Ok n" if "\<forall>a \<in> set ks. \<exists>k > 0. a = Moves k" "length (concat bufs) \<le> length ks"
    using write_slices_progress [OF that, of offset 0 f] r(1) by auto
  ultimately show ?thesis using r by (auto simp: write_vectored_def)
qed

theorem vectored_write_is_one_write_witness:
  "\<exists>n. write_vectored [Moves 1, Moves 5, Moves 1, Moves 9] [[1, 2], [3, 4]] 1 [7, 7] = (Ok n, [7, 1, 2, 3, 4]) \<and> unat n = 4"
proof -
  have "unat (1 :: u64) + length (concat [[1, 2 :: u8], [3, 4]]) < 2 ^ 64" by simp
  from vectored_write_is_one_write [OF this, of "[Moves 1, Moves 5, Moves 1, Moves 9]" "[7, 7]"]
  show ?thesis by (auto simp: pwrite_def)
qed

end
