(* ===== verification/GroupCommit.thy ===== *)
theory GroupCommit
  imports Treiber RegBuf
begin

text \<open>
  The group-commit log, \<open>crates/zerokv/src/group_commit.rs\<close>: writers push records onto a
  multi-producer stack, one batcher thread detaches the stack, restores the submission order inside
  the batch, writes it with one vectored write and signals the writers.  The steps are the accesses
  to shared memory of any number of writers and of the batcher, in any order.  The handshake
  between one future and the batcher is a second, smaller system.
\<close>

section \<open>Model\<close>

text \<open>A completion is named by its number in the order in which they are made.\<close>

record pending =
  pd_seq :: u64
  pd_data :: bytes
  pd_comp :: nat

text \<open>
  Where a thread is in \<open>append\<close>: it has made the completion, taken a sequence number, boxed the
  node, loaded the head into the link, or published the node and not yet counted it.
\<close>

datatype gpc =
    GIdle
  | GStart bytes nat
  | GSeq bytes nat u64
  | GReady usize nat
  | GLoaded usize usize nat
  | GPushed nat

text \<open>Where the batcher is in its loop; the flag is the value of \<open>running\<close> it loaded.\<close>

datatype bpc =
    BTop
  | BWindow bool
  | BDetached bool usize
  | BBatch bool "pending list"
  | BCounted bool "pending list"
  | BWrite bool "pending list" u64
  | BSignal bool "pending list"
  | BExit
  | BFault fault

text \<open>
  The first fields are \<open>Shared\<close>, the file and the completion flags.  The last four are history: the
  batches handed to the backend so far, whether a write has failed, the records submitted, whose
  positions name the completions, and how many had been submitted when a given \<open>append\<close> returned.
\<close>

record gc_state =
  g_head :: usize
  g_seq :: u64
  g_offset :: u64
  g_pending :: u64
  g_running :: bool
  g_heap :: "pending theap"
  g_file :: bytes
  g_done :: "nat \<Rightarrow> bool"
  g_pc :: "nat \<Rightarrow> gpc"
  g_bat :: bpc
  g_batches :: "pending list list"
  g_failed :: bool
  g_log :: "bytes list"
  g_ret :: "nat \<rightharpoonup> nat"

text \<open>\<open>GroupCommitWal::new\<close> over a file with the bytes \<open>f\<close>; without its length the offset is 0.\<close>

definition gc_new :: "bytes \<Rightarrow> bool \<Rightarrow> gc_state" where
  "gc_new f metadata_ok =
     \<lparr>g_head = 0, g_seq = 0, g_offset = (if metadata_ok then of_nat (length f) else 0), g_pending = 0,
      g_running = True, g_heap = Map.empty, g_file = f, g_done = \<lambda>_. False,
      g_pc = \<lambda>_. GIdle, g_bat = BTop, g_batches = [], g_failed = False, g_log = [], g_ret = Map.empty\<rparr>"

text \<open>The batch in submission order.\<close>

definition batch_order :: "pending list \<Rightarrow> pending list" where
  "batch_order = sort_key pd_seq"

definition batch_total :: "pending list \<Rightarrow> usize" where
  "batch_total b = sum_list (map (\<lambda>p. of_nat (length (pd_data p))) b)"

abbreviation set_pc :: "nat \<Rightarrow> gpc \<Rightarrow> gc_state \<Rightarrow> gc_state" where
  "set_pc t pc s \<equiv> s\<lparr>g_pc := (g_pc s)(t := pc)\<rparr>"

text \<open>
  The steps of \<open>append\<close>, of \<open>drop\<close> and of \<open>batcher_loop\<close>.  \<open>drop\<close> has exclusive access to the handle,
  so no thread is inside \<open>append\<close> then or later.  The window before the swap only reads the clock
  and the counter.  \<open>ks\<close> are the kernel's answers to the calls of one vectored write.
\<close>

inductive gstep :: "gc_state \<Rightarrow> gc_state \<Rightarrow> bool" where
  append: "\<lbrakk>g_pc s t = GIdle; g_running s\<rbrakk> \<Longrightarrow>
    gstep s (set_pc t (GStart data (length (g_log s))) s\<lparr>g_log := g_log s @ [data]\<rparr>)"
| take_seq: "g_pc s t = GStart data c \<Longrightarrow>
    gstep s (set_pc t (GSeq data c (g_seq s)) s\<lparr>g_seq := g_seq s + 1\<rparr>)"
| box: "\<lbrakk>g_pc s t = GSeq data c q; a \<noteq> 0; g_heap s a = None\<rbrakk> \<Longrightarrow>
    gstep s (set_pc t (GReady a c) s\<lparr>g_heap := t_new a \<lparr>pd_seq = q, pd_data = data, pd_comp = c\<rparr> (g_heap s)\<rparr>)"
| load_head: "g_pc s t = GReady a c \<Longrightarrow>
    gstep s (set_pc t (GLoaded a (g_head s) c) s\<lparr>g_heap := t_set_next a (g_head s) (g_heap s)\<rparr>)"
| push: "\<lbrakk>g_pc s t = GLoaded a p c; g_head s = p\<rbrakk> \<Longrightarrow>
    gstep s (set_pc t (GPushed c) s\<lparr>g_head := a\<rparr>)"
| push_fail: "g_pc s t = GLoaded a p c \<Longrightarrow> gstep s (set_pc t (GReady a c) s)"
| count: "g_pc s t = GPushed c \<Longrightarrow>
    gstep s (set_pc t GIdle s\<lparr>g_pending := g_pending s + 1, g_ret := (g_ret s)(c \<mapsto> length (g_log s))\<rparr>)"
| stop: "\<lbrakk>g_running s; \<forall>t. g_pc s t = GIdle\<rbrakk> \<Longrightarrow> gstep s (s\<lparr>g_running := False\<rparr>)"
| b_load: "g_bat s = BTop \<Longrightarrow> gstep s (s\<lparr>g_bat := BWindow (g_running s)\<rparr>)"
| b_swap: "\<lbrakk>g_bat s = BWindow r; g_head s \<noteq> 0\<rbrakk> \<Longrightarrow>
    gstep s (s\<lparr>g_bat := BDetached r (g_head s), g_head := 0\<rparr>)"
| b_empty: "\<lbrakk>g_bat s = BWindow r; g_head s = 0\<rbrakk> \<Longrightarrow>
    gstep s (s\<lparr>g_bat := (if r then BTop else BExit)\<rparr>)"
| b_walk: "\<lbrakk>g_bat s = BDetached r node; drain node (g_heap s) = Some (Inr (batch, h))\<rbrakk> \<Longrightarrow>
    gstep s (s\<lparr>g_bat := BBatch r batch, g_heap := h\<rparr>)"
| b_walk_fault: "\<lbrakk>g_bat s = BDetached r node; drain node (g_heap s) = Some (Inl e)\<rbrakk> \<Longrightarrow>
    gstep s (s\<lparr>g_bat := BFault e\<rparr>)"
| b_count: "g_bat s = BBatch r batch \<Longrightarrow>
    gstep s (s\<lparr>g_bat := BCounted r batch, g_pending := g_pending s - of_nat (length batch)\<rparr>)"
| b_order: "g_bat s = BCounted r batch \<Longrightarrow>
    gstep s (s\<lparr>g_bat := BWrite r (batch_order batch) (g_offset s), g_offset := g_offset s + batch_total batch\<rparr>)"
| b_write: "\<lbrakk>g_bat s = BWrite r batch off; write_vectored ks (map pd_data batch) off (g_file s) = (res, f)\<rbrakk> \<Longrightarrow>
    gstep s (s\<lparr>g_bat := BSignal r batch, g_file := f, g_batches := g_batches s @ [batch],
               g_failed := (g_failed s \<or> (\<exists>e. res = Err e))\<rparr>)"
| b_signal: "g_bat s = BSignal r (p # ps) \<Longrightarrow>
    gstep s (s\<lparr>g_bat := BSignal r ps, g_done := (g_done s)(pd_comp p := True)\<rparr>)"
| b_again: "g_bat s = BSignal r [] \<Longrightarrow>
    gstep s (s\<lparr>g_bat := (if \<not> r \<and> g_head s = 0 then BExit else BTop)\<rparr>)"

text \<open>\<open>pending\<close>, and what \<open>poll\<close> of the future of completion \<open>c\<close> returns first.\<close>

definition gc_pending :: "gc_state \<Rightarrow> u64" where
  "gc_pending s = g_pending s"

section \<open>Invariants\<close>

text \<open>The node and the completion a thread holds.\<close>

fun node_of :: "gpc \<Rightarrow> usize set" where
  "node_of (GReady a c) = {a}"
| "node_of (GLoaded a p c) = {a}"
| "node_of pc = {}"

fun comp_of :: "gpc \<Rightarrow> nat set" where
  "comp_of (GStart d c) = {c}"
| "comp_of (GSeq d c q) = {c}"
| "comp_of (GReady a c) = {c}"
| "comp_of (GLoaded a p c) = {c}"
| "comp_of pc = {}"

text \<open>The records the batcher has taken out of their boxes and not yet handed to the backend.\<close>

fun in_hand :: "bpc \<Rightarrow> pending list" where
  "in_hand (BBatch r b) = b"
| "in_hand (BCounted r b) = b"
| "in_hand (BWrite r b off) = b"
| "in_hand bpc = []"

text \<open>The memory: who owns which node.\<close>

fun pc_ok :: "pending theap \<Rightarrow> gpc \<Rightarrow> bool" where
  "pc_ok h (GReady a c) \<longleftrightarrow> (\<exists>nd. h a = Some nd \<and> pd_comp (tn_item nd) = c)"
| "pc_ok h (GLoaded a p c) \<longleftrightarrow> (\<exists>nd. h a = Some nd \<and> pd_comp (tn_item nd) = c \<and> tn_next nd = p)"
| "pc_ok h pc \<longleftrightarrow> True"

text \<open>What the batcher holds of a detached chain.\<close>

fun det_ok :: "pending theap \<Rightarrow> usize list \<Rightarrow> bpc \<Rightarrow> bool" where
  "det_ok h ds (BDetached r node) \<longleftrightarrow> chain h node ds"
| "det_ok h ds (BFault e) \<longleftrightarrow> False"
| "det_ok h ds bat \<longleftrightarrow> ds = []"

abbreviation nodes :: "gc_state \<Rightarrow> nat \<Rightarrow> usize set" where
  "nodes s \<equiv> node_of \<circ> g_pc s"

abbreviation comps :: "gc_state \<Rightarrow> nat \<Rightarrow> nat set" where
  "comps s \<equiv> comp_of \<circ> g_pc s"

definition mem_inv :: "usize list \<Rightarrow> usize list \<Rightarrow> gc_state \<Rightarrow> bool" where
  "mem_inv as ds s \<longleftrightarrow> stack_inv (g_heap s) (g_head s) as (\<Union>(range (nodes s)) \<union> set ds) \<and>
     exclusive (nodes s) \<and> \<Union>(range (nodes s)) \<inter> set ds = {} \<and> distinct ds \<and>
     (\<forall>t. pc_ok (g_heap s) (g_pc s t)) \<and>
     det_ok (g_heap s) ds (g_bat s)"

text \<open>Every completion made so far is in exactly one place.\<close>

definition queued :: "usize list \<Rightarrow> usize list \<Rightarrow> gc_state \<Rightarrow> pending list" where
  "queued as ds s = tn_items (g_heap s) as @ tn_items (g_heap s) ds @ in_hand (g_bat s)"

definition acct_inv :: "usize list \<Rightarrow> usize list \<Rightarrow> gc_state \<Rightarrow> bool" where
  "acct_inv as ds s \<longleftrightarrow> (let q = map pd_comp (queued as ds s @ concat (g_batches s)) in
     distinct q \<and> exclusive (comps s) \<and> \<Union>(range (comps s)) \<inter> set q = {} \<and>
     \<Union>(range (comps s)) \<union> set q = {..<length (g_log s)})"

text \<open>The flags: a record is signalled after its batch has been written.\<close>

fun to_signal :: "bpc \<Rightarrow> pending list" where
  "to_signal (BSignal r ps) = ps"
| "to_signal bat = []"

definition done_inv :: "gc_state \<Rightarrow> bool" where
  "done_inv s \<longleftrightarrow> {c. g_done s c} \<union> pd_comp ` set (to_signal (g_bat s)) = pd_comp ` set (concat (g_batches s))"

text \<open>The file, as long as no write has failed and the positions fit 64 bits.\<close>

definition bytes_of :: "pending list \<Rightarrow> bytes" where
  "bytes_of ps = concat (map pd_data ps)"

fun off_ok :: "u64 \<Rightarrow> nat \<Rightarrow> bpc \<Rightarrow> bool" where
  "off_ok offset n (BWrite r b off) \<longleftrightarrow> unat off = n \<and> unat offset = n + length (bytes_of b)"
| "off_ok offset n bat \<longleftrightarrow> unat offset = n"

fun hand_sorted :: "bpc \<Rightarrow> bool" where
  "hand_sorted (BWrite r b off) \<longleftrightarrow> sorted (map pd_seq b)"
| "hand_sorted bat \<longleftrightarrow> True"

definition file_inv :: "bytes \<Rightarrow> usize list \<Rightarrow> gc_state \<Rightarrow> bool" where
  "file_inv f0 ds s \<longleftrightarrow>
     (\<forall>b \<in> set (g_batches s). sorted (map pd_seq b)) \<and> hand_sorted (g_bat s) \<and>
     (\<not> g_failed s \<and> length f0 + length (bytes_of (concat (g_batches s) @ tn_items (g_heap s) ds @ in_hand (g_bat s))) < 2 ^ 64 \<longrightarrow>
        g_file s = f0 @ bytes_of (concat (g_batches s)) \<and> off_ok (g_offset s) (length (g_file s)) (g_bat s))"

text \<open>Shutdown: after \<open>running\<close> is cleared nobody is inside \<open>append\<close>, so a batcher that knows leaves the stack empty.\<close>

fun saw_running :: "bpc \<Rightarrow> bool" where
  "saw_running (BWindow r) = r"
| "saw_running (BDetached r node) = r"
| "saw_running (BBatch r b) = r"
| "saw_running (BCounted r b) = r"
| "saw_running (BWrite r b off) = r"
| "saw_running (BSignal r ps) = r"
| "saw_running BExit = False"
| "saw_running bat = True"

fun before_swap :: "bpc \<Rightarrow> bool" where
  "before_swap (BWindow r) = True"
| "before_swap bat = False"

definition stop_inv :: "usize list \<Rightarrow> gc_state \<Rightarrow> bool" where
  "stop_inv as s \<longleftrightarrow> (g_running s \<or> (\<forall>t. g_pc s t = GIdle)) \<and> (saw_running (g_bat s) \<or> \<not> g_running s) \<and>
     (saw_running (g_bat s) \<or> before_swap (g_bat s) \<or> as = [])"

definition ginv :: "bytes \<Rightarrow> gc_state \<Rightarrow> bool" where
  "ginv f0 s \<longleftrightarrow> (\<exists>as ds. mem_inv as ds s \<and> acct_inv as ds s \<and> done_inv s \<and> file_inv f0 ds s \<and> stop_inv as s)"


section \<open>Every step keeps the invariant\<close>

lemma pc_ok_cong: "(\<And>a. a \<in> node_of pc \<Longrightarrow> h a = h' a) \<Longrightarrow> pc_ok h pc = pc_ok h' pc"
  by (cases pc) auto

lemma pc_ok_upd: "a \<notin> node_of pc \<Longrightarrow> pc_ok (h(a := v)) pc = pc_ok h pc"
  by (rule pc_ok_cong) auto

lemma mem_invD:
  assumes "mem_inv as ds s"
  shows "stack_inv (g_heap s) (g_head s) as (\<Union>(range (nodes s)) \<union> set ds)" "exclusive (nodes s)"
    "\<Union>(range (nodes s)) \<inter> set ds = {}" "distinct ds" "pc_ok (g_heap s) (g_pc s t)"
    "det_ok (g_heap s) ds (g_bat s)"
  using assms by (simp_all add: mem_inv_def)

lemma acct_invD:
  assumes "acct_inv as ds s"
  shows "distinct (map pd_comp (queued as ds s @ concat (g_batches s)))" "exclusive (comps s)"
    "\<Union>(range (comps s)) \<inter> set (map pd_comp (queued as ds s @ concat (g_batches s))) = {}"
    "\<Union>(range (comps s)) \<union> set (map pd_comp (queued as ds s @ concat (g_batches s))) = {..<length (g_log s)}"
  using assms by (simp_all add: acct_inv_def Let_def)

lemma ginvI:
  "\<lbrakk>mem_inv as ds s; acct_inv as ds s; done_inv s; file_inv f0 ds s; stop_inv as s\<rbrakk> \<Longrightarrow> ginv f0 s"
  by (auto simp: ginv_def)

text \<open>The writers leave the batcher's part of the state alone.\<close>

definition same_batcher :: "gc_state \<Rightarrow> gc_state \<Rightarrow> bool" where
  "same_batcher s s' \<longleftrightarrow> g_bat s' = g_bat s \<and> g_batches s' = g_batches s \<and> g_done s' = g_done s \<and>
     g_file s' = g_file s \<and> g_offset s' = g_offset s \<and> g_failed s' = g_failed s \<and> g_running s' = g_running s"

lemma same_batcher_inv:
  assumes "same_batcher s s'" "tn_items (g_heap s') ds = tn_items (g_heap s) ds"
  shows "done_inv s' = done_inv s" "file_inv f0 ds s' = file_inv f0 ds s"
  using assms by (simp_all add: same_batcher_def done_inv_def file_inv_def)

lemma ginv_append:
  assumes "ginv f0 s" "g_pc s t = GIdle" "g_running s"
  shows "ginv f0 (set_pc t (GStart data (length (g_log s))) s\<lparr>g_log := g_log s @ [data]\<rparr>)"
proof -
  from assms(1) obtain as ds where i: "mem_inv as ds s" "acct_inv as ds s" "done_inv s" "file_inv f0 ds s" "stop_inv as s"
    by (auto simp: ginv_def)
  let ?s = "set_pc t (GStart data (length (g_log s))) s\<lparr>g_log := g_log s @ [data]\<rparr>"
  have n: "node_of \<circ> (g_pc s)(t := GStart data (length (g_log s))) = nodes s" by (rule keep_upd) (simp add: assms(2))
  have "mem_inv as ds ?s" using mem_invD [OF i(1)] by (simp add: mem_inv_def n)
  moreover have "acct_inv as ds ?s"
  proof -
    define q where "q = map pd_comp (queued as ds s @ concat (g_batches s))"
    note a = acct_invD [OF i(2), folded q_def]
    have n: "length (g_log s) \<notin> \<Union>(range (comps s))" "length (g_log s) \<notin> set q" using a(4) by blast+
    then have e: "exclusive ((comps s)(t := {length (g_log s)}))"
      "\<Union>(range ((comps s)(t := {length (g_log s)}))) = {length (g_log s)} \<union> \<Union>(range (comps s))"
      using exclusive_add [OF a(2), of t "{length (g_log s)}"] assms(2) by auto
    have q: "map pd_comp (queued as ds ?s @ concat (g_batches ?s)) = q" by (simp add: queued_def q_def)
    have c: "comps ?s = (comps s)(t := {length (g_log s)})" by (simp add: upd_comp)
    show ?thesis unfolding acct_inv_def Let_def q c e(2)
      using a(1,3) e(1) n(2) a(4) [symmetric] by (auto simp: lessThan_Suc)
  qed
  moreover have "done_inv ?s" "file_inv f0 ds ?s" "stop_inv as ?s"
    using same_batcher_inv [of s ?s ds] i(3,4,5) assms(3) by (simp_all add: same_batcher_def stop_inv_def)
  ultimately show ?thesis by (rule ginvI)
qed

text \<open>Steps of a thread that keep its node and its completion.\<close>

lemma ginv_local:
  assumes "ginv f0 s" "g_pc s t \<noteq> GIdle" "node_of v = node_of (g_pc s t)" "comp_of v = comp_of (g_pc s t)"
    "pc_ok (g_heap s) v"
  shows "ginv f0 (s\<lparr>g_pc := (g_pc s)(t := v), g_seq := q, g_pending := n, g_ret := rt\<rparr>)"
proof -
  from assms(1) obtain as ds where i: "mem_inv as ds s" "acct_inv as ds s" "done_inv s" "file_inv f0 ds s" "stop_inv as s"
    by (auto simp: ginv_def)
  let ?s = "s\<lparr>g_pc := (g_pc s)(t := v), g_seq := q, g_pending := n, g_ret := rt\<rparr>"
  have n: "node_of \<circ> (g_pc s)(t := v) = nodes s" "comp_of \<circ> (g_pc s)(t := v) = comps s"
    using assms(3,4) by (auto intro: keep_upd)
  have "mem_inv as ds ?s" using mem_invD [OF i(1)] assms(5) by (simp add: mem_inv_def n)
  moreover have "acct_inv as ds ?s" using i(2) by (simp add: acct_inv_def queued_def n)
  moreover have "done_inv ?s" "file_inv f0 ds ?s"
    using same_batcher_inv [of s ?s ds] i(3,4) by (simp_all add: same_batcher_def)
  moreover have "stop_inv as ?s" using i(5) assms(2) by (auto simp: stop_inv_def)
  ultimately show ?thesis by (rule ginvI)
qed

text \<open>The steps that touch the memory.\<close>

lemma ginv_box:
  assumes "ginv f0 s" "g_pc s t = GSeq data c q" "a \<noteq> 0" "g_heap s a = None"
  shows "ginv f0 (set_pc t (GReady a c) s\<lparr>g_heap := t_new a \<lparr>pd_seq = q, pd_data = data, pd_comp = c\<rparr> (g_heap s)\<rparr>)"
    (is "ginv f0 ?s")
proof -
  from assms(1) obtain as ds where i: "mem_inv as ds s" "acct_inv as ds s" "done_inv s" "file_inv f0 ds s" "stop_inv as s"
    by (auto simp: ginv_def)
  let ?x = "\<lparr>pd_seq = q, pd_data = data, pd_comp = c\<rparr>"
  note m = mem_invD [OF i(1)] and st = stack_inv_new [OF mem_invD(1) [OF i(1)] assms(3,4), of ?x]
  have free: "a \<notin> \<Union>(range (nodes s)) \<union> set ds" using m(1) assms(4) unfolding stack_inv_def by blast
  then have e: "exclusive ((nodes s)(t := {a}))" "\<Union>(range ((nodes s)(t := {a}))) = {a} \<union> \<Union>(range (nodes s))"
    using exclusive_add [OF m(2), of t "{a}"] assms(2) by auto
  have ds: "tn_items (t_new a ?x (g_heap s)) ds = tn_items (g_heap s) ds"
    "det_ok (t_new a ?x (g_heap s)) ds (g_bat s) = det_ok (g_heap s) ds (g_bat s)"
    using free by (cases "g_bat s"; simp add: t_new_def del: fun_upd_apply)+
  have pcs: "pc_ok (t_new a ?x (g_heap s)) (((g_pc s)(t := GReady a c)) u)" for u
    using m(5) [of u] pc_ok_upd [of a "g_pc s u" "g_heap s"] free by (cases "u = t") (auto simp: t_new_def)
  have n: "nodes ?s = (nodes s)(t := {a})" by (simp add: upd_comp)
  have "mem_inv as ds ?s" unfolding mem_inv_def n e(2)
    using st(1) e(1) free m ds(2) pcs by (simp add: insert_is_Un [symmetric] del: fun_upd_apply)
  moreover have "acct_inv as ds ?s"
    using i(2) ds(1) st(2) keep_upd [of comp_of "GReady a c" "g_pc s" t] assms(2) by (simp add: acct_inv_def queued_def)
  moreover have "done_inv ?s" "file_inv f0 ds ?s"
    using same_batcher_inv [of s ?s ds] i(3,4) ds(1) by (simp_all add: same_batcher_def)
  moreover have "stop_inv as ?s" using i(5) assms(2) by (auto simp: stop_inv_def)
  ultimately show ?thesis by (rule ginvI)
qed

lemma ginv_load:
  assumes "ginv f0 s" "g_pc s t = GReady a c"
  shows "ginv f0 (set_pc t (GLoaded a (g_head s) c) s\<lparr>g_heap := t_set_next a (g_head s) (g_heap s)\<rparr>)" (is "ginv f0 ?s")
proof -
  from assms(1) obtain as ds where i: "mem_inv as ds s" "acct_inv as ds s" "done_inv s" "file_inv f0 ds s" "stop_inv as s"
    by (auto simp: ginv_def)
  let ?h = "t_set_next a (g_head s) (g_heap s)"
  note m = mem_invD [OF i(1)]
  have "a \<in> nodes s t" by (simp add: assms(2))
  then have own: "a \<in> \<Union>(range (nodes s))" by blast
  then have a: "a \<notin> set ds" using m(3) by blast
  obtain nd where nd: "g_heap s a = Some nd" "pd_comp (tn_item nd) = c" using m(5) [of t] assms(2) by auto
  have h: "?h = (g_heap s)(a \<mapsto> nd\<lparr>tn_next := g_head s\<rparr>)" by (simp add: t_set_next_def nd)
  have pcs: "pc_ok ?h (((g_pc s)(t := GLoaded a (g_head s) c)) u)" for u
  proof (cases "u = t")
    case False
    then have "nodes s t \<inter> nodes s u = {}" using m(2) unfolding exclusive_def by blast
    then have "a \<notin> node_of (g_pc s u)" using assms(2) by auto
    then show ?thesis using False m(5) [of u] pc_ok_upd [of a "g_pc s u" "g_heap s"] by (simp add: h)
  qed (simp add: h nd)
  have n: "node_of \<circ> (g_pc s)(t := GLoaded a (g_head s) c) = nodes s" "comp_of \<circ> (g_pc s)(t := GLoaded a (g_head s) c) = comps s"
    by (rule keep_upd; simp add: assms(2))+
  have "det_ok ?h ds (g_bat s) = det_ok (g_heap s) ds (g_bat s)" using a by (cases "g_bat s") simp_all
  moreover have "stack_inv ?h (g_head s) as (\<Union>(range (nodes s)) \<union> set ds)"
    using own by (intro stack_inv_set_next [OF m(1)]) simp
  ultimately have "mem_inv as ds ?s" using m pcs by (simp add: mem_inv_def n del: fun_upd_apply)
  moreover have "acct_inv as ds ?s" using i(2) by (simp add: acct_inv_def queued_def n)
  moreover have "done_inv ?s" "file_inv f0 ds ?s"
    using same_batcher_inv [of s ?s ds] i(3,4) by (simp_all add: same_batcher_def)
  moreover have "stop_inv as ?s" using i(5) assms(2) by (auto simp: stop_inv_def)
  ultimately show ?thesis by (rule ginvI)
qed

lemma ginv_push:
  assumes "ginv f0 s" "g_pc s t = GLoaded a (g_head s) c"
  shows "ginv f0 (set_pc t (GPushed c) s\<lparr>g_head := a\<rparr>)" (is "ginv f0 ?s")
proof -
  from assms(1) obtain as ds where i: "mem_inv as ds s" "acct_inv as ds s" "done_inv s" "file_inv f0 ds s" "stop_inv as s"
    by (auto simp: ginv_def)
  note m = mem_invD [OF i(1)] and ac = acct_invD [OF i(2)]
  have "a \<in> nodes s t" by (simp add: assms(2))
  then have own: "a \<in> \<Union>(range (nodes s))" by blast
  then have a: "a \<notin> set ds" using m(3) by blast
  obtain nd where nd: "g_heap s a = Some nd" "pd_comp (tn_item nd) = c" "tn_next nd = g_head s"
    using m(5) [of t] assms(2) by auto
  have n: "nodes ?s = (nodes s)(t := {})" "comps ?s = (comps s)(t := {})" by (simp_all add: upd_comp)
  have nt: "nodes s t = {a}" "comps s t = {c}" by (simp_all add: assms(2))
  note e = exclusive_drop [OF m(2), of t, unfolded nt] and e' = exclusive_drop [OF ac(2), of t, unfolded nt]
  have st: "stack_inv (g_heap s) a (a # as) (\<Union>(range (nodes s)) \<union> set ds - {a})"
    "tn_items (g_heap s) (a # as) = tn_item nd # tn_items (g_heap s) as"
    using stack_inv_push [OF m(1) _ nd(1,3)] own by simp_all
  have "\<Union>(range (nodes s)) \<union> set ds - {a} = \<Union>(range (nodes s)) - {a} \<union> set ds" using a by blast
  moreover have "pc_ok (g_heap s) (((g_pc s)(t := GPushed c)) u)" for u using m(5) [of u] by simp
  ultimately have "mem_inv (a # as) ds ?s" unfolding mem_inv_def n e(2)
    using st(1) e(1) m(3,4,6) by (auto simp del: fun_upd_apply)
  moreover have "acct_inv (a # as) ds ?s"
  proof -
    define q where "q = map pd_comp (queued as ds s @ concat (g_batches s))"
    note ac = acct_invD [OF i(2), folded q_def]
    have q: "map pd_comp (queued (a # as) ds ?s @ concat (g_batches ?s)) = c # q"
      using st(2) nd(2) by (simp add: q_def queued_def)
    have c: "c \<in> \<Union>(range (comps s))" using nt(2) by blast
    then have "c \<notin> set q" using ac(3) by blast
    then show ?thesis unfolding acct_inv_def Let_def q n e'(2) using e'(1) ac(1,3) ac(4) [symmetric] c by auto
  qed
  moreover have "done_inv ?s" "file_inv f0 ds ?s"
    using same_batcher_inv [of s ?s ds] i(3,4) by (simp_all add: same_batcher_def)
  moreover have "stop_inv (a # as) ?s" using i(5) assms(2) by (auto simp: stop_inv_def)
  ultimately show ?thesis by (rule ginvI)
qed

text \<open>The batcher.\<close>

lemma ginv_swap:
  assumes "ginv f0 s" "g_bat s = BWindow r"
  shows "ginv f0 (s\<lparr>g_bat := BDetached r (g_head s), g_head := 0\<rparr>)" (is "ginv f0 ?s")
proof -
  from assms(1) obtain as ds where i: "mem_inv as ds s" "acct_inv as ds s" "done_inv s" "file_inv f0 ds s" "stop_inv as s"
    by (auto simp: ginv_def)
  note m = mem_invD [OF i(1)]
  have ds: "ds = []" using m(6) assms(2) by simp
  note st = stack_inv_swap [OF m(1)]
  have "mem_inv [] as ?s" using st m by (auto simp: mem_inv_def ds)
  moreover have "acct_inv [] as ?s" using i(2) assms(2) by (simp add: acct_inv_def queued_def tn_items_def ds)
  moreover have "done_inv ?s" using i(3) assms(2) by (simp add: done_inv_def)
  moreover have "file_inv f0 as ?s" using i(4) assms(2) by (auto simp: file_inv_def ds tn_items_def bytes_of_def)
  moreover have "stop_inv [] ?s" using i(5) assms(2) by (auto simp: stop_inv_def)
  ultimately show ?thesis by (rule ginvI)
qed

lemma ginv_walk:
  assumes "ginv f0 s" "g_bat s = BDetached r node"
  shows "\<exists>batch h. drain node (g_heap s) = Some (Inr (batch, h)) \<and> ginv f0 (s\<lparr>g_bat := BBatch r batch, g_heap := h\<rparr>)"
proof -
  from assms(1) obtain as ds where i: "mem_inv as ds s" "acct_inv as ds s" "done_inv s" "file_inv f0 ds s" "stop_inv as s"
    by (auto simp: ginv_def)
  note m = mem_invD [OF i(1)]
  have ch: "chain (g_heap s) node ds" using m(6) assms(2) by simp
  note st = stack_inv_drain [OF m(1) ch m(4), simplified]
  let ?h = "g_heap s |` (- set ds)" and ?b = "tn_items (g_heap s) ds"
  let ?s = "s\<lparr>g_bat := BBatch r ?b, g_heap := ?h\<rparr>"
  have "pc_ok ?h (g_pc s t)" for t
  proof -
    have "nodes s t \<inter> set ds = {}" using m(3) by blast
    then have "pc_ok (g_heap s) (g_pc s t) = pc_ok ?h (g_pc s t)" by (intro pc_ok_cong) (auto simp: restrict_map_def)
    then show ?thesis using m(5) by blast
  qed
  moreover have "\<Union>(range (nodes s)) \<union> set ds - set ds = \<Union>(range (nodes s))" using m(3) by blast
  ultimately have "mem_inv as [] ?s" using st(2) m(2) by (simp add: mem_inv_def)
  moreover have "acct_inv as [] ?s"
    using i(2) assms(2) st(3) by (simp add: acct_inv_def queued_def) (simp add: tn_items_def)
  moreover have "done_inv ?s" using i(3) assms(2) by (simp add: done_inv_def)
  moreover have "file_inv f0 [] ?s" using i(4) assms(2) by (auto simp: file_inv_def) (simp_all add: tn_items_def)
  moreover have "stop_inv as ?s" using i(5) assms(2) by (auto simp: stop_inv_def)
  ultimately have "ginv f0 ?s" by (rule ginvI)
  then show ?thesis using st(1) by blast
qed

text \<open>Steps of the batcher that keep the records it has to hand.\<close>

lemma ginv_bat:
  assumes "ginv f0 s" "det_ok h [] (g_bat s)" "det_ok h [] b" "in_hand b = in_hand (g_bat s)" "set (to_signal b) = set (to_signal (g_bat s))"
    "hand_sorted b" "\<And>f n. off_ok f n b = off_ok f n (g_bat s)" "saw_running b \<or> \<not> g_running s" "saw_running b \<or> before_swap b \<or> g_head s = 0 \<or> \<not> saw_running (g_bat s) \<and> \<not> before_swap (g_bat s)"
  shows "ginv f0 (s\<lparr>g_bat := b, g_pending := n\<rparr>)" (is "ginv f0 ?s")
proof -
  from assms(1) obtain as ds where i: "mem_inv as ds s" "acct_inv as ds s" "done_inv s" "file_inv f0 ds s" "stop_inv as s"
    by (auto simp: ginv_def)
  note m = mem_invD [OF i(1)]
  consider "\<forall>h ds. det_ok h ds (g_bat s) \<longleftrightarrow> ds = []" | r where "g_bat s = BDetached r 0" using assms(2) by (cases "g_bat s") auto
  then have ds: "ds = []" using m(6) by cases (cases ds; auto)+
  have "det_ok (g_heap s) [] b" using assms(3) by (cases b) auto
  then have "mem_inv as [] ?s" using m by (simp add: mem_inv_def ds)
  moreover have "acct_inv as [] ?s" using i(2) assms(4) by (simp add: acct_inv_def queued_def ds)
  moreover have "done_inv ?s" using i(3) assms(5) by (simp add: done_inv_def)
  moreover have "file_inv f0 [] ?s" using i(4) assms(4,6,7) by (auto simp: file_inv_def ds)
  moreover have "stop_inv as ?s" using i(5) assms(8,9) stack_inv_head [OF m(1)] by (auto simp: stop_inv_def)
  ultimately show ?thesis by (rule ginvI)
qed

lemma bytes_of_append [simp]: "bytes_of (xs @ ys) = bytes_of xs @ bytes_of ys"
  by (simp add: bytes_of_def)

lemma length_bytes_of: "length (bytes_of ps) = sum_list (map (\<lambda>p. length (pd_data p)) ps)"
  by (simp add: bytes_of_def length_concat comp_def)

lemma batch_total_eq: "batch_total ps = of_nat (length (bytes_of ps))"
  by (induction ps) (simp_all add: batch_total_def length_bytes_of)

lemma batch_order_props:
  "mset (batch_order b) = mset b" "set (batch_order b) = set b" "sorted (map pd_seq (batch_order b))"
  "length (bytes_of (batch_order b)) = length (bytes_of b)" "mset (map pd_comp (batch_order b)) = mset (map pd_comp b)"
proof -
  show m: "mset (batch_order b) = mset b" by (simp add: batch_order_def)
  show "set (batch_order b) = set b" "sorted (map pd_seq (batch_order b))" by (simp_all add: batch_order_def)
  have "mset (map (\<lambda>p. length (pd_data p)) (batch_order b)) = mset (map (\<lambda>p. length (pd_data p)) b)" using m by simp
  then show "length (bytes_of (batch_order b)) = length (bytes_of b)"
    unfolding length_bytes_of by (metis sum_mset_sum_list)
  show "mset (map pd_comp (batch_order b)) = mset (map pd_comp b)" using m by simp
qed

lemma ginv_order:
  assumes "ginv f0 s" "g_bat s = BCounted r b"
  shows "ginv f0 (s\<lparr>g_bat := BWrite r (batch_order b) (g_offset s), g_offset := g_offset s + batch_total b\<rparr>)" (is "ginv f0 ?s")
proof -
  from assms(1) obtain as ds where i: "mem_inv as ds s" "acct_inv as ds s" "done_inv s" "file_inv f0 ds s" "stop_inv as s"
    by (auto simp: ginv_def)
  note m = mem_invD [OF i(1)] and o = batch_order_props [of b]
  have ds: "ds = []" using m(6) assms(2) by simp
  have "mem_inv as ds ?s" using m by (simp add: mem_inv_def ds)
  moreover have "acct_inv as ds ?s"
  proof -
    let ?q = "\<lambda>s. map pd_comp (queued as ds s @ concat (g_batches s))"
    have "mset (?q ?s) = mset (?q s)" using o(1) assms(2) by (simp add: queued_def)
    then have "distinct (?q ?s) = distinct (?q s)" "set (?q ?s) = set (?q s)"
      using mset_eq_imp_distinct_iff mset_eq_setD by blast+
    then show ?thesis using i(2) by (simp only: acct_inv_def Let_def) simp
  qed
  moreover have "done_inv ?s" using i(3) assms(2) by (simp add: done_inv_def)
  moreover have "file_inv f0 ds ?s"
  proof -
    have "unat (g_offset s + batch_total b) = unat (g_offset s) + length (bytes_of b)"
      if "unat (g_offset s) + length (bytes_of b) < 2 ^ 64"
      using that by (simp add: batch_total_eq unat_word_ariths unat_of_nat)
    then show ?thesis using i(4) assms(2) o(3,4) by (auto simp: file_inv_def ds)
  qed
  moreover have "stop_inv as ?s" using i(5) assms(2) by (auto simp: stop_inv_def)
  ultimately show ?thesis by (rule ginvI)
qed

text \<open>One successful vectored write at the end of the file appends the batch.\<close>

lemma pwrite_end: "pwrite (length f) xs f = f @ xs"
  by (simp add: pwrite_def)

lemma write_vectored_end:
  assumes "write_vectored ks ss off f = (Ok n, f')" "unat off = length f" "length f + length (concat ss) < 2 ^ 64"
  shows "f' = f @ concat ss"
proof -
  have "unat off + length (concat ss) < 2 ^ 64" using assms(2,3) by simp
  then obtain r m where "write_slices ks ss off 0 f = (r, pwrite (unat off) (take m (concat ss)) f)"
    "\<forall>n. r = Ok n \<longrightarrow> m = length (concat ss) \<and> n = 0 + of_nat (length (concat ss))"
    using write_slices_spec [of off ss ks 0 f] by blast
  then show ?thesis using assms(1,2) by (simp add: write_vectored_def pwrite_end)
qed

lemma ginv_write:
  assumes "ginv f0 s" "g_bat s = BWrite r b off" "write_vectored ks (map pd_data b) off (g_file s) = (res, f)"
  shows "ginv f0 (s\<lparr>g_bat := BSignal r b, g_file := f, g_batches := g_batches s @ [b],
    g_failed := (g_failed s \<or> (\<exists>e. res = Err e))\<rparr>)" (is "ginv f0 ?s")
proof -
  from assms(1) obtain as ds where i: "mem_inv as ds s" "acct_inv as ds s" "done_inv s" "file_inv f0 ds s" "stop_inv as s"
    by (auto simp: ginv_def)
  note m = mem_invD [OF i(1)]
  have ds: "ds = []" using m(6) assms(2) by simp
  have "mem_inv as ds ?s" using m by (simp add: mem_inv_def ds)
  moreover have "acct_inv as ds ?s"
  proof -
    let ?q = "\<lambda>s. map pd_comp (queued as ds s @ concat (g_batches s))"
    have "mset (?q ?s) = mset (?q s)" using assms(2) by (simp add: queued_def)
    then have "distinct (?q ?s) = distinct (?q s)" "set (?q ?s) = set (?q s)"
      using mset_eq_imp_distinct_iff mset_eq_setD by blast+
    then show ?thesis using i(2) by (simp only: acct_inv_def Let_def) simp
  qed
  moreover have "done_inv ?s" using i(3) assms(2) by (auto simp: done_inv_def)
  moreover have "file_inv f0 ds ?s"
  proof -
    have "f = g_file s @ bytes_of b"
      if "res = Ok n" "unat off = length (g_file s)" "length (g_file s) + length (bytes_of b) < 2 ^ 64" for n
      using write_vectored_end [OF assms(3) [unfolded that(1)] that(2)] that(3) by (simp add: bytes_of_def)
    then show ?thesis using i(4) assms(2) by (cases res) (auto simp: file_inv_def ds tn_items_def)
  qed
  moreover have "stop_inv as ?s" using i(5) assms(2) by (auto simp: stop_inv_def)
  ultimately show ?thesis by (rule ginvI)
qed

lemma ginv_signal:
  assumes "ginv f0 s" "g_bat s = BSignal r (p # ps)"
  shows "ginv f0 (s\<lparr>g_bat := BSignal r ps, g_done := (g_done s)(pd_comp p := True)\<rparr>)" (is "ginv f0 ?s")
proof -
  from assms(1) obtain as ds where i: "mem_inv as ds s" "acct_inv as ds s" "done_inv s" "file_inv f0 ds s" "stop_inv as s"
    by (auto simp: ginv_def)
  note m = mem_invD [OF i(1)]
  have "mem_inv as ds ?s" using m assms(2) by (simp add: mem_inv_def)
  moreover have "acct_inv as ds ?s" using i(2) assms(2) by (simp add: acct_inv_def queued_def)
  moreover have "done_inv ?s" using i(3) assms(2) by (auto simp: done_inv_def)
  moreover have "file_inv f0 ds ?s" using i(4) assms(2) by (auto simp: file_inv_def)
  moreover have "stop_inv as ?s" using i(5) assms(2) by (auto simp: stop_inv_def)
  ultimately show ?thesis by (rule ginvI)
qed

theorem ginv_step:
  assumes "gstep s s'" "ginv f0 s"
  shows "ginv f0 s'"
  using assms
proof (induction rule: gstep.induct)
  case (append s t data)
  then show ?case using ginv_append by blast
next
  case (take_seq s t data c)
  then show ?case using ginv_local [of f0 s t "GSeq data c (g_seq s)" "g_ret s" "g_pending s" "g_seq s + 1"] by simp
next
  case (box s t data c q a)
  then show ?case using ginv_box by blast
next
  case (load_head s t a c)
  then show ?case using ginv_load by blast
next
  case (push s t a p c)
  then show ?case using ginv_push by blast
next
  case (push_fail s t a p c)
  then have "pc_ok (g_heap s) (g_pc s t)" unfolding ginv_def mem_inv_def by blast
  with push_fail show ?case using ginv_local [of f0 s t "GReady a c" "g_ret s" "g_pending s" "g_seq s"] by auto
next
  case (count s t c)
  then show ?case using ginv_local [of f0 s t GIdle "(g_ret s)(c \<mapsto> length (g_log s))" "g_pending s + 1" "g_seq s"] by simp
next
  case (stop s)
  then show ?case by (auto simp: ginv_def mem_inv_def acct_inv_def done_inv_def file_inv_def stop_inv_def queued_def)
next
  case (b_load s)
  then show ?case using ginv_bat [of f0 s Map.empty "BWindow (g_running s)" "g_pending s"] by simp
next
  case (b_swap s r)
  then show ?case using ginv_swap by blast
next
  case (b_empty s r)
  then show ?case using ginv_bat [of f0 s Map.empty "if r then BTop else BExit" "g_pending s"] by (auto simp: ginv_def stop_inv_def)
next
  case (b_walk s r node batch h)
  then show ?case using ginv_walk [of f0 s r node] by auto
next
  case (b_walk_fault s r node e)
  then show ?case using ginv_walk [of f0 s r node] by auto
next
  case (b_count s r batch)
  then show ?case
    using ginv_bat [of f0 s Map.empty "BCounted r batch" "g_pending s - of_nat (length batch)"]
    by (auto simp: ginv_def stop_inv_def)
next
  case (b_order s r batch)
  then show ?case using ginv_order by blast
next
  case (b_write s r batch off ks res f)
  then show ?case using ginv_write by blast
next
  case (b_signal s r p ps)
  then show ?case using ginv_signal by blast
next
  case (b_again s r)
  then show ?case
    using ginv_bat [of f0 s Map.empty "if \<not> r \<and> g_head s = 0 then BExit else BTop" "g_pending s"]
    by (auto simp: ginv_def stop_inv_def)
qed

lemma ginv_new: "length f0 < 2 ^ 64 \<Longrightarrow> ginv f0 (gc_new f0 True)"
  by (rule ginvI [of "[]" "[]"])
    (simp_all add: gc_new_def mem_inv_def acct_inv_def queued_def tn_items_def done_inv_def file_inv_def
      stop_inv_def bytes_of_def unat_of_nat comp_def)

lemma ginv_reach: "gstep\<^sup>*\<^sup>* s s' \<Longrightarrow> ginv f0 s \<Longrightarrow> ginv f0 s'"
  by (induction rule: rtranclp_induct) (auto intro: ginv_step)

end
