(* ===== verification/GroupCommitOrder.thy ===== *)
theory GroupCommitOrder
  imports GroupCommit
begin

text \<open>
  What the group-commit log promises: which records a file holds and in which order, what is left
  when the handle is dropped, and that dropping it ends.  The sequence numbers, the stack and the
  batches together keep the order of submissions that do not overlap.
\<close>

section \<open>Sequence numbers and order\<close>

text \<open>Every record that has a sequence number, wherever it is.\<close>

fun numbered :: "gpc \<Rightarrow> pending set" where
  "numbered (GSeq d c q) = {\<lparr>pd_seq = q, pd_data = d, pd_comp = c\<rparr>}"
| "numbered pc = {}"

definition recs :: "gc_state \<Rightarrow> pending set" where
  "recs s = \<Union>(range (numbered \<circ> g_pc s)) \<union> tn_item ` ran (g_heap s) \<union> set (in_hand (g_bat s)) \<union> set (concat (g_batches s))"

lemma items_ran: "tn_item ` ran h = {x. \<exists>a. map_option tn_item (h a) = Some x}"
  by (auto simp: ran_def)

lemma items_set_next_ran: "tn_item ` ran (t_set_next a q h) = tn_item ` ran h"
proof -
  have "map_option tn_item (t_set_next a q h b) = map_option tn_item (h b)" for b
    by (auto simp: t_set_next_def split: option.splits)
  then show ?thesis by (simp add: items_ran)
qed

lemma items_walk_ran:
  assumes "set ds \<subseteq> dom h"
  shows "tn_item ` ran (h |` (- set ds)) \<union> set (tn_items h ds) = tn_item ` ran h" (is "?l = ?r")
proof
  show "?l \<subseteq> ?r"
  proof
    fix x assume "x \<in> ?l"
    then consider a where "a \<notin> set ds" "map_option tn_item (h a) = Some x" | a where "a \<in> set ds" "x = tn_item (the (h a))"
      by (auto simp: items_ran tn_items_def restrict_map_def split: if_splits)
    then show "x \<in> ?r" using assms by cases (fastforce simp: items_ran dom_def)+
  qed
  show "?r \<subseteq> ?l"
  proof
    fix x assume "x \<in> ?r"
    then obtain a nd where a: "h a = Some nd" "x = tn_item nd" by (auto simp: items_ran)
    show "x \<in> ?l"
    proof (cases "a \<in> set ds")
      case True
      then have "tn_item (the (h a)) \<in> set (tn_items h ds)" by (simp add: tn_items_def)
      then show ?thesis by (simp add: a)
    next
      case False
      then have "nd \<in> ran (h |` (- set ds))" using a by (auto simp: ran_def restrict_map_def)
      then show ?thesis by (simp add: a)
    qed
  qed
qed

lemma Union_upd: "\<Union>(range (F(t := X))) = X \<union> (\<Union>u \<in> -{t}. F u)"
  by (auto split: if_splits)

lemma Union_split: "\<Union>(range F) = F t \<union> (\<Union>u \<in> -{t}. F u)"
  by auto

text \<open>Only taking a number adds such a record.\<close>

lemma recs_number:
  assumes "g_pc s t = GStart d c"
  shows "recs (set_pc t (GSeq d c (g_seq s)) s\<lparr>g_seq := g_seq s + 1\<rparr>) =
    insert \<lparr>pd_seq = g_seq s, pd_data = d, pd_comp = c\<rparr> (recs s)"
proof -
  have "\<Union>(range (numbered \<circ> (g_pc s)(t := GSeq d c (g_seq s)))) =
      insert \<lparr>pd_seq = g_seq s, pd_data = d, pd_comp = c\<rparr> (\<Union>(range (numbered \<circ> g_pc s)))"
    unfolding upd_comp Union_upd Union_split [of "numbered \<circ> g_pc s" t] using assms by simp
  then show ?thesis by (simp add: recs_def)
qed

lemma recs_same:
  assumes "gstep s s'" "ginv f0 s" "g_seq s' = g_seq s"
  shows "recs s' = recs s"
  using assms(1,3)
proof (cases rule: gstep.cases)
  case (box t d c q a)
  let ?x = "\<lparr>pd_seq = q, pd_data = d, pd_comp = c\<rparr>"
  have "insert ?x (\<Union>(range (numbered \<circ> (g_pc s)(t := GReady a c)))) = \<Union>(range (numbered \<circ> g_pc s))"
    unfolding upd_comp Union_upd Union_split [of "numbered \<circ> g_pc s" t] using box(2) by simp
  moreover have "tn_item ` ran (t_new a ?x (g_heap s)) = insert ?x (tn_item ` ran (g_heap s))"
    using box(4) by (simp add: t_new_def)
  ultimately show ?thesis by (auto simp: recs_def box(1))
next
  case (load_head t a c)
  then show ?thesis using keep_upd [of numbered "GLoaded a (g_head s) c" "g_pc s" t] by (simp add: recs_def items_set_next_ran)
next
  case (b_walk r node batch h)
  obtain as ds where i: "mem_inv as ds s" using assms(2) by (auto simp: ginv_def)
  note m = mem_invD [OF this]
  have ch: "chain (g_heap s) node ds" using m(6) b_walk(2) by simp
  have "set ds \<subseteq> dom (g_heap s)" by (rule chain_dom [OF ch])
  then show ?thesis using b_walk drain_chain [OF ch m(4)] items_walk_ran [of ds "g_heap s"] by (auto simp: recs_def)
qed (auto simp: recs_def keep_upd batch_order_props)

text \<open>
  A record carries what was submitted.  The numbers taken are below the counter, which counts them;
  a record submitted after another \<open>append\<close> has returned has the greater number.
\<close>

fun started :: "gpc \<Rightarrow> (nat \<times> bytes) set" where
  "started (GStart d c) = {(c, d)}"
| "started pc = {}"

lemma started_iff: "(c, d) \<in> started pc \<longleftrightarrow> pc = GStart d c"
  by (cases pc) auto

fun has_number :: "gpc \<Rightarrow> nat set" where
  "has_number (GSeq d c q) = {c}"
| "has_number (GReady a c) = {c}"
| "has_number (GLoaded a p c) = {c}"
| "has_number (GPushed c) = {c}"
| "has_number pc = {}"

definition seq_inv :: "gc_state \<Rightarrow> bool" where
  "seq_inv s \<longleftrightarrow>
     (\<forall>p \<in> recs s. pd_comp p < length (g_log s) \<and> pd_data p = g_log s ! pd_comp p) \<and>
     (\<forall>t. \<forall>(c, d) \<in> started (g_pc s t). c < length (g_log s) \<and> d = g_log s ! c \<and> c \<notin> pd_comp ` recs s) \<and>
     (\<forall>t. has_number (g_pc s t) \<subseteq> pd_comp ` recs s) \<and>
     (length (g_log s) < 2 ^ 64 \<longrightarrow> unat (g_seq s) = card (pd_comp ` recs s) \<and> (\<forall>p \<in> recs s. pd_seq p < g_seq s)) \<and>
     (\<forall>c k. g_ret s c = Some k \<longrightarrow> k \<le> length (g_log s) \<and> c \<in> pd_comp ` recs s \<and>
        (length (g_log s) < 2 ^ 64 \<longrightarrow> (\<forall>p \<in> recs s. \<forall>p' \<in> recs s. pd_comp p = c \<and> k \<le> pd_comp p' \<longrightarrow> pd_seq p < pd_seq p')))"

lemma seq_inv_parts:
  assumes "seq_inv s"
  shows "\<forall>p \<in> recs s. pd_comp p < length (g_log s) \<and> pd_data p = g_log s ! pd_comp p"
    "\<forall>t. \<forall>(c, d) \<in> started (g_pc s t). c < length (g_log s) \<and> d = g_log s ! c \<and> c \<notin> pd_comp ` recs s"
    "\<forall>t. has_number (g_pc s t) \<subseteq> pd_comp ` recs s"
    "length (g_log s) < 2 ^ 64 \<longrightarrow> unat (g_seq s) = card (pd_comp ` recs s) \<and> (\<forall>p \<in> recs s. pd_seq p < g_seq s)"
    "\<forall>c k. g_ret s c = Some k \<longrightarrow> k \<le> length (g_log s) \<and> c \<in> pd_comp ` recs s \<and>
        (length (g_log s) < 2 ^ 64 \<longrightarrow> (\<forall>p \<in> recs s. \<forall>p' \<in> recs s. pd_comp p = c \<and> k \<le> pd_comp p' \<longrightarrow> pd_seq p < pd_seq p'))"
  using assms unfolding seq_inv_def by - (elim conjE, assumption)+

lemma seq_invD:
  assumes "seq_inv s"
  shows "p \<in> recs s \<Longrightarrow> pd_comp p < length (g_log s)" "p \<in> recs s \<Longrightarrow> pd_data p = g_log s ! pd_comp p"
    "g_pc s t = GStart d c \<Longrightarrow> c < length (g_log s) \<and> d = g_log s ! c \<and> c \<notin> pd_comp ` recs s"
    "has_number (g_pc s t) \<subseteq> pd_comp ` recs s"
    "length (g_log s) < 2 ^ 64 \<Longrightarrow> unat (g_seq s) = card (pd_comp ` recs s)"
    "length (g_log s) < 2 ^ 64 \<Longrightarrow> p \<in> recs s \<Longrightarrow> pd_seq p < g_seq s"
proof -
  note i = seq_inv_parts [OF assms]
  show "p \<in> recs s \<Longrightarrow> pd_comp p < length (g_log s)" "p \<in> recs s \<Longrightarrow> pd_data p = g_log s ! pd_comp p"
    using i(1) by blast+
  show "c < length (g_log s) \<and> d = g_log s ! c \<and> c \<notin> pd_comp ` recs s" if "g_pc s t = GStart d c"
    using i(2) [rule_format, of "(c, d)" t] that by simp
  show "has_number (g_pc s t) \<subseteq> pd_comp ` recs s" using i(3) by blast
  show "length (g_log s) < 2 ^ 64 \<Longrightarrow> unat (g_seq s) = card (pd_comp ` recs s)"
    "length (g_log s) < 2 ^ 64 \<Longrightarrow> p \<in> recs s \<Longrightarrow> pd_seq p < g_seq s" using i(4) by blast+
qed

lemma seq_inv_ret:
  assumes "seq_inv s" "g_ret s c = Some k"
  shows "k \<le> length (g_log s)" "c \<in> pd_comp ` recs s"
    "\<lbrakk>length (g_log s) < 2 ^ 64; p \<in> recs s; p' \<in> recs s; pd_comp p = c; k \<le> pd_comp p'\<rbrakk> \<Longrightarrow> pd_seq p < pd_seq p'"
  using seq_inv_parts(5) [OF assms(1), rule_format, OF assms(2)] by blast+

lemma seq_inv_number:
  assumes "seq_inv s" "g_pc s t = GStart d c" "exclusive (comps s)"
    "recs s' = insert \<lparr>pd_seq = g_seq s, pd_data = d, pd_comp = c\<rparr> (recs s)"
    "s' = set_pc t (GSeq d c (g_seq s)) s\<lparr>g_seq := g_seq s + 1\<rparr>"
  shows "seq_inv s'"
proof -
  note i = seq_invD [OF assms(1)] and r = seq_inv_ret [OF assms(1)]
  have c: "c < length (g_log s)" "d = g_log s ! c" "c \<notin> pd_comp ` recs s" using i(3) [OF assms(2)] by blast+
  let ?C = "pd_comp ` recs s"
  have C': "pd_comp ` recs s' = insert c ?C" by (simp add: assms(4))
  have fin: "?C \<subseteq> {..<length (g_log s)} - {c}" using i(1) c(3) by auto
  have n: "unat (g_seq s + 1) = Suc (unat (g_seq s)) \<and> unat (g_seq s + 1) = card (insert c ?C)" if l: "length (g_log s) < 2 ^ 64"
  proof -
    have "card ?C \<le> card ({..<length (g_log s)} - {c})" using fin by (intro card_mono) auto
    then have "card ?C + 1 < 2 ^ 64" using c(1) l by simp
    moreover have "card (insert c ?C) = Suc (card ?C)" using finite_subset [OF fin] c(3) by (intro card_insert_disjoint) auto
    ultimately show ?thesis using i(5) [OF l] by (simp add: unat_word_ariths)
  qed
  have lt: "q < g_seq s + 1 \<longleftrightarrow> q < g_seq s \<or> q = g_seq s" if "length (g_log s) < 2 ^ 64" for q
    using n [OF that] by (auto simp: word_less_nat_alt word_unat_eq_iff)
  have st: "cc < length (g_log s) \<and> dd = g_log s ! cc \<and> cc \<notin> insert c ?C" if "g_pc s u = GStart dd cc" "u \<noteq> t" for u cc dd
  proof -
    have "comps s t \<inter> comps s u = {}" using assms(3) that(2) unfolding exclusive_def by metis
    then have "cc \<noteq> c" using that(1) assms(2) by auto
    then show ?thesis using i(3) [OF that(1)] by blast
  qed
  have f: "g_log s' = g_log s" "g_pc s' = (g_pc s)(t := GSeq d c (g_seq s))" "g_seq s' = g_seq s + 1" "g_ret s' = g_ret s"
    by (simp_all add: assms(5))
  show ?thesis
    unfolding seq_inv_def C' assms(4) f
  proof (intro conjI, goal_cases)
    case 1
    then show ?case using i(1,2) c by simp
  next
    case 2
    then show ?case by (auto simp: started_iff dest: st split: if_splits) (blast dest: st)
  next
    case 3
    then show ?case using i(4) by auto
  next
    case 4
    then show ?case using n i(6) lt by auto
  next
    case 5
    have "g_ret s c = None" using r(2) c(3) by (cases "g_ret s c") blast+
    then show ?case using r i(6) by auto
  qed
qed

lemma seq_inv_append:
  assumes "seq_inv s" "recs s' = recs s" "s' = set_pc t (GStart d (length (g_log s))) s\<lparr>g_log := g_log s @ [d]\<rparr>"
  shows "seq_inv s'"
proof -
  note i = seq_invD [OF assms(1)] and r = seq_inv_ret [OF assms(1)]
  have f: "g_log s' = g_log s @ [d]" "g_pc s' = (g_pc s)(t := GStart d (length (g_log s)))" "g_seq s' = g_seq s" "g_ret s' = g_ret s"
    by (simp_all add: assms(3))
  have st: "cc < length (g_log s) \<and> dd = g_log s ! cc \<and> cc \<notin> pd_comp ` recs s" if "g_pc s u = GStart dd cc" for u dd cc
    using i(3) [OF that] .
  have n: "length (g_log s) \<notin> pd_comp ` recs s" using i(1) less_irrefl by (metis imageE)
  show ?thesis
    unfolding seq_inv_def assms(2) f
  proof (intro conjI, goal_cases)
    case 1
    then show ?case using i(1,2) by (auto simp: nth_append less_Suc_eq)
  next
    case 2
    have "cc < length (g_log s @ [d]) \<and> dd = (g_log s @ [d]) ! cc \<and> cc \<notin> pd_comp ` recs s"
      if "((g_pc s)(t := GStart d (length (g_log s)))) u = GStart dd cc" for u cc dd
      using st [of u dd cc] that n by (cases "u = t") (auto simp: nth_append)
    then show ?case unfolding split_beta by (metis started_iff prod.collapse)
  next
    case 3
    then show ?case using i(4) by auto
  next
    case 4
    then show ?case using i(5,6) by auto
  next
    case 5
    then show ?case using r by (auto intro: le_SucI)
  qed
qed

lemma seq_inv_keep:
  assumes "seq_inv s" "recs s' = recs s" "g_log s' = g_log s" "g_seq s' = g_seq s"
    "\<And>u. started (g_pc s' u) \<subseteq> started (g_pc s u)" "\<And>u. has_number (g_pc s' u) \<subseteq> has_number (g_pc s u)"
    "g_ret s' = g_ret s \<or> (\<exists>t c. c \<in> has_number (g_pc s t) \<and> g_ret s' = (g_ret s)(c \<mapsto> length (g_log s)))"
  shows "seq_inv s'"
proof -
  note i = seq_inv_parts [OF assms(1)] and j = seq_invD [OF assms(1)]
  show ?thesis
    unfolding seq_inv_def assms(2,3,4)
  proof (intro conjI, goal_cases)
    case 2
    then show ?case using i(2) assms(5) by blast
  next
    case 3
    then show ?case using i(3) assms(6) by blast
  next
    case 5
    from assms(7) show ?case
    proof (elim disjE exE conjE)
      fix t c assume c: "c \<in> has_number (g_pc s t)" "g_ret s' = (g_ret s)(c \<mapsto> length (g_log s))"
      then have "c \<in> pd_comp ` recs s" using i(3) by blast
      moreover have "\<not> length (g_log s) \<le> pd_comp p" if "p \<in> recs s" for p using j(1) [OF that] by simp
      ultimately show ?thesis using i(5) unfolding c(2) by (auto split: if_splits)
    qed (use i(5) in simp)
  qed (use i in blast)+
qed

lemma seq_inv_step:
  assumes "gstep s s'" "ginv f0 s" "seq_inv s"
  shows "seq_inv s'"
  using assms(1)
proof (cases rule: gstep.cases)
  case (append t d)
  then show ?thesis using seq_inv_append [OF assms(3)] recs_same [OF assms(1,2)] by simp
next
  case (take_seq t d c)
  have "exclusive (comps s)" using assms(2) acct_invD(2) by (auto simp: ginv_def)
  then show ?thesis using seq_inv_number [OF assms(3) take_seq(2)] recs_number [OF take_seq(2)] take_seq(1) by simp
next
  case (count t c)
  have "c \<in> has_number (g_pc s t) \<and> g_ret s' = (g_ret s)(c \<mapsto> length (g_log s))" by (simp add: count)
  then have "g_ret s' = g_ret s \<or> (\<exists>t c. c \<in> has_number (g_pc s t) \<and> g_ret s' = (g_ret s)(c \<mapsto> length (g_log s)))" by blast
  then show ?thesis using recs_same [OF assms(1,2)] count(1) by (intro seq_inv_keep [OF assms(3)]) auto
qed (use recs_same [OF assms(1,2)] in \<open>auto intro!: seq_inv_keep [OF assms(3)] split: if_splits\<close>)

text \<open>The completions on the stack, and how a step changes them and what the writers hold.\<close>

definition stacked :: "gc_state \<Rightarrow> nat set" where
  "stacked s = {c. \<exists>as. chain (g_heap s) (g_head s) as \<and> c \<in> pd_comp ` set (tn_items (g_heap s) as)}"

lemma chain_unique: "chain h p as \<Longrightarrow> chain h p bs \<Longrightarrow> as = bs"
  by (induction as arbitrary: p bs; case_tac bs) auto

lemma stacked_eq: "stack_inv (g_heap s) (g_head s) as own \<Longrightarrow> stacked s = pd_comp ` set (tn_items (g_heap s) as)"
  using chain_unique unfolding stack_inv_def stacked_def by blast

lemma stack_change:
  assumes "gstep s s'" "ginv f0 s"
  shows "(stacked s' = stacked s \<or> stacked s' = {}) \<and> comps s' = comps s \<and> g_log s' = g_log s \<or>
    stacked s' = stacked s \<and> (\<exists>t d. g_pc s t = GIdle \<and> g_log s' = g_log s @ [d] \<and> comps s' = (comps s)(t := {length (g_log s)})) \<or>
    (\<exists>t c. g_log s' = g_log s \<and> comps s t = {c} \<and> comps s' = (comps s)(t := {}) \<and> stacked s' = insert c (stacked s))"
proof -
  obtain as ds where "mem_inv as ds s" using assms(2) by (auto simp: ginv_def)
  note m = mem_invD [OF this]
  note e = stacked_eq [OF m(1)]
  from assms(1) show ?thesis
  proof (cases rule: gstep.cases)
    case (box t d c q a)
    note n = stack_inv_new [OF m(1) box(3,4), of "\<lparr>pd_seq = q, pd_data = d, pd_comp = c\<rparr>"]
    have "stacked s' = stacked s" using stacked_eq [of s' as] n(1,2) e by (simp add: box(1))
    then show ?thesis using keep_upd [of comp_of "GReady a c" "g_pc s" t] box by simp
  next
    case (load_head t a c)
    have "a \<in> nodes s t" by (simp add: load_head(2))
    then have "a \<in> \<Union>(range (nodes s)) \<union> set ds" by blast
    from stack_inv_set_next [OF m(1) this, of "g_head s"] have "stacked s' = stacked s"
      using stacked_eq [of s' as] e by (simp add: load_head(1))
    then show ?thesis using keep_upd [of comp_of "GLoaded a (g_head s) c" "g_pc s" t] load_head by simp
  next
    case (push t a p c)
    obtain nd where nd: "g_heap s a = Some nd" "pd_comp (tn_item nd) = c" "tn_next nd = g_head s" using m(5) [of t] push by auto
    have "a \<in> nodes s t" by (simp add: push(2))
    then have "a \<in> \<Union>(range (nodes s)) \<union> set ds" by blast
    note n = stack_inv_push [OF m(1) this nd(1,3)]
    have "stacked s' = insert c (stacked s)" using stacked_eq [of s' "a # as"] n e nd(2) by (simp add: push(1))
    moreover have "comps s t = {c}" "comps s' = (comps s)(t := {})" "g_log s' = g_log s"
      by (simp_all add: push(1,2) upd_comp)
    ultimately show ?thesis by blast
  next
    case (b_walk r node batch h)
    have ch: "chain (g_heap s) node ds" using m(6) b_walk(2) by simp
    note n = stack_inv_drain [OF m(1) ch m(4)]
    have "stacked s' = stacked s" using stacked_eq [of s' as] n e b_walk by simp
    then show ?thesis using b_walk(1) by simp
  next
    case (b_swap r)
    have "stacked s' = {}" using stacked_eq [of s' "[]"] stack_inv_swap(1) [OF m(1)] b_swap(1) by (simp add: tn_items_def)
    then show ?thesis using b_swap(1) by simp
  next
    case (append t d)
    then have "stacked s' = stacked s" by (simp add: stacked_def)
    moreover have "comps s' = (comps s)(t := {length (g_log s)})" "g_log s' = g_log s @ [d]" by (simp_all add: append(1) upd_comp)
    ultimately show ?thesis using append(2) by blast
  qed (simp_all add: stacked_def keep_upd)
qed

definition held :: "gc_state \<Rightarrow> nat set" where
  "held s = \<Union>(range (comps s))"

lemma held_change:
  assumes "gstep s s'" "ginv f0 s"
  shows "(stacked s' = stacked s \<or> stacked s' = {}) \<and> held s' = held s \<and> g_log s' = g_log s \<or>
    stacked s' = stacked s \<and> (\<exists>d. g_log s' = g_log s @ [d]) \<and> held s' = insert (length (g_log s)) (held s) \<or>
    (\<exists>c \<in> held s. held s' = held s - {c} \<and> stacked s' = insert c (stacked s) \<and> g_log s' = g_log s)"
proof -
  have ex: "exclusive (comps s)" using assms(2) acct_invD(2) by (auto simp: ginv_def)
  have 1: "held s' = insert (length (g_log s)) (held s)" if "g_pc s t = GIdle" "comps s' = (comps s)(t := {length (g_log s)})" for t
    unfolding held_def that(2) Union_upd Union_split [of "comps s" t] by (simp add: that(1))
  have 2: "c \<in> held s" "held s' = held s - {c}" if "comps s t = {c}" "comps s' = (comps s)(t := {})" for t c
  proof -
    show "c \<in> held s" unfolding held_def using that(1) by blast
    show "held s' = held s - {c}" unfolding held_def that(2) using exclusive_drop(2) [OF ex, of t] that(1) by simp
  qed
  from stack_change [OF assms] show ?thesis
  proof (elim disjE conjE exE)
    fix t c assume t: "comps s t = {c}" "comps s' = (comps s)(t := {})" and "stacked s' = insert c (stacked s)" "g_log s' = g_log s"
    then show ?thesis using 2 [OF t] by (intro disjI2 bexI [of _ c]) simp_all
  next
    fix t d assume t: "g_pc s t = GIdle" "comps s' = (comps s)(t := {length (g_log s)})"
      and "stacked s' = stacked s" "g_log s' = g_log s @ [d]"
    then show ?thesis using 1 [OF t] by (intro disjI2 disjI1) simp
  next
    assume "stacked s' = stacked s" "comps s' = comps s" "g_log s' = g_log s"
    then show ?thesis unfolding held_def by presburger
  next
    assume "stacked s' = {}" "comps s' = comps s" "g_log s' = g_log s"
    then show ?thesis unfolding held_def by presburger
  qed
qed

text \<open>
  The order.  A record whose \<open>append\<close> has returned is no writer's any more.  As long as it is on the
  stack, so is every record submitted later that has left its writer; in the log it comes first.
\<close>

definition precedes :: "nat \<Rightarrow> nat \<Rightarrow> pending list \<Rightarrow> bool" where
  "precedes c c' ps \<longleftrightarrow> (\<exists>xs ys. ps = xs @ ys \<and> c \<in> pd_comp ` set xs \<and> c' \<in> pd_comp ` set ys)"

definition out_inv :: "gc_state \<Rightarrow> bool" where
  "out_inv s \<longleftrightarrow> (\<forall>c. g_ret s c \<noteq> None \<or> (\<exists>t. g_pc s t = GPushed c) \<longrightarrow> c \<notin> held s)"

definition lag_inv :: "gc_state \<Rightarrow> bool" where
  "lag_inv s \<longleftrightarrow> (\<forall>c k c'. g_ret s c = Some k \<and> k \<le> c' \<and> c \<in> stacked s \<longrightarrow>
     c' \<in> stacked s \<or> c' \<in> held s \<or> length (g_log s) \<le> c')"

definition place_inv :: "gc_state \<Rightarrow> bool" where
  "place_inv s \<longleftrightarrow> (\<forall>c k c'. g_ret s c = Some k \<and> k \<le> c' \<and> c' \<in> pd_comp ` set (concat (g_batches s)) \<and> length (g_log s) < 2 ^ 64 \<longrightarrow>
     precedes c c' (concat (g_batches s)))"

text \<open>Only the end of \<open>append\<close> changes what has returned, and only a new \<open>append\<close> the submissions.\<close>

lemma ret_step:
  assumes "gstep s s'"
  shows "g_ret s' = g_ret s \<and> (g_log s' = g_log s \<or> (\<exists>d. g_log s' = g_log s @ [d])) \<or>
    (\<exists>t c. g_pc s t = GPushed c \<and> g_ret s' = (g_ret s)(c \<mapsto> length (g_log s)) \<and> g_log s' = g_log s \<and> held s' = held s \<and>
       stacked s' = stacked s \<and> g_batches s' = g_batches s \<and> g_pc s' = (g_pc s)(t := GIdle))"
  using assms by (cases rule: gstep.cases) (auto simp: stacked_def held_def keep_upd)

lemma pushed_step:
  assumes "gstep s s'" "g_pc s' t = GPushed c"
  shows "g_pc s t = GPushed c \<or> comps s t = {c} \<and> comps s' = (comps s)(t := {})"
  using assms by (cases rule: gstep.cases) (auto simp: upd_comp split: if_splits)

lemma out_inv_step:
  assumes "gstep s s'" "ginv f0 s" "seq_inv s" "out_inv s"
  shows "out_inv s'"
  unfolding out_inv_def
proof (intro allI impI)
  fix c assume c: "g_ret s' c \<noteq> None \<or> (\<exists>t. g_pc s' t = GPushed c)"
  have ex: "exclusive (comps s)" using assms(2) acct_invD(2) by (auto simp: ginv_def)
  show "c \<notin> held s'"
  proof (cases "g_ret s c \<noteq> None \<or> (\<exists>t. g_pc s t = GPushed c)")
    case True
    then have "c \<notin> held s" using assms(4) unfolding out_inv_def by blast
    moreover have "c < length (g_log s)"
    proof -
      from True have "c \<in> pd_comp ` recs s"
      proof (elim disjE exE)
        fix t assume "g_pc s t = GPushed c"
        then show ?thesis using seq_invD(4) [OF assms(3), of t] by simp
      qed (use seq_inv_ret(2) [OF assms(3)] in blast)
      then show ?thesis using seq_invD(1) [OF assms(3)] by blast
    qed
    ultimately show ?thesis using held_change [OF assms(1,2)] by auto
  next
    case False
    then have "g_ret s' c = None" using ret_step [OF assms(1)] by (auto split: if_splits)
    then obtain t where "g_pc s' t = GPushed c" using c by blast
    then have "comps s t = {c}" "comps s' = (comps s)(t := {})" using pushed_step [OF assms(1)] False by blast+
    then show ?thesis using exclusive_drop(2) [OF ex, of t] by (simp add: held_def)
  qed
qed

lemma lag_inv_step:
  assumes "gstep s s'" "ginv f0 s" "seq_inv s" "out_inv s" "lag_inv s"
  shows "lag_inv s'"
  unfolding lag_inv_def
proof (intro allI impI, elim conjE)
  fix c k c' assume c: "g_ret s' c = Some k" "k \<le> c'" "c \<in> stacked s'"
  show "c' \<in> stacked s' \<or> c' \<in> held s' \<or> length (g_log s') \<le> c'"
  proof (cases "g_ret s c = Some k")
    case True
    then have "c \<notin> held s" using assms(4) unfolding out_inv_def by blast
    moreover have "c \<in> stacked s \<Longrightarrow> c' \<in> stacked s \<or> c' \<in> held s \<or> length (g_log s) \<le> c'"
      using assms(5) True c(2) unfolding lag_inv_def by blast
    ultimately show ?thesis using held_change [OF assms(1,2)] c(3) by (elim disjE conjE bexE exE) auto
  next
    case False
    then show ?thesis using ret_step [OF assms(1)] c(1,2) by (auto split: if_splits)
  qed
qed

lemma precedes_append1: "precedes c c' ps \<Longrightarrow> precedes c c' (ps @ qs)"
  unfolding precedes_def by (metis Un_iff append_assoc image_Un set_append)

lemma precedes_append2: "c \<in> pd_comp ` set ps \<Longrightarrow> c' \<in> pd_comp ` set qs \<Longrightarrow> precedes c c' (ps @ qs)"
  unfolding precedes_def by blast

lemma precedes_append3: "precedes c c' qs \<Longrightarrow> precedes c c' (ps @ qs)"
  unfolding precedes_def by (metis Un_iff append_assoc image_Un set_append)

lemma precedes_sorted:
  assumes "sorted (map pd_seq b)" "p \<in> set b" "p' \<in> set b" "pd_seq p < pd_seq p'"
  shows "precedes (pd_comp p) (pd_comp p') b"
proof -
  obtain xs ys where b: "b = xs @ p # ys" using assms(2) by (meson split_list)
  have "p' \<notin> set xs" "p' \<noteq> p" using assms(1,4) by (auto simp: b sorted_append)
  then have "p' \<in> set ys" using assms(3) by (simp add: b)
  then show ?thesis unfolding precedes_def b by (intro exI [of _ "xs @ [p]"] exI [of _ ys]) auto
qed

lemma batches_step:
  assumes "gstep s s'"
  shows "g_batches s' = g_batches s \<or>
    (\<exists>r b off. g_bat s = BWrite r b off \<and> g_batches s' = g_batches s @ [b] \<and> g_log s' = g_log s \<and> g_ret s' = g_ret s)"
  using assms by (cases rule: gstep.cases) auto

text \<open>What has returned and is not behind a later record is in the batch to be written or before it.\<close>

lemma write_order:
  assumes "ginv f0 s" "seq_inv s" "out_inv s" "lag_inv s" "g_bat s = BWrite r b off"
    "g_ret s c = Some k" "k \<le> c'" "c' \<in> pd_comp ` set b" "length (g_log s) < 2 ^ 64"
  shows "c \<in> pd_comp ` set (concat (g_batches s)) \<or> precedes c c' b"
proof -
  from assms(1) obtain as ds where i: "mem_inv as ds s" "acct_inv as ds s" "file_inv f0 ds s" by (auto simp: ginv_def)
  note m = mem_invD [OF i(1)] and ac = acct_invD [OF i(2), folded held_def]
  have ds: "ds = []" using m(6) assms(5) by simp
  have q: "queued as ds s = tn_items (g_heap s) as @ b" by (simp add: queued_def ds assms(5) tn_items_def)
  have st: "stacked s = pd_comp ` set (tn_items (g_heap s) as)" by (rule stacked_eq [OF m(1)])
  have c': "c' \<notin> stacked s" "c' \<notin> held s" "c' < length (g_log s)"
    using ac assms(8) unfolding q st by auto
  then have "c \<notin> stacked s" using assms(4,6,7) unfolding lag_inv_def by (meson leD)
  moreover have "c \<notin> held s" using assms(3,6) unfolding out_inv_def by blast
  moreover have "c < length (g_log s)" using seq_inv_ret(2) [OF assms(2,6)] seq_invD(1) [OF assms(2)] by blast
  ultimately have "c \<in> pd_comp ` set b \<or> c \<in> pd_comp ` set (concat (g_batches s))"
    using ac(4) [symmetric] unfolding q st by auto
  then show ?thesis
  proof
    assume "c \<in> pd_comp ` set b"
    then obtain p p' where p: "p \<in> set b" "p' \<in> set b" "c = pd_comp p" "c' = pd_comp p'" using assms(8) by blast
    have "set b \<subseteq> recs s" using assms(5) by (auto simp: recs_def)
    then have "pd_seq p < pd_seq p'" using seq_inv_ret(3) [OF assms(2,6,9), of p p'] p assms(7) by auto
    moreover have "sorted (map pd_seq b)" using i(3) assms(5) by (simp add: file_inv_def)
    ultimately show ?thesis using precedes_sorted p by blast
  qed simp
qed

lemma place_inv_step:
  assumes "gstep s s'" "ginv f0 s" "seq_inv s" "out_inv s" "lag_inv s" "place_inv s"
  shows "place_inv s'"
  unfolding place_inv_def
proof (intro allI impI, elim conjE)
  fix c k c' assume c: "g_ret s' c = Some k" "k \<le> c'" "c' \<in> pd_comp ` set (concat (g_batches s'))" "length (g_log s') < 2 ^ 64"
  have old: "precedes c c' (concat (g_batches s))"
    if "g_ret s c = Some k" "c' \<in> pd_comp ` set (concat (g_batches s))" "length (g_log s) < 2 ^ 64"
    using assms(6) that c(2) unfolding place_inv_def by blast
  have lt: "c' < length (g_log s)" if "c' \<in> pd_comp ` set (concat (g_batches s))"
    using seq_invD(1) [OF assms(3)] that by (auto simp: recs_def)
  have len: "length (g_log s) < 2 ^ 64" using ret_step [OF assms(1)] c(4) by auto
  from batches_step [OF assms(1)] show "precedes c c' (concat (g_batches s'))"
  proof (elim disjE exE conjE)
    assume b: "g_batches s' = g_batches s"
    then have "g_ret s c = Some k" using ret_step [OF assms(1)] c(1,2,3) lt by (auto split: if_splits)
    then show ?thesis using old c(3) len b by simp
  next
    fix r b off assume b: "g_bat s = BWrite r b off" "g_batches s' = g_batches s @ [b]" "g_ret s' = g_ret s"
    show ?thesis
    proof (cases "c' \<in> pd_comp ` set (concat (g_batches s))")
      case True
      then show ?thesis using old c(1) len b(2,3) by (simp add: precedes_append1)
    next
      case False
      then have cb: "c' \<in> pd_comp ` set b" using c(3) b(2) by auto
      have "concat (g_batches s') = concat (g_batches s) @ b" by (simp add: b(2))
      moreover have "c \<in> pd_comp ` set (concat (g_batches s)) \<or> precedes c c' b"
        using write_order [OF assms(2-5) b(1) _ c(2) cb len] c(1) b(3) by simp
      ultimately show ?thesis using cb precedes_append2 precedes_append3 by metis
    qed
  qed
qed

text \<open>All invariants together.\<close>

definition gc_inv :: "bytes \<Rightarrow> gc_state \<Rightarrow> bool" where
  "gc_inv f0 s \<longleftrightarrow> ginv f0 s \<and> seq_inv s \<and> out_inv s \<and> lag_inv s \<and> place_inv s"

lemma gc_inv_step: "gstep s s' \<Longrightarrow> gc_inv f0 s \<Longrightarrow> gc_inv f0 s'"
  unfolding gc_inv_def using ginv_step seq_inv_step out_inv_step lag_inv_step place_inv_step by blast

lemma gc_inv_new: "length f0 < 2 ^ 64 \<Longrightarrow> gc_inv f0 (gc_new f0 True)"
  using ginv_new by (simp add: gc_inv_def seq_inv_def out_inv_def lag_inv_def place_inv_def) (simp add: gc_new_def recs_def)

lemma gc_inv_reach:
  assumes "length f0 < 2 ^ 64" "gstep\<^sup>*\<^sup>* (gc_new f0 True) s"
  shows "gc_inv f0 s"
  using assms(2) by (induction rule: rtranclp_induct) (auto intro: gc_inv_step gc_inv_new [OF assms(1)])

section \<open>What the log holds\<close>

lemma length_concat_nth: "length (concat xs) = (\<Sum>c < length xs. length (xs ! c))"
  by (simp add: length_concat sum_list_sum_nth lessThan_atLeast0)

lemma bytes_bound:
  assumes "distinct (map pd_comp ps)" "\<And>p. p \<in> set ps \<Longrightarrow> pd_comp p < length lg \<and> pd_data p = lg ! pd_comp p"
  shows "length (bytes_of ps) \<le> length (concat lg)"
proof -
  have "map (\<lambda>p. length (pd_data p)) ps = map (\<lambda>c. length (lg ! c)) (map pd_comp ps)" using assms(2) by simp
  then have "length (bytes_of ps) = (\<Sum>c \<in> set (map pd_comp ps). length (lg ! c))"
    unfolding length_bytes_of by (simp only: sum_list_distinct_conv_sum_set [OF assms(1)])
  also have "\<dots> \<le> (\<Sum>c < length lg. length (lg ! c))" using assms(2) by (intro sum_mono2) auto
  finally show ?thesis by (simp only: length_concat_nth)
qed

lemma records_mset:
  assumes "distinct (map pd_comp ps)" "pd_comp ` set ps = {..<length lg}" "\<And>p. p \<in> set ps \<Longrightarrow> pd_data p = lg ! pd_comp p"
  shows "mset (map pd_data ps) = mset lg"
proof -
  have "mset (map pd_comp ps) = mset [0..<length lg]"
    using assms(1,2) by (subst set_eq_iff_mset_eq_distinct [symmetric]) (auto simp: lessThan_atLeast0)
  then have "image_mset ((!) lg) (mset (map pd_comp ps)) = image_mset ((!) lg) (mset [0..<length lg])" by simp
  then have "mset (map ((!) lg) (map pd_comp ps)) = mset (map ((!) lg) [0..<length lg])" by (simp only: mset_map)
  moreover have "map ((!) lg) (map pd_comp ps) = map pd_data ps" using assms(3) by simp
  ultimately show ?thesis by (simp only: map_nth)
qed

text \<open>The records handed to the backend, as far as the invariants know them.\<close>

lemma gc_inv_facts:
  assumes "gc_inv f0 s"
  shows "distinct (map pd_comp (concat (g_batches s)))"
    "p \<in> set (concat (g_batches s)) \<Longrightarrow> pd_comp p < length (g_log s) \<and> pd_data p = g_log s ! pd_comp p"
    "g_done s c \<Longrightarrow> c \<in> pd_comp ` set (concat (g_batches s))"
    "b \<in> set (g_batches s) \<Longrightarrow> sorted (map pd_seq b)"
    "\<not> g_failed s \<Longrightarrow> length f0 + length (concat (g_log s)) < 2 ^ 64 \<Longrightarrow> g_file s = f0 @ bytes_of (concat (g_batches s))"
proof -
  obtain as ds where i: "mem_inv as ds s" "acct_inv as ds s" "done_inv s" "file_inv f0 ds s"
    using assms by (auto simp: gc_inv_def ginv_def)
  have sq: "seq_inv s" using assms by (simp add: gc_inv_def)
  note m = mem_invD [OF i(1)] and ac = acct_invD [OF i(2)] and r = seq_invD(1,2) [OF sq]
  show "distinct (map pd_comp (concat (g_batches s)))" using ac(1) by simp
  show "pd_comp p < length (g_log s) \<and> pd_data p = g_log s ! pd_comp p" if "p \<in> set (concat (g_batches s))"
    using that r by (auto simp: recs_def)
  show "c \<in> pd_comp ` set (concat (g_batches s))" if "g_done s c" using i(3) that unfolding done_inv_def by blast
  show "sorted (map pd_seq b)" if "b \<in> set (g_batches s)" using i(4) that by (simp add: file_inv_def)
  assume ok: "\<not> g_failed s" and fit: "length f0 + length (concat (g_log s)) < 2 ^ 64"
  let ?ps = "concat (g_batches s) @ tn_items (g_heap s) ds @ in_hand (g_bat s)"
  have "set (tn_items (g_heap s) ds) \<subseteq> tn_item ` ran (g_heap s)"
  proof -
    have "set ds \<subseteq> dom (g_heap s)" using m(1) by (auto simp: stack_inv_def)
    from items_walk_ran [OF this] show ?thesis by blast
  qed
  then have "set ?ps \<subseteq> recs s" by (auto simp: recs_def)
  moreover have "distinct (map pd_comp ?ps)"
  proof -
    let ?qs = "tn_items (g_heap s) ds @ in_hand (g_bat s) @ concat (g_batches s)"
    have "mset (map pd_comp ?ps) = mset (map pd_comp ?qs)" by simp
    moreover have "distinct (map pd_comp ?qs)" using ac(1) by (simp add: queued_def)
    ultimately show ?thesis using mset_eq_imp_distinct_iff by blast
  qed
  ultimately have "length (bytes_of ?ps) \<le> length (concat (g_log s))" using r by (intro bytes_bound) blast+
  then show "g_file s = f0 @ bytes_of (concat (g_batches s))" using i(4) ok fit by (simp add: file_inv_def)
qed

section \<open>Undisturbed runs\<close>

text \<open>A whole \<open>append\<close>, and a whole turn of the batcher, without anybody else in between.\<close>

definition append_all :: "nat \<Rightarrow> bytes \<Rightarrow> usize \<Rightarrow> gc_state \<Rightarrow> gc_state" where
  "append_all t d a s = s\<lparr>g_log := g_log s @ [d], g_seq := g_seq s + 1,
     g_heap := (g_heap s)(a \<mapsto> \<lparr>tn_item = \<lparr>pd_seq = g_seq s, pd_data = d, pd_comp = length (g_log s)\<rparr>, tn_next = g_head s\<rparr>),
     g_head := a, g_pending := g_pending s + 1, g_ret := (g_ret s)(length (g_log s) \<mapsto> length (g_log s) + 1)\<rparr>"

lemma append_run:
  assumes "g_pc s t = GIdle" "g_running s" "a \<noteq> 0" "g_heap s a = None"
  shows "gstep\<^sup>*\<^sup>* s (append_all t d a s)"
proof -
  define s1 where "s1 = set_pc t (GStart d (length (g_log s))) s\<lparr>g_log := g_log s @ [d]\<rparr>"
  define s2 where "s2 = set_pc t (GSeq d (length (g_log s)) (g_seq s1)) s1\<lparr>g_seq := g_seq s1 + 1\<rparr>"
  define s3 where "s3 = set_pc t (GReady a (length (g_log s))) s2\<lparr>g_heap := t_new a
    \<lparr>pd_seq = g_seq s1, pd_data = d, pd_comp = length (g_log s)\<rparr> (g_heap s2)\<rparr>"
  define s4 where "s4 = set_pc t (GLoaded a (g_head s3) (length (g_log s))) s3\<lparr>g_heap := t_set_next a (g_head s3) (g_heap s3)\<rparr>"
  define s5 where "s5 = set_pc t (GPushed (length (g_log s))) s4\<lparr>g_head := a\<rparr>"
  note defs = s1_def s2_def s3_def s4_def s5_def
  have "gstep s s1" unfolding s1_def using assms by (intro gstep.append)
  moreover have "gstep s1 s2" unfolding s2_def by (intro gstep.take_seq) (simp add: s1_def)
  moreover have "gstep s2 s3" unfolding s3_def using assms by (intro gstep.box) (simp_all add: s1_def s2_def)
  moreover have "gstep s3 s4" unfolding s4_def by (intro gstep.load_head) (simp add: s3_def)
  moreover have "gstep s4 s5" unfolding s5_def by (intro gstep.push [of _ _ _ "g_head s3"]) (simp_all add: s4_def)
  moreover have "gstep s5 (append_all t d a s)"
  proof -
    have "append_all t d a s = set_pc t GIdle s5\<lparr>g_pending := g_pending s5 + 1, g_ret := (g_ret s5)(length (g_log s) \<mapsto> length (g_log s5))\<rparr>"
      using assms(1) by (simp add: defs append_all_def t_new_def t_set_next_def fun_upd_idem)
    then show ?thesis by (simp only:) (rule gstep.count, simp add: s5_def)
  qed
  ultimately show ?thesis by (meson rtranclp.rtrancl_into_rtrancl rtranclp.rtrancl_refl)
qed

definition mark :: "pending list \<Rightarrow> (nat \<Rightarrow> bool) \<Rightarrow> nat \<Rightarrow> bool" where
  "mark ps d c \<longleftrightarrow> d c \<or> c \<in> pd_comp ` set ps"

lemma signal_run: "g_bat s = BSignal r ps \<Longrightarrow> gstep\<^sup>*\<^sup>* s (s\<lparr>g_bat := BSignal r [], g_done := mark ps (g_done s)\<rparr>)"
proof (induction ps arbitrary: s)
  case Nil
  have "mark [] (g_done s) = g_done s" by (simp add: mark_def fun_eq_iff)
  then have "s\<lparr>g_bat := BSignal r [], g_done := mark [] (g_done s)\<rparr> = s" using Nil by simp
  then show ?case by simp
next
  case (Cons p ps)
  let ?s = "s\<lparr>g_bat := BSignal r ps, g_done := (g_done s)(pd_comp p := True)\<rparr>"
  have "gstep s ?s" by (rule gstep.b_signal [OF Cons.prems])
  moreover have "gstep\<^sup>*\<^sup>* ?s (s\<lparr>g_bat := BSignal r [], g_done := mark (p # ps) (g_done s)\<rparr>)"
  proof -
    have "mark ps ((g_done s)(pd_comp p := True)) = mark (p # ps) (g_done s)" by (auto simp: mark_def fun_eq_iff)
    then show ?thesis using Cons.IH [of ?s] by (simp del: fun_upd_apply)
  qed
  ultimately show ?case by (rule converse_rtranclp_into_rtranclp)
qed

definition commit_all :: "pending list \<Rightarrow> pending theap \<Rightarrow> bytes \<Rightarrow> gc_state \<Rightarrow> gc_state" where
  "commit_all batch h f s = s\<lparr>g_bat := BTop, g_head := 0, g_heap := h, g_pending := g_pending s - of_nat (length batch),
     g_offset := g_offset s + batch_total batch, g_file := f, g_batches := g_batches s @ [batch_order batch],
     g_done := mark (batch_order batch) (g_done s)\<rparr>"

lemma commit_run:
  assumes "g_bat s = BTop" "g_running s" "g_head s \<noteq> 0" "drain (g_head s) (g_heap s) = Some (Inr (batch, h))"
    "write_vectored ks (map pd_data (batch_order batch)) (g_offset s) (g_file s) = (Ok n, f)"
  shows "gstep\<^sup>*\<^sup>* s (commit_all batch h f s)"
proof -
  define s1 where "s1 = s\<lparr>g_bat := BWindow True\<rparr>"
  define s2 where "s2 = s1\<lparr>g_bat := BDetached True (g_head s1), g_head := 0\<rparr>"
  define s3 where "s3 = s2\<lparr>g_bat := BBatch True batch, g_heap := h\<rparr>"
  define s4 where "s4 = s3\<lparr>g_bat := BCounted True batch, g_pending := g_pending s3 - of_nat (length batch)\<rparr>"
  define s5 where "s5 = s4\<lparr>g_bat := BWrite True (batch_order batch) (g_offset s4), g_offset := g_offset s4 + batch_total batch\<rparr>"
  define s6 where "s6 = s5\<lparr>g_bat := BSignal True (batch_order batch), g_file := f, g_batches := g_batches s5 @ [batch_order batch],
               g_failed := (g_failed s5 \<or> (\<exists>e. (Ok n :: (usize, write_error) result) = Err e))\<rparr>"
  define s7 where "s7 = s6\<lparr>g_bat := BSignal True [], g_done := mark (batch_order batch) (g_done s6)\<rparr>"
  note defs = s1_def s2_def s3_def s4_def s5_def s6_def s7_def
  have "gstep s s1" using gstep.b_load [OF assms(1)] assms(2) by (simp add: s1_def)
  moreover have "gstep s1 s2" unfolding s2_def using assms(3) by (intro gstep.b_swap) (simp_all add: s1_def)
  moreover have "gstep s2 s3" unfolding s3_def using assms(4) by (intro gstep.b_walk) (simp_all add: s2_def s1_def)
  moreover have "gstep s3 s4" unfolding s4_def by (intro gstep.b_count) (simp add: s3_def)
  moreover have "gstep s4 s5" unfolding s5_def by (intro gstep.b_order) (simp add: s4_def)
  moreover have "gstep s5 s6" unfolding s6_def using assms(5)
    by (intro gstep.b_write [where off = "g_offset s4" and ks = ks]) (simp_all add: s5_def s4_def s3_def s2_def s1_def)
  moreover have "gstep\<^sup>*\<^sup>* s6 s7" unfolding s7_def by (intro signal_run) (simp add: s6_def)
  moreover have "gstep s7 (commit_all batch h f s)"
  proof -
    have "commit_all batch h f s = s7\<lparr>g_bat := (if \<not> True \<and> g_head s7 = 0 then BExit else BTop)\<rparr>"
      by (rule gc_state.equality) (simp_all add: defs commit_all_def)
    then show ?thesis by (simp only:) (rule gstep.b_again, simp add: s7_def)
  qed
  ultimately show ?thesis by (meson rtranclp.rtrancl_into_rtrancl rtranclp.rtrancl_refl rtranclp_trans)
qed

text \<open>Two records appended one after the other, committed together, and the handle dropped.\<close>

definition demo_batch :: "pending list" where
  "demo_batch = [\<lparr>pd_seq = 1, pd_data = [2], pd_comp = 1\<rparr>, \<lparr>pd_seq = 0, pd_data = [1], pd_comp = 0\<rparr>]"

definition demo_gc :: gc_state where
  "demo_gc = commit_all demo_batch Map.empty [9, 1, 2] (append_all 0 [2] 16 (append_all 0 [1] 8 (gc_new [9] True)))"

lemma demo_order: "batch_order demo_batch = [\<lparr>pd_seq = 0, pd_data = [1], pd_comp = 0\<rparr>, \<lparr>pd_seq = 1, pd_data = [2], pd_comp = 1\<rparr>]"
  by (simp add: batch_order_def demo_batch_def)

lemma demo_run: "gstep\<^sup>*\<^sup>* (gc_new [9] True) demo_gc"
proof -
  let ?s1 = "append_all 0 [1] 8 (gc_new [9] True)"
  let ?s2 = "append_all 0 [2] 16 ?s1"
  have "gstep\<^sup>*\<^sup>* (gc_new [9] True) ?s1" by (rule append_run) (simp_all add: gc_new_def)
  moreover have "gstep\<^sup>*\<^sup>* ?s1 ?s2" by (rule append_run) (simp_all add: gc_new_def append_all_def)
  moreover have "gstep\<^sup>*\<^sup>* ?s2 demo_gc"
  proof -
    have ch: "chain (g_heap ?s2) (g_head ?s2) [16, 8]" by (simp add: append_all_def gc_new_def)
    have "tn_items (g_heap ?s2) [16, 8] = demo_batch" by (simp add: append_all_def gc_new_def tn_items_def demo_batch_def)
    moreover have "g_heap ?s2 |` (- set [16, 8]) = Map.empty"
      by (auto simp: append_all_def gc_new_def restrict_map_def fun_eq_iff)
    ultimately have "drain (g_head ?s2) (g_heap ?s2) = Some (Inr (demo_batch, Map.empty))" using drain_chain [OF ch] by simp
    moreover have "write_vectored [Moves 1, Moves 1] (map pd_data (batch_order demo_batch)) (g_offset ?s2) (g_file ?s2) = (Ok 2, [9, 1, 2])"
      unfolding demo_order by (simp add: append_all_def gc_new_def write_vectored_def write_all_at_Moves pwrite_def)
    ultimately show ?thesis unfolding demo_gc_def by (intro commit_run) (simp_all add: append_all_def gc_new_def)
  qed
  ultimately show ?thesis by (meson rtranclp_trans)
qed

lemma demo_fields:
  "g_done demo_gc 1" "g_file demo_gc = [9, 1, 2]" "g_ret demo_gc 0 = Some 1" "g_log demo_gc = [[1], [2]]" "g_failed demo_gc = False"
  "g_batches demo_gc = [batch_order demo_batch]" "g_running demo_gc" "g_pc demo_gc = (\<lambda>_. GIdle)" "g_bat demo_gc = BTop" "g_head demo_gc = 0"
  by (simp_all add: demo_gc_def commit_all_def append_all_def gc_new_def mark_def demo_order)

section \<open>Properties\<close>

text \<open>C14: A signalled record is in the log: it is one of the records handed to the backend, with the
  bytes that were submitted, no record is handed over twice, every batch is in the order of the
  sequence numbers, and unless a write has failed the file is what it was before followed by these
  records.\<close>

theorem commit_is_in_the_log:
  assumes "length f0 < 2 ^ 64" "gstep\<^sup>*\<^sup>* (gc_new f0 True) s"
  shows "(\<forall>c. g_done s c \<longrightarrow> (\<exists>p \<in> set (concat (g_batches s)). pd_comp p = c \<and> pd_data p = g_log s ! c)) \<and>
    distinct (map pd_comp (concat (g_batches s))) \<and> (\<forall>b \<in> set (g_batches s). sorted (map pd_seq b)) \<and>
    (\<not> g_failed s \<and> length f0 + length (concat (g_log s)) < 2 ^ 64 \<longrightarrow> g_file s = f0 @ bytes_of (concat (g_batches s)))"
proof -
  note f = gc_inv_facts [OF gc_inv_reach [OF assms]]
  have "\<exists>p \<in> set (concat (g_batches s)). pd_comp p = c \<and> pd_data p = g_log s ! c" if "g_done s c" for c
    using f(2) f(3) [OF that] by blast
  then show ?thesis using f by blast
qed

theorem commit_is_in_the_log_witness:
  "(\<exists>p \<in> set (concat (g_batches demo_gc)). pd_comp p = 1 \<and> pd_data p = [2]) \<and> [9, 1, 2] = [9] @ bytes_of (concat (g_batches demo_gc))"
proof -
  have l: "length [9 :: u8] < 2 ^ 64" by simp
  note w = commit_is_in_the_log [OF l demo_run]
  from w have "g_done demo_gc 1 \<longrightarrow> (\<exists>p \<in> set (concat (g_batches demo_gc)). pd_comp p = 1 \<and> pd_data p = g_log demo_gc ! 1)" by blast
  moreover from w have "g_file demo_gc = [9] @ bytes_of (concat (g_batches demo_gc))" by (simp add: demo_fields)
  ultimately show ?thesis using demo_fields(1) by (simp add: demo_fields)
qed

text \<open>C15: Submission order is kept where there is one: if the \<open>append\<close> of record \<open>c\<close> had returned before
  record \<open>c'\<close> was submitted, and \<open>c'\<close> has been handed to the backend, then \<open>c\<close> has been handed over
  before it, in whatever batches they are.\<close>

theorem submission_order:
  assumes "length f0 < 2 ^ 64" "gstep\<^sup>*\<^sup>* (gc_new f0 True) s"
    "g_ret s c = Some k" "k \<le> c'" "c' \<in> pd_comp ` set (concat (g_batches s))" "length (g_log s) < 2 ^ 64"
  shows "\<exists>xs ys. concat (g_batches s) = xs @ ys \<and> c \<in> pd_comp ` set xs \<and> c' \<in> pd_comp ` set ys"
  using gc_inv_reach [OF assms(1,2)] assms(3-6) unfolding gc_inv_def place_inv_def precedes_def by blast

theorem submission_order_witness:
  "\<exists>xs ys. concat (g_batches demo_gc) = xs @ ys \<and> 0 \<in> pd_comp ` set xs \<and> 1 \<in> pd_comp ` set ys"
  by (rule submission_order [OF _ demo_run, where k = 1]) (simp_all add: demo_fields demo_order)

section \<open>Shutdown\<close>

text \<open>How much the batcher still has to do once \<open>running\<close> is cleared.\<close>

fun rank :: "bpc \<Rightarrow> nat" where
  "rank BTop = 0"
| "rank (BWindow r) = 8"
| "rank (BDetached r node) = 7"
| "rank (BBatch r b) = 6"
| "rank (BCounted r b) = 5"
| "rank (BWrite r b off) = 4"
| "rank (BSignal r ps) = 3"
| "rank bat = 0"

definition drop_bound :: "gc_state \<Rightarrow> nat" where
  "drop_bound s = card (dom (g_heap s)) + length (in_hand (g_bat s)) + length (to_signal (g_bat s)) +
     rank (g_bat s) + (if saw_running (g_bat s) then 9 else 0)"

lemma drop_step:
  assumes "gstep s s'" "ginv f0 s" "\<not> g_running s"
  shows "\<not> g_running s' \<and> drop_bound s' < drop_bound s"
proof -
  obtain as ds where i: "mem_inv as ds s" "stop_inv as s" using assms(2) by (auto simp: ginv_def)
  note m = mem_invD [OF i(1)]
  have idle: "g_pc s t = GIdle" for t using i(2) assms(3) by (simp add: stop_inv_def)
  from assms(1) show ?thesis
  proof (cases rule: gstep.cases)
    case (b_walk r node batch h)
    have ch: "chain (g_heap s) node ds" using m(6) b_walk(2) by simp
    have h: "batch = tn_items (g_heap s) ds" "h = g_heap s |` (- set ds)" using drain_chain [OF ch m(4)] b_walk(3) by simp_all
    have sub: "set ds \<subseteq> dom (g_heap s)" by (rule chain_dom [OF ch])
    have fin: "finite (dom (g_heap s))" using m(1) idle by (simp add: stack_inv_def)
    have "dom h = dom (g_heap s) - set ds" by (auto simp: h(2))
    then have "card (dom h) + length batch = card (dom (g_heap s))"
      using card_Diff_subset [OF _ sub] card_mono [OF fin sub] distinct_card [OF m(4)] by (simp add: h(1) tn_items_def)
    then show ?thesis using b_walk assms(3) by (simp add: drop_bound_def)
  next
    case (b_walk_fault r node e)
    then show ?thesis using ginv_walk [OF assms(2) b_walk_fault(2)] by auto
  next
    case (b_again r)
    have "g_head s = 0" if "\<not> r" using i(2) that b_again(2) stack_inv_head [OF m(1)] by (simp add: stop_inv_def)
    then show ?thesis using b_again assms(3) by (auto simp: drop_bound_def)
  qed (use assms(3) idle in \<open>auto simp: drop_bound_def batch_order_def\<close>)
qed

lemma drop_run:
  assumes "(gstep ^^ k) s s'" "ginv f0 s" "\<not> g_running s"
  shows "k + drop_bound s' \<le> drop_bound s \<and> ginv f0 s' \<and> \<not> g_running s'"
  using assms
proof (induction k arbitrary: s')
  case (Suc k)
  then obtain t where t: "(gstep ^^ k) s t" "gstep t s'" by auto
  then show ?case using Suc.IH [OF t(1) Suc.prems(2,3)] drop_step [OF t(2)] ginv_step [OF t(2)] by fastforce
qed simp

text \<open>The batcher always has a step until it has left its loop.\<close>

lemma batcher_step:
  assumes "ginv f0 s" "g_bat s \<noteq> BExit"
  shows "\<exists>s'. gstep s s'"
proof (cases "g_bat s")
  case (BDetached r node)
  then show ?thesis using ginv_walk [OF assms(1) BDetached] gstep.b_walk by blast
next
  case (BWrite r b off)
  then show ?thesis using gstep.b_write [OF BWrite] surj_pair by metis
next
  case (BSignal r ps)
  then show ?thesis using gstep.b_signal gstep.b_again by (cases ps) blast+
next
  case (BFault e)
  then show ?thesis using assms(1) by (auto simp: ginv_def mem_inv_def)
next
  case (BWindow r)
  then show ?thesis using gstep.b_swap gstep.b_empty by blast
qed (use assms gstep.b_load gstep.b_count gstep.b_order in \<open>blast+\<close>)

text \<open>C20: Dropping the handle ends: once \<open>running\<close> is cleared, no run is longer than a bound that counts
  the records not yet signalled, and a run that cannot be continued has left the loop.\<close>

theorem drop_joins:
  assumes "length f0 < 2 ^ 64" "gstep\<^sup>*\<^sup>* (gc_new f0 True) s" "\<not> g_running s"
  shows "(\<forall>k s'. (gstep ^^ k) s s' \<longrightarrow> k \<le> drop_bound s) \<and>
    (\<forall>s'. gstep\<^sup>*\<^sup>* s s' \<and> (\<nexists>s''. gstep s' s'') \<longrightarrow> g_bat s' = BExit)"
proof (intro conjI allI impI)
  have i: "ginv f0 s" using gc_inv_reach [OF assms(1,2)] by (simp add: gc_inv_def)
  show "k \<le> drop_bound s" if "(gstep ^^ k) s s'" for k s' using drop_run [OF that i assms(3)] by simp
  show "g_bat s' = BExit" if "gstep\<^sup>*\<^sup>* s s' \<and> (\<nexists>s''. gstep s' s'')" for s'
    using batcher_step [OF ginv_reach [OF _ i]] that by blast
qed

text \<open>C19: Dropping the handle loses nothing: when the batcher has left its loop, the records handed to
  the backend are exactly the submitted ones, each once, every writer has been signalled, and no node
  is left allocated.\<close>

theorem drop_flushes:
  assumes "length f0 < 2 ^ 64" "gstep\<^sup>*\<^sup>* (gc_new f0 True) s" "g_bat s = BExit"
  shows "mset (map pd_data (concat (g_batches s))) = mset (g_log s) \<and> (\<forall>c. g_done s c \<longleftrightarrow> c < length (g_log s)) \<and>
    g_heap s = Map.empty"
proof -
  note g = gc_inv_reach [OF assms(1,2)]
  obtain as ds where i: "mem_inv as ds s" "acct_inv as ds s" "done_inv s" "stop_inv as s"
    using g by (auto simp: gc_inv_def ginv_def)
  note m = mem_invD [OF i(1)] and ac = acct_invD [OF i(2), folded held_def] and f = gc_inv_facts [OF g]
  have e: "as = []" "ds = []" "g_pc s t = GIdle" for t using i(4) m(6) assms(3) by (auto simp: stop_inv_def)
  then have "held s = {}" by (simp add: held_def)
  then have all: "pd_comp ` set (concat (g_batches s)) = {..<length (g_log s)}"
    using ac(4) e(1,2) assms(3) by (simp add: queued_def tn_items_def)
  have "{c. g_done s c} = {..<length (g_log s)}" using i(3) all assms(3) by (simp add: done_inv_def)
  moreover have "dom (g_heap s) = {}" using m(1) e by (simp add: stack_inv_def)
  ultimately show ?thesis using records_mset [OF f(1) all] f(2) by blast
qed

text \<open>The run above, with the handle dropped.\<close>

definition demo_stop :: gc_state where
  "demo_stop = demo_gc\<lparr>g_running := False\<rparr>"

definition demo_exit :: gc_state where
  "demo_exit = demo_stop\<lparr>g_bat := BExit\<rparr>"

lemma demo_stop_run: "gstep\<^sup>*\<^sup>* (gc_new [9] True) demo_stop" "gstep\<^sup>*\<^sup>* (gc_new [9] True) demo_exit"
proof -
  have "gstep demo_gc demo_stop" unfolding demo_stop_def by (rule gstep.stop) (simp_all add: demo_fields)
  with demo_run show s: "gstep\<^sup>*\<^sup>* (gc_new [9] True) demo_stop" by (rule rtranclp.rtrancl_into_rtrancl)
  let ?w = "demo_stop\<lparr>g_bat := BWindow (g_running demo_stop)\<rparr>"
  have "gstep demo_stop ?w" by (rule gstep.b_load) (simp add: demo_stop_def demo_fields)
  moreover have "gstep ?w demo_exit"
    using gstep.b_empty [of ?w False] by (simp add: demo_stop_def demo_exit_def demo_fields)
  ultimately show "gstep\<^sup>*\<^sup>* (gc_new [9] True) demo_exit" using s by (meson rtranclp.rtrancl_into_rtrancl)
qed

theorem drop_joins_witness: "\<not> g_running demo_stop \<and> {k. \<exists>s'. (gstep ^^ k) demo_stop s'} \<subseteq> {..9}"
proof -
  have "g_heap demo_stop = Map.empty" by (simp add: demo_stop_def demo_gc_def commit_all_def)
  then have "drop_bound demo_stop = 9" by (simp add: drop_bound_def) (simp add: demo_stop_def demo_fields)
  moreover have "\<not> g_running demo_stop" by (simp add: demo_stop_def)
  ultimately show ?thesis using drop_joins [OF _ demo_stop_run(1)] by auto
qed

theorem drop_flushes_witness: "mset (map pd_data (concat (g_batches demo_exit))) = mset [[1], [2]] \<and> g_done demo_exit 1"
  using drop_flushes [OF _ demo_stop_run(2)] demo_fields(1) by (simp add: demo_exit_def demo_stop_def demo_fields)

end
