(* ===== verification/CommitFuture.thy ===== *)
theory CommitFuture
  imports Prelude
begin

text \<open>
  The handshake between a \<open>CommitFuture\<close> and the batcher (\<open>crates/zerokv/src/group_commit.rs\<close>): the
  \<open>done\<close> flag and the slot for the waker, \<open>poll\<close> on one side and \<open>Completion::signal\<close> on the other,
  one access to shared memory per step.  A waker is a number; which ones have been called is
  recorded.
\<close>

section \<open>Model\<close>

text \<open>\<open>poll\<close>: before the first load of \<open>done\<close>, before the slot is written, before the second load, returned.\<close>

datatype poll_pc = PNew | PEnter nat | PLoaded nat | PStored nat | PPending nat | PReady

text \<open>\<open>signal\<close>: not begun, flag set, waker taken (the slot is still locked), returned.\<close>

datatype signal_pc = SIdle | SDone | SWake nat | SFin

record completion =
  cp_done :: bool
  cp_waker :: "nat option"
  cp_woken :: "nat set"
  cp_poll :: poll_pc
  cp_signal :: signal_pc

definition completion_new :: completion where
  "completion_new = \<lparr>cp_done = False, cp_waker = None, cp_woken = {}, cp_poll = PNew, cp_signal = SIdle\<rparr>"

definition poll_first :: "nat \<Rightarrow> bool \<Rightarrow> poll_pc" where
  "poll_first w d = (if d then PReady else PLoaded w)"

definition poll_second :: "nat \<Rightarrow> bool \<Rightarrow> poll_pc" where
  "poll_second w d = (if d then PReady else PPending w)"

text \<open>A future is polled at first and again after it has returned \<open>Pending\<close>, each time with some waker.\<close>

inductive cp_step :: "completion \<Rightarrow> completion \<Rightarrow> bool" where
  enter: "cp_poll s = PNew \<or> cp_poll s = PPending v \<Longrightarrow> cp_step s (s\<lparr>cp_poll := PEnter w\<rparr>)"
| first: "cp_poll s = PEnter w \<Longrightarrow> cp_step s (s\<lparr>cp_poll := poll_first w (cp_done s)\<rparr>)"
| store: "\<lbrakk>cp_poll s = PLoaded w; \<forall>v. cp_signal s \<noteq> SWake v\<rbrakk> \<Longrightarrow>
    cp_step s (s\<lparr>cp_waker := Some w, cp_poll := PStored w\<rparr>)"
| second: "cp_poll s = PStored w \<Longrightarrow> cp_step s (s\<lparr>cp_poll := poll_second w (cp_done s)\<rparr>)"
| set: "cp_signal s = SIdle \<Longrightarrow> cp_step s (s\<lparr>cp_done := True, cp_signal := SDone\<rparr>)"
| take: "cp_signal s = SDone \<Longrightarrow>
    cp_step s (s\<lparr>cp_waker := None, cp_signal := (case cp_waker s of None \<Rightarrow> SFin | Some w \<Rightarrow> SWake w)\<rparr>)"
| wake: "cp_signal s = SWake w \<Longrightarrow> cp_step s (s\<lparr>cp_woken := {w} \<union> cp_woken s, cp_signal := SFin\<rparr>)"

section \<open>No wake-up is lost\<close>

fun cp_pc_ok :: "completion \<Rightarrow> poll_pc \<Rightarrow> bool" where
  "cp_pc_ok s (PStored w) \<longleftrightarrow> cp_done s \<or> cp_waker s = Some w"
| "cp_pc_ok s (PPending w) \<longleftrightarrow>
     (cp_waker s = Some w \<and> cp_signal s \<in> {SIdle, SDone}) \<or> cp_signal s = SWake w \<or> w \<in> cp_woken s"
| "cp_pc_ok s PReady \<longleftrightarrow> cp_done s"
| "cp_pc_ok s pc \<longleftrightarrow> True"

definition cp_inv :: "completion \<Rightarrow> bool" where
  "cp_inv s \<longleftrightarrow> (cp_done s \<longleftrightarrow> cp_signal s \<noteq> SIdle) \<and> cp_pc_ok s (cp_poll s)"

lemma cp_inv_step: "cp_step s s' \<Longrightarrow> cp_inv s \<Longrightarrow> cp_inv s'"
proof (induction rule: cp_step.induct)
  case (set s)
  then show ?case by (cases "cp_poll s") (auto simp: cp_inv_def)
next
  case (take s)
  then show ?case by (cases "cp_poll s") (auto simp: cp_inv_def split: option.splits)
next
  case (wake s w)
  then show ?case by (cases "cp_poll s") (auto simp: cp_inv_def)
qed (auto simp: cp_inv_def poll_first_def poll_second_def)

lemma cp_inv_new: "cp_inv completion_new"
  by (simp add: cp_inv_def completion_new_def)

lemma cp_inv_reach: "cp_step\<^sup>*\<^sup>* completion_new s \<Longrightarrow> cp_inv s"
  by (induction rule: rtranclp_induct) (auto intro: cp_inv_step cp_inv_new)

text \<open>C21: No wake-up is lost and no future completes early: a future that returned \<open>Ready\<close> was signalled,
  and when \<open>poll\<close> has returned \<open>Pending\<close> and \<open>signal\<close> has returned, in whatever order their accesses
  came, the waker given to that \<open>poll\<close> has been called.  Polled again, the future is ready.\<close>

theorem no_lost_wakeup:
  assumes "cp_step\<^sup>*\<^sup>* completion_new s"
  shows "(cp_poll s = PReady \<longrightarrow> cp_done s) \<and>
    (cp_poll s = PPending w \<and> cp_signal s = SFin \<longrightarrow> w \<in> cp_woken s \<and> poll_first v (cp_done s) = PReady)"
  using cp_inv_reach [OF assms] by (auto simp: cp_inv_def poll_first_def)

text \<open>The signal comes between the two loads, after the slot was written.\<close>

theorem no_lost_wakeup_witness:
  "\<exists>s. cp_step\<^sup>*\<^sup>* completion_new s \<and> cp_poll s = PPending 7 \<and> cp_signal s = SFin \<and> 7 \<in> cp_woken s"
proof -
  define s1 where "s1 = completion_new\<lparr>cp_poll := PEnter 7\<rparr>"
  define s2 where "s2 = s1\<lparr>cp_poll := PLoaded 7\<rparr>"
  define s3 where "s3 = s2\<lparr>cp_waker := Some 7, cp_poll := PStored 7\<rparr>"
  define s4 where "s4 = s3\<lparr>cp_poll := PPending 7\<rparr>"
  define s5 where "s5 = s4\<lparr>cp_done := True, cp_signal := SDone\<rparr>"
  define s6 where "s6 = s5\<lparr>cp_waker := None, cp_signal := SWake 7\<rparr>"
  define s7 where "s7 = s6\<lparr>cp_woken := {7} \<union> cp_woken s6, cp_signal := SFin\<rparr>"
  note defs = s1_def s2_def s3_def s4_def s5_def s6_def s7_def completion_new_def
  have "cp_step completion_new s1" unfolding s1_def by (rule cp_step.enter) (simp add: completion_new_def)
  moreover have "cp_step s1 s2" using cp_step.first [of s1 7] by (simp add: defs poll_first_def)
  moreover have "cp_step s2 s3" unfolding s3_def by (rule cp_step.store) (simp_all add: defs)
  moreover have "cp_step s3 s4" using cp_step.second [of s3 7] by (simp add: defs poll_second_def)
  moreover have "cp_step s4 s5" unfolding s5_def by (rule cp_step.set) (simp add: defs)
  moreover have "cp_step s5 s6" using cp_step.take [of s5] by (simp add: defs)
  moreover have "cp_step s6 s7" unfolding s7_def by (rule cp_step.wake) (simp add: defs)
  ultimately have run: "cp_step\<^sup>*\<^sup>* completion_new s7" by (meson rtranclp.rtrancl_into_rtrancl rtranclp.rtrancl_refl)
  have "cp_poll s7 = PPending 7" "cp_signal s7 = SFin" by (simp_all add: defs)
  then show ?thesis using no_lost_wakeup [OF run, of 7] run by blast
qed

end
