(* ===== verification/BlockOn.thy ===== *)
theory BlockOn
  imports Prelude
begin

text \<open>
  The hand-made waker and \<open>block_on\<close>, the first part of \<open>crates/zerokv/src/executor.rs\<close>: the flag and
  the reference count behind the wakers, the thread that polls and parks, and anybody who clones,
  wakes or drops wakers, one access to shared memory per step.  The future is arbitrary: a poll
  returns when it likes and hands out as many wakers as it likes.
\<close>

section \<open>Model\<close>

text \<open>Where \<open>block_on\<close> is: at the swap of the flag, inside \<open>poll\<close>, inside \<open>park\<close>, returned.\<close>

datatype run_pc = RTop | RPoll | RPark | RDone

text \<open>
  \<open>ThreadSignal\<close> with the park token of its thread and its reference count; the wakers that exist,
  each with the number of \<open>wake_by_ref\<close> calls that have stored the flag and not yet unparked, and the
  number of \<open>wake\<close> calls at that point, which own the reference of the waker they consumed.  Waker 0
  is the one \<open>block_on\<close> made.
\<close>

record thread_signal =
  sg_awake :: bool
  sg_token :: bool
  sg_refs :: nat
  sg_wakers :: "nat \<rightharpoonup> nat"
  sg_waking :: nat
  sg_pc :: run_pc

text \<open>The state after the first lines of \<open>block_on\<close>; the thread may have a token from earlier.\<close>

definition block_on_start :: "bool \<Rightarrow> thread_signal" where
  "block_on_start tok = \<lparr>sg_awake = True, sg_token = tok, sg_refs = 2, sg_wakers = [0 \<mapsto> 0], sg_waking = 0, sg_pc = RTop\<rparr>"

text \<open>
  The waker of \<open>block_on\<close> can be used by others only while they have it borrowed from \<open>poll\<close>, and is
  not consumed before the end.  \<open>park\<close> may return without a token, anybody may unpark the thread, and
  a future may itself park.
\<close>

definition usable :: "nat \<Rightarrow> thread_signal \<Rightarrow> bool" where
  "usable i s \<longleftrightarrow> i \<in> dom (sg_wakers s) \<and> (i = 0 \<longrightarrow> sg_pc s = RPoll)"

inductive sg_step :: "thread_signal \<Rightarrow> thread_signal \<Rightarrow> bool" where
  rw_clone: "\<lbrakk>usable i s; sg_wakers s j = None; j \<noteq> 0\<rbrakk> \<Longrightarrow>
    sg_step s (s\<lparr>sg_refs := sg_refs s + 1, sg_wakers := (sg_wakers s)(j \<mapsto> 0)\<rparr>)"
| rw_wake: "\<lbrakk>sg_wakers s i = Some 0; i \<noteq> 0\<rbrakk> \<Longrightarrow>
    sg_step s (s\<lparr>sg_awake := True, sg_wakers := (sg_wakers s)(i := None), sg_waking := sg_waking s + 1\<rparr>)"
| rw_wake_unpark: "0 < sg_waking s \<Longrightarrow>
    sg_step s (s\<lparr>sg_token := True, sg_waking := sg_waking s - 1, sg_refs := sg_refs s - 1\<rparr>)"
| rw_wake_by_ref: "\<lbrakk>usable i s; sg_wakers s i = Some k\<rbrakk> \<Longrightarrow>
    sg_step s (s\<lparr>sg_awake := True, sg_wakers := (sg_wakers s)(i \<mapsto> Suc k)\<rparr>)"
| rw_by_ref_unpark: "sg_wakers s i = Some (Suc k) \<Longrightarrow>
    sg_step s (s\<lparr>sg_token := True, sg_wakers := (sg_wakers s)(i \<mapsto> k)\<rparr>)"
| rw_drop: "\<lbrakk>sg_wakers s i = Some 0; i \<noteq> 0\<rbrakk> \<Longrightarrow>
    sg_step s (s\<lparr>sg_refs := sg_refs s - 1, sg_wakers := (sg_wakers s)(i := None)\<rparr>)"
| swap: "sg_pc s = RTop \<Longrightarrow> sg_step s (s\<lparr>sg_awake := False, sg_pc := (if sg_awake s then RPoll else RPark)\<rparr>)"
| poll_pending: "\<lbrakk>sg_pc s = RPoll; sg_wakers s 0 = Some 0\<rbrakk> \<Longrightarrow> sg_step s (s\<lparr>sg_pc := RTop\<rparr>)"
| poll_ready: "\<lbrakk>sg_pc s = RPoll; sg_wakers s 0 = Some 0\<rbrakk> \<Longrightarrow>
    sg_step s (s\<lparr>sg_pc := RDone, sg_wakers := (sg_wakers s)(0 := None), sg_refs := sg_refs s - 2\<rparr>)"
| poll_parks: "\<lbrakk>sg_pc s = RPoll; sg_token s\<rbrakk> \<Longrightarrow> sg_step s (s\<lparr>sg_token := False\<rparr>)"
| park: "\<lbrakk>sg_pc s = RPark; sg_token s\<rbrakk> \<Longrightarrow> sg_step s (s\<lparr>sg_token := False, sg_pc := RTop\<rparr>)"
| park_spurious: "sg_pc s = RPark \<Longrightarrow> sg_step s (s\<lparr>sg_pc := RTop\<rparr>)"
| unpark: "sg_step s (s\<lparr>sg_token := True\<rparr>)"

section \<open>Properties\<close>

text \<open>A wake that has stored the flag and not yet unparked.\<close>

definition wake_in_progress :: "thread_signal \<Rightarrow> bool" where
  "wake_in_progress s \<longleftrightarrow> 0 < sg_waking s \<or> (\<exists>i k. sg_wakers s i = Some (Suc k))"

definition sg_inv :: "thread_signal \<Rightarrow> bool" where
  "sg_inv s \<longleftrightarrow> finite (dom (sg_wakers s)) \<and> (sg_pc s = RDone \<longleftrightarrow> sg_wakers s 0 = None) \<and>
     sg_refs s = card (dom (sg_wakers s)) + sg_waking s + (if sg_pc s = RDone then 0 else 1) \<and>
     (sg_pc s = RPark \<and> sg_awake s \<longrightarrow> sg_token s \<or> wake_in_progress s)"

lemma wake_in_progress_upd:
  assumes "\<forall>k. sg_wakers s i \<noteq> Some (Suc k)" "wake_in_progress s"
  shows "wake_in_progress (s\<lparr>sg_refs := r, sg_wakers := (sg_wakers s)(i := v)\<rparr>)"
  using assms unfolding wake_in_progress_def by simp (metis fun_upd_other)

lemma card_dom_del:
  assumes "finite (dom f)" "f i = Some k"
  shows "card (dom f) = Suc (card (dom (f(i := None))))" "0 < card (dom f)"
proof -
  have "i \<in> dom f" using assms(2) by auto
  then show "card (dom f) = Suc (card (dom (f(i := None))))" "0 < card (dom f)"
    using card_Suc_Diff1 [OF assms(1)] assms(1) by (auto simp: card_gt_0_iff)
qed

lemma sg_inv_step: "sg_step s s' \<Longrightarrow> sg_inv s \<Longrightarrow> sg_inv s'"
proof (induction rule: sg_step.induct)
  case (rw_clone i s j)
  have "j \<notin> dom (sg_wakers s)" using rw_clone.hyps(2) by auto
  then have "card (dom ((sg_wakers s)(j \<mapsto> 0))) = Suc (card (dom (sg_wakers s)))" using rw_clone.prems by (simp add: sg_inv_def)
  moreover have "wake_in_progress s \<Longrightarrow> wake_in_progress (s\<lparr>sg_refs := sg_refs s + 1, sg_wakers := (sg_wakers s)(j \<mapsto> 0)\<rparr>)"
    using rw_clone.hyps(2) by (intro wake_in_progress_upd) simp_all
  ultimately show ?case using rw_clone by (auto simp: sg_inv_def usable_def)
next
  case (rw_wake s i)
  then show ?case using card_dom_del [of "sg_wakers s" i 0] by (auto simp: sg_inv_def wake_in_progress_def)
next
  case (rw_wake_unpark s)
  then show ?case by (auto simp: sg_inv_def)
next
  case (rw_wake_by_ref i s k)
  have "wake_in_progress (s\<lparr>sg_awake := True, sg_wakers := (sg_wakers s)(i \<mapsto> Suc k)\<rparr>)"
    by (auto simp: wake_in_progress_def)
  moreover have "insert i (dom (sg_wakers s)) = dom (sg_wakers s)" using rw_wake_by_ref.hyps(2) by auto
  ultimately show ?case using rw_wake_by_ref by (auto simp: sg_inv_def)
next
  case (rw_by_ref_unpark s i k)
  have "insert i (dom (sg_wakers s)) = dom (sg_wakers s)" using rw_by_ref_unpark.hyps by auto
  then show ?case using rw_by_ref_unpark by (auto simp: sg_inv_def)
next
  case (rw_drop s i)
  have "wake_in_progress s \<Longrightarrow> wake_in_progress (s\<lparr>sg_refs := sg_refs s - 1, sg_wakers := (sg_wakers s)(i := None)\<rparr>)"
    using rw_drop.hyps(1) by (intro wake_in_progress_upd) simp_all
  then show ?case using rw_drop card_dom_del [of "sg_wakers s" i 0] by (auto simp: sg_inv_def)
next
  case (poll_ready s)
  then show ?case using card_dom_del [of "sg_wakers s" 0 0] by (auto simp: sg_inv_def)
qed (auto simp: sg_inv_def wake_in_progress_def)

lemma sg_inv_start: "sg_inv (block_on_start tok)"
  by (simp add: sg_inv_def block_on_start_def)

lemma sg_inv_reach: "sg_step\<^sup>*\<^sup>* (block_on_start tok) s \<Longrightarrow> sg_inv s"
  by (induction rule: rtranclp_induct) (auto intro: sg_inv_step sg_inv_start)

text \<open>C24: The signal behind the wakers is freed exactly once and late enough: its reference count is the
  number of parties that can still touch it, so it is zero exactly when \<open>block_on\<close> has returned and
  every waker is dropped or consumed.  And no wake is lost: when \<open>block_on\<close> is parked, the flag is set
  and every wake has finished, the thread has its token, so \<open>park\<close> returns and the future is polled
  again.\<close>

theorem block_on_wakers:
  assumes "sg_step\<^sup>*\<^sup>* (block_on_start tok) s"
  shows "sg_refs s = card (dom (sg_wakers s)) + sg_waking s + (if sg_pc s = RDone then 0 else 1) \<and>
    (sg_refs s = 0 \<longleftrightarrow> sg_pc s = RDone \<and> sg_wakers s = Map.empty \<and> sg_waking s = 0) \<and>
    (sg_pc s = RPark \<and> sg_awake s \<and> \<not> wake_in_progress s \<longrightarrow>
      sg_token s \<and> (\<exists>s1 s2. sg_step s s1 \<and> sg_step s1 s2 \<and> sg_pc s2 = RPoll))"
proof -
  have i: "sg_inv s" by (rule sg_inv_reach [OF assms])
  have "\<exists>s1 s2. sg_step s s1 \<and> sg_step s1 s2 \<and> sg_pc s2 = RPoll" if "sg_pc s = RPark" "sg_token s" "sg_awake s"
  proof -
    have "sg_step s (s\<lparr>sg_token := False, sg_pc := RTop\<rparr>)" using that by (intro sg_step.park)
    moreover have "sg_step (s\<lparr>sg_token := False, sg_pc := RTop\<rparr>) (s\<lparr>sg_token := False, sg_awake := False, sg_pc := RPoll\<rparr>)"
      using sg_step.swap [of "s\<lparr>sg_token := False, sg_pc := RTop\<rparr>"] that(3) by simp
    moreover have "sg_pc (s\<lparr>sg_token := False, sg_awake := False, sg_pc := RPoll\<rparr>) = RPoll" by simp
    ultimately show ?thesis by blast
  qed
  then show ?thesis using i by (auto simp: sg_inv_def)
qed

text \<open>A future that keeps a clone of the waker, and a wake that comes after the flag was read as false.\<close>

theorem block_on_wakers_witness:
  "\<exists>s. sg_step\<^sup>*\<^sup>* (block_on_start False) s \<and> sg_pc s = RPark \<and> sg_awake s \<and> sg_token s \<and> sg_refs s = 2"
proof -
  define s1 where "s1 = (block_on_start False)\<lparr>sg_awake := False, sg_pc := RPoll\<rparr>"
  define s2 where "s2 = s1\<lparr>sg_refs := sg_refs s1 + 1, sg_wakers := (sg_wakers s1)(7 \<mapsto> 0)\<rparr>"
  define s3 where "s3 = s2\<lparr>sg_pc := RTop\<rparr>"
  define s4 where "s4 = s3\<lparr>sg_awake := False, sg_pc := RPark\<rparr>"
  define s5 where "s5 = s4\<lparr>sg_awake := True, sg_wakers := (sg_wakers s4)(7 := None), sg_waking := sg_waking s4 + 1\<rparr>"
  define s6 where "s6 = s5\<lparr>sg_token := True, sg_waking := sg_waking s5 - 1, sg_refs := sg_refs s5 - 1\<rparr>"
  note defs = s1_def s2_def s3_def s4_def s5_def s6_def block_on_start_def
  have "sg_step (block_on_start False) s1" using sg_step.swap [of "block_on_start False"] by (simp add: defs)
  moreover have "sg_step s1 s2" unfolding s2_def by (rule sg_step.rw_clone [of 0]) (simp_all add: defs usable_def)
  moreover have "sg_step s2 s3" unfolding s3_def by (rule sg_step.poll_pending) (simp_all add: defs)
  moreover have "sg_step s3 s4" using sg_step.swap [of s3] by (simp add: defs)
  moreover have "sg_step s4 s5" unfolding s5_def by (rule sg_step.rw_wake) (simp_all add: defs)
  moreover have "sg_step s5 s6" unfolding s6_def by (rule sg_step.rw_wake_unpark) (simp add: defs)
  ultimately have run: "sg_step\<^sup>*\<^sup>* (block_on_start False) s6" by (meson rtranclp.rtrancl_into_rtrancl rtranclp.rtrancl_refl)
  have f: "sg_pc s6 = RPark" "sg_awake s6" "sg_waking s6 = 0" "sg_wakers s6 = [0 \<mapsto> 0]" by (simp_all add: defs)
  then have "\<not> wake_in_progress s6" by (auto simp: wake_in_progress_def split: if_splits)
  then show ?thesis using block_on_wakers [OF run] run f by (intro exI [of _ s6]) simp
qed

end
