(* ===== verification/Executor.thy ===== *)
theory Executor
  imports Prelude
begin

text \<open>
  The multi-task executor, the second part of \<open>crates/zerokv/src/executor.rs\<close>: the queue of ready
  tasks behind its lock, the counter of outstanding tasks, the condition variable, one thread inside
  \<open>run\<close>, and any number of threads that spawn and wake.  \<open>run\<close> takes a shared reference, but the
  executor is documented as single-threaded: one thread calls it at a time.  A task is a number, in
  the order in which tasks are counted; its future is arbitrary, so a poll may return either answer.
\<close>

section \<open>Model\<close>

text \<open>
  Where \<open>run\<close> is: outside, before it has the lock, holding the lock with the queue seen empty,
  waiting on the condition variable (notified or not), with a task popped, inside its \<open>poll\<close>.
\<close>

datatype exec_pc = XIdle | XLock | XEmpty | XWait bool | XGot nat | XPoll nat

text \<open>
  \<open>x_spawning\<close> are tasks counted and not yet pushed, \<open>x_notify\<close> the wakes that have pushed and not yet
  notified.  \<open>x_wakers\<close> are the tasks for which a waker was made.  The last two are history: the
  tasks woken since their last poll began, and the tasks completed.
\<close>

record exec =
  x_ready :: "nat list"
  x_out :: usize
  x_slot :: "nat \<Rightarrow> bool"
  x_tasks :: nat
  x_spawning :: "nat set"
  x_notify :: nat
  x_wakers :: "nat set"
  x_pc :: exec_pc
  x_woken :: "nat set"
  x_done :: "nat list"

definition exec_new :: exec where
  "exec_new = \<lparr>x_ready = [], x_out = 0, x_slot = \<lambda>_. False, x_tasks = 0, x_spawning = {}, x_notify = 0,
     x_wakers = {}, x_pc = XIdle, x_woken = {}, x_done = []\<rparr>"

text \<open>\<open>pop_front\<close> under the lock, and \<open>notify_one\<close>, which is lost unless somebody waits.\<close>

definition exec_pop :: "exec \<Rightarrow> exec" where
  "exec_pop s = (case x_ready s of [] \<Rightarrow> s\<lparr>x_pc := XEmpty\<rparr> | t # ts \<Rightarrow> s\<lparr>x_ready := ts, x_pc := XGot t\<rparr>)"

definition exec_check :: "exec \<Rightarrow> exec" where
  "exec_check s = (if x_out s = 0 then s\<lparr>x_pc := XIdle\<rparr> else s\<lparr>x_pc := XWait False\<rparr>)"

definition exec_take :: "nat \<Rightarrow> exec \<Rightarrow> exec" where
  "exec_take t s =
     (if x_slot s t
      then s\<lparr>x_slot := (x_slot s)(t := False), x_wakers := {t} \<union> x_wakers s, x_woken := x_woken s - {t}, x_pc := XPoll t\<rparr>
      else s\<lparr>x_woken := x_woken s - {t}, x_pc := XLock\<rparr>)"

definition exec_notify :: "exec \<Rightarrow> exec" where
  "exec_notify s = s\<lparr>x_notify := x_notify s - 1, x_pc := (if x_pc s = XWait False then XWait True else x_pc s)\<rparr>"

definition exec_push :: "nat \<Rightarrow> exec \<Rightarrow> exec" where
  "exec_push t s = s\<lparr>x_ready := x_ready s @ [t]\<rparr>"

inductive xstep :: "exec \<Rightarrow> exec \<Rightarrow> bool" where
  spawn: "xstep s (s\<lparr>x_tasks := x_tasks s + 1, x_out := x_out s + 1, x_slot := (x_slot s)(x_tasks s := True),
                     x_spawning := {x_tasks s} \<union> x_spawning s\<rparr>)"
| spawn_push: "\<lbrakk>t \<in> x_spawning s; x_pc s \<noteq> XEmpty\<rbrakk> \<Longrightarrow>
    xstep s (exec_push t (s\<lparr>x_spawning := x_spawning s - {t}\<rparr>))"
| wake: "\<lbrakk>t \<in> x_wakers s; x_pc s \<noteq> XEmpty\<rbrakk> \<Longrightarrow>
    xstep s (exec_push t (s\<lparr>x_notify := x_notify s + 1, x_woken := {t} \<union> x_woken s\<rparr>))"
| wake_notify: "0 < x_notify s \<Longrightarrow> xstep s (exec_notify s)"
| run: "x_pc s = XIdle \<Longrightarrow> xstep s (s\<lparr>x_pc := XLock\<rparr>)"
| pop: "x_pc s = XLock \<Longrightarrow> xstep s (exec_pop s)"
| check: "x_pc s = XEmpty \<Longrightarrow> xstep s (exec_check s)"
| resume: "x_pc s = XWait b \<Longrightarrow> xstep s (s\<lparr>x_pc := XLock\<rparr>)"
| take: "x_pc s = XGot t \<Longrightarrow> xstep s (exec_take t s)"
| pending: "x_pc s = XPoll t \<Longrightarrow> xstep s (s\<lparr>x_slot := (x_slot s)(t := True), x_pc := XLock\<rparr>)"
| ready: "x_pc s = XPoll t \<Longrightarrow> xstep s (s\<lparr>x_out := x_out s - 1, x_done := x_done s @ [t], x_pc := XLock\<rparr>)"

lemmas exec_defs = exec_pop_def exec_check_def exec_take_def exec_notify_def exec_push_def

section \<open>Invariant\<close>

text \<open>Tasks that are in the queue, on their way into it, or just popped.\<close>

definition x_due :: "exec \<Rightarrow> nat set" where
  "x_due s = set (x_ready s) \<union> x_spawning s \<union> (case x_pc s of XGot t \<Rightarrow> {t} | _ \<Rightarrow> {})"

text \<open>
  Every task is in its slot, being polled or completed.  The counter is their number.  A task that
  was never polled, or was woken since, is due.
\<close>

definition x_polling :: "exec \<Rightarrow> nat set" where
  "x_polling s = (case x_pc s of XPoll t \<Rightarrow> {t} | _ \<Rightarrow> {})"

definition xinv :: "exec \<Rightarrow> bool" where
  "xinv s \<longleftrightarrow>
     {t. x_slot s t} \<union> x_polling s \<union> set (x_done s) = {..<x_tasks s} \<and>
     {t. x_slot s t} \<inter> x_polling s = {} \<and> {t. x_slot s t} \<inter> set (x_done s) = {} \<and> x_polling s \<inter> set (x_done s) = {} \<and>
     distinct (x_done s) \<and> x_out s = of_nat (x_tasks s) - of_nat (length (x_done s)) \<and>
     x_wakers s \<subseteq> {..<x_tasks s} \<and> x_polling s \<subseteq> x_wakers s \<and> x_due s \<subseteq> {..<x_tasks s} \<and>
     {t. x_slot s t} - x_wakers s \<subseteq> x_due s \<and> x_woken s \<subseteq> x_due s \<and>
     (x_pc s = XEmpty \<longrightarrow> x_ready s = [])"

text \<open>
  A task is pushed by \<open>spawn\<close> once, before it has a waker.  While \<open>run\<close> waits, the queue holds woken
  tasks and tasks never polled, and \<open>run\<close> has been notified of the wakes or will be.
\<close>

definition x_queued :: "exec \<Rightarrow> nat set" where
  "x_queued s = set (x_ready s) \<union> (case x_pc s of XGot t \<Rightarrow> {t} | _ \<Rightarrow> {})"

definition xwake_inv :: "exec \<Rightarrow> bool" where
  "xwake_inv s \<longleftrightarrow>
     x_woken s \<subseteq> x_wakers s \<and> x_spawning s \<inter> (x_wakers s \<union> x_queued s) = {} \<and>
     (x_pc s \<in> range XWait \<longrightarrow> set (x_ready s) \<inter> x_wakers s \<subseteq> x_woken s) \<and>
     (x_pc s = XWait False \<and> x_woken s \<noteq> {} \<longrightarrow> 0 < x_notify s)"

lemma xinv_new: "xinv exec_new"
  by (simp add: xinv_def exec_new_def x_due_def x_polling_def)

lemma xinvD:
  assumes "xinv s"
  shows "{t. x_slot s t} \<union> x_polling s \<union> set (x_done s) = {..<x_tasks s}"
    "{t. x_slot s t} \<inter> x_polling s = {}" "{t. x_slot s t} \<inter> set (x_done s) = {}" "x_polling s \<inter> set (x_done s) = {}"
    "distinct (x_done s)" "x_out s = of_nat (x_tasks s) - of_nat (length (x_done s))"
    "x_wakers s \<subseteq> {..<x_tasks s}" "x_polling s \<subseteq> x_wakers s" "x_due s \<subseteq> {..<x_tasks s}"
    "{t. x_slot s t} - x_wakers s \<subseteq> x_due s" "x_woken s \<subseteq> x_due s"
    "x_pc s = XEmpty \<longrightarrow> x_ready s = []"
  using assms unfolding xinv_def by - (elim conjE, assumption)+

lemma xinv_spawn:
  assumes "xinv s"
  shows "xinv (s\<lparr>x_tasks := x_tasks s + 1, x_out := x_out s + 1, x_slot := (x_slot s)(x_tasks s := True),
    x_spawning := {x_tasks s} \<union> x_spawning s\<rparr>)" (is "xinv ?s")
proof -
  note i = xinvD [OF assms]
  have n: "x_tasks s \<notin> x_polling s" "x_tasks s \<notin> set (x_done s)" using i(1) by blast+
  have f: "{t. x_slot ?s t} = insert (x_tasks s) {t. x_slot s t}" "x_polling ?s = x_polling s" "x_due ?s = insert (x_tasks s) (x_due s)"
    by (auto simp: x_polling_def x_due_def)
  have "x_tasks s \<notin> {t. x_slot s t}" using i(1) by blast
  then show ?thesis unfolding xinv_def f
    using i n by (auto simp: lessThan_Suc i(1) [symmetric] algebra_simps)
qed

lemma xinv_take:
  assumes "xinv s" "x_pc s = XGot t"
  shows "xinv (exec_take t s)"
proof -
  note i = xinvD [OF assms(1)]
  have p: "x_polling s = {}" "t \<in> x_due s" using assms(2) by (simp_all add: x_polling_def x_due_def)
  have d: "x_due s - {t} \<subseteq> set (x_ready s) \<union> x_spawning s" "set (x_ready s) \<union> x_spawning s \<subseteq> x_due s"
    using assms(2) by (auto simp: x_due_def)
  show ?thesis
  proof (cases "x_slot s t")
    case True
    let ?s = "exec_take t s"
    have f: "{u. x_slot ?s u} = {u. x_slot s u} - {t}" "x_polling ?s = {t}" "x_due ?s = set (x_ready s) \<union> x_spawning s"
      "x_done ?s = x_done s" "x_tasks ?s = x_tasks s" "x_wakers ?s = insert t (x_wakers s)" "x_woken ?s = x_woken s - {t}"
      "x_out ?s = x_out s" "x_pc ?s \<noteq> XWait False \<and> x_pc ?s \<noteq> XEmpty"
      using True by (auto simp: exec_take_def x_polling_def x_due_def)
    show ?thesis unfolding xinv_def f
    proof (intro conjI)
      show "{u. x_slot s u} - {t} \<union> {t} \<union> set (x_done s) = {..<x_tasks s}" using i(1) p(1) True by blast
      show "{t} \<inter> set (x_done s) = {}" "({u. x_slot s u} - {t}) \<inter> set (x_done s) = {}" using i(3) True by blast+
      show "insert t (x_wakers s) \<subseteq> {..<x_tasks s}" "set (x_ready s) \<union> x_spawning s \<subseteq> {..<x_tasks s}"
        using i(1,7,9) True d(2) by blast+
      show "{u. x_slot s u} - {t} - insert t (x_wakers s) \<subseteq> set (x_ready s) \<union> x_spawning s"
        "x_woken s - {t} \<subseteq> set (x_ready s) \<union> x_spawning s" using i(10,11) d(1) by blast+
    qed (use i f(9) in simp_all)
  next
    case False
    let ?s = "exec_take t s"
    have f: "{u. x_slot ?s u} = {u. x_slot s u}" "x_polling ?s = {}" "x_due ?s = set (x_ready s) \<union> x_spawning s"
      "x_done ?s = x_done s" "x_tasks ?s = x_tasks s" "x_wakers ?s = x_wakers s" "x_woken ?s = x_woken s - {t}"
      "x_out ?s = x_out s" "x_pc ?s \<noteq> XWait False \<and> x_pc ?s \<noteq> XEmpty"
      using False by (auto simp: exec_take_def x_polling_def x_due_def)
    show ?thesis unfolding xinv_def f
    proof (intro conjI)
      show "set (x_ready s) \<union> x_spawning s \<subseteq> {..<x_tasks s}" using i(9) d(2) by blast
      show "{u. x_slot s u} - x_wakers s \<subseteq> set (x_ready s) \<union> x_spawning s"
        "x_woken s - {t} \<subseteq> set (x_ready s) \<union> x_spawning s" using i(10,11) d(1) False by blast+
    qed (use i p f(9) in simp_all)
  qed
qed

lemma xinv_step: "xstep s s' \<Longrightarrow> xinv s \<Longrightarrow> xinv s'"
proof (induction rule: xstep.induct)
  case (spawn s)
  then show ?case by (rule xinv_spawn)
next
  case (spawn_push t s)
  then show ?case by (auto simp: xinv_def exec_push_def x_due_def x_polling_def)
next
  case (wake t s)
  then show ?case by (auto simp: xinv_def exec_push_def x_due_def x_polling_def)
next
  case (wake_notify s)
  then show ?case by (auto simp: xinv_def exec_notify_def x_due_def x_polling_def)
next
  case (run s)
  then show ?case by (auto simp: xinv_def x_due_def x_polling_def)
next
  case (pop s)
  then show ?case by (auto simp: xinv_def exec_pop_def x_due_def x_polling_def split: list.splits)
next
  case (check s)
  then show ?case by (auto simp: xinv_def exec_check_def x_due_def x_polling_def)
next
  case (resume s b)
  then show ?case by (auto simp: xinv_def x_due_def x_polling_def)
next
  case (take s t)
  then show ?case by (intro xinv_take)
next
  case (pending s t)
  then show ?case by (auto simp: xinv_def x_due_def x_polling_def)
next
  case (ready s t)
  then show ?case by (auto simp: xinv_def x_due_def x_polling_def)
qed

lemma xinv_reach: "xstep\<^sup>*\<^sup>* exec_new s \<Longrightarrow> xinv s"
  by (induction rule: rtranclp_induct) (auto intro: xinv_step xinv_new)

lemma xwake_inv_step: "xstep s s' \<Longrightarrow> xinv s \<Longrightarrow> xwake_inv s \<Longrightarrow> xwake_inv s'"
proof (induction rule: xstep.induct)
  case (spawn s)
  have "x_tasks s \<notin> x_wakers s \<union> x_queued s"
    using xinvD(7,9) [OF spawn.prems(1)] by (auto simp: x_due_def x_queued_def)
  then show ?case using spawn.prems(2) by (auto simp: xwake_inv_def x_queued_def)
next
  case (check s)
  then have "x_due s = x_spawning s" using xinvD(12) by (simp add: x_due_def)
  then have "x_woken s = {}" using check.prems xinvD(11) [OF check.prems(1)] by (auto simp: xwake_inv_def)
  then show ?case using check.prems(2) xinvD(12) [OF check.prems(1)] check.hyps
    by (auto simp: xwake_inv_def exec_check_def x_queued_def)
next
  case (pop s)
  then show ?case by (auto simp: xwake_inv_def exec_pop_def x_queued_def split: list.splits)
qed (auto simp: xwake_inv_def exec_defs x_queued_def)

lemma xwake_inv_reach: "xstep\<^sup>*\<^sup>* exec_new s \<Longrightarrow> xwake_inv s"
proof (induction rule: rtranclp_induct)
  case base
  then show ?case by (simp add: xwake_inv_def exec_new_def x_queued_def)
qed (use xinv_reach xwake_inv_step in blast)

section \<open>Properties\<close>

text \<open>The counter is zero exactly when every task has completed.\<close>

lemma out_zero:
  assumes "xinv s" "x_tasks s < 2 ^ 64"
  shows "x_out s = 0 \<longleftrightarrow> set (x_done s) = {..<x_tasks s}"
proof -
  note i = xinvD [OF assms(1)]
  have c: "card (set (x_done s)) = length (x_done s)" by (rule distinct_card [OF i(5)])
  have sub: "set (x_done s) \<subseteq> {..<x_tasks s}" using i(1) by blast
  then have le: "length (x_done s) \<le> x_tasks s" using card_mono [OF _ sub] c by simp
  have "x_out s = 0 \<longleftrightarrow> (of_nat (x_tasks s) :: usize) = of_nat (length (x_done s))" using i(6) by simp
  also have "\<dots> \<longleftrightarrow> x_tasks s = length (x_done s)" using le assms(2) by (simp add: word_of_nat_eq_iff take_bit_eq_mod)
  also have "\<dots> \<longleftrightarrow> set (x_done s) = {..<x_tasks s}" using card_subset_eq [OF finite_lessThan sub] c by (metis card_lessThan)
  finally show ?thesis .
qed

text \<open>
  C25: With one thread in \<open>run\<close> and fewer than \<open>2 ^ 64\<close> tasks, the executor drives every task to its
  end: \<open>run\<close> with an empty queue returns exactly when all tasks spawned so far have completed; no
  task completes twice or is polled after it has completed; a task that was never polled, or was
  woken since its last poll began, is in the queue or on its way to \<open>poll\<close>.  And no wake is slept
  through: when \<open>run\<close> waits, is not notified and no notification is on its way, then no task has been
  woken since its last poll began, and the queue holds only tasks that were spawned and never polled.
\<close>

theorem run_completes_all:
  assumes "xstep\<^sup>*\<^sup>* exec_new s" "x_tasks s < 2 ^ 64"
  shows "(x_pc s = XEmpty \<longrightarrow> (x_pc (exec_check s) = XIdle \<longleftrightarrow> set (x_done s) = {..<x_tasks s})) \<and>
    distinct (x_done s) \<and> x_polling s \<inter> set (x_done s) = {} \<and>
    (\<forall>t < x_tasks s. t \<notin> set (x_done s) \<union> x_polling s \<and> (t \<notin> x_wakers s \<or> t \<in> x_woken s) \<longrightarrow> t \<in> x_due s) \<and>
    (x_pc s = XWait False \<and> x_notify s = 0 \<longrightarrow> x_woken s = {} \<and> set (x_ready s) \<inter> x_wakers s = {})"
proof -
  have iv: "xinv s" by (rule xinv_reach [OF assms(1)])
  note i = xinvD [OF iv]
  have "x_pc (exec_check s) = XIdle \<longleftrightarrow> x_out s = 0" by (simp add: exec_check_def)
  moreover have "t \<in> x_due s" if "t < x_tasks s" "t \<notin> set (x_done s) \<union> x_polling s" "t \<notin> x_wakers s \<or> t \<in> x_woken s" for t
  proof -
    have "x_slot s t" using that(1,2) i(1) by blast
    then show ?thesis using that(3) i(10,11) by blast
  qed
  moreover have "x_woken s = {} \<and> set (x_ready s) \<inter> x_wakers s = {}" if "x_pc s = XWait False \<and> x_notify s = 0"
    using xwake_inv_reach [OF assms(1)] that by (auto simp: xwake_inv_def)
  ultimately show ?thesis using out_zero [OF iv assms(2)] i(4,5) by blast
qed

text \<open>One task that waits for a wake, and \<open>run\<close> waiting for it.\<close>

definition demo_exec :: exec where
  "demo_exec = \<lparr>x_ready = [], x_out = 1, x_slot = (\<lambda>_. False)(0 := True), x_tasks = 1, x_spawning = {}, x_notify = 0,
     x_wakers = {0}, x_pc = XEmpty, x_woken = {}, x_done = []\<rparr>"

lemma demo_exec_run: "xstep\<^sup>*\<^sup>* exec_new demo_exec"
proof -
  define s1 where "s1 = exec_new\<lparr>x_tasks := 1, x_out := 1, x_slot := (\<lambda>_. False)(0 := True), x_spawning := {0}\<rparr>"
  define s2 where "s2 = s1\<lparr>x_spawning := {}, x_ready := [0]\<rparr>"
  define s3 where "s3 = s2\<lparr>x_pc := XLock\<rparr>"
  define s4 where "s4 = s3\<lparr>x_ready := [], x_pc := XGot 0\<rparr>"
  define s5 where "s5 = s4\<lparr>x_slot := \<lambda>_. False, x_wakers := {0}, x_pc := XPoll 0\<rparr>"
  define s6 where "s6 = s5\<lparr>x_slot := (\<lambda>_. False)(0 := True), x_pc := XLock\<rparr>"
  note defs = s1_def s2_def s3_def s4_def s5_def s6_def exec_new_def
  have "xstep exec_new s1" using xstep.spawn [of exec_new] by (simp add: defs)
  moreover have "xstep s1 s2" using xstep.spawn_push [of 0 s1] by (simp add: defs exec_push_def)
  moreover have "xstep s2 s3" unfolding s3_def by (rule xstep.run) (simp add: defs)
  moreover have "xstep s3 s4" using xstep.pop [of s3] by (simp add: defs exec_pop_def)
  moreover have "xstep s4 s5" using xstep.take [of s4 0] by (simp add: defs exec_take_def fun_upd_idem)
  moreover have "xstep s5 s6" using xstep.pending [of s5 0] by (simp add: defs)
  moreover have "xstep s6 demo_exec" using xstep.pop [of s6] by (simp add: defs exec_pop_def demo_exec_def)
  ultimately show ?thesis by (meson rtranclp.rtrancl_into_rtrancl rtranclp.rtrancl_refl)
qed

text \<open>The same after \<open>run\<close> has gone to sleep and another thread has spawned a second task.\<close>

definition late_exec :: exec where
  "late_exec = demo_exec\<lparr>x_pc := XWait False, x_tasks := 2, x_out := 2, x_slot := (x_slot demo_exec)(1 := True), x_ready := [1]\<rparr>"

lemma late_exec_run: "xstep\<^sup>*\<^sup>* exec_new late_exec"
proof -
  define s1 where "s1 = demo_exec\<lparr>x_pc := XWait False\<rparr>"
  define s2 where "s2 = s1\<lparr>x_tasks := 2, x_out := 2, x_slot := (x_slot s1)(1 := True), x_spawning := {1}\<rparr>"
  note defs = s1_def s2_def late_exec_def demo_exec_def
  have "xstep demo_exec s1" using xstep.check [of demo_exec] by (simp add: defs exec_check_def)
  moreover have "xstep s1 s2" using xstep.spawn [of s1] by (simp add: defs numeral_2_eq_2)
  moreover have "xstep s2 late_exec" using xstep.spawn_push [of 1 s2] by (simp add: defs exec_push_def)
  ultimately show ?thesis using demo_exec_run by (meson rtranclp.rtrancl_into_rtrancl)
qed

theorem run_completes_all_witness:
  "x_pc (exec_check demo_exec) \<noteq> XIdle \<and> distinct (x_done demo_exec) \<and>
   x_pc late_exec = XWait False \<and> x_ready late_exec = [1] \<and> 1 \<notin> x_wakers late_exec \<and> 1 \<in> x_due late_exec"
  using run_completes_all [OF demo_exec_run] run_completes_all [OF late_exec_run]
  by (auto simp: late_exec_def demo_exec_def lessThan_Suc x_polling_def)

text \<open>\<open>spawn\<close> does not notify: when \<open>run\<close> already waits, a task spawned by another thread stays in the
  queue with nobody told, and nothing but a spurious wake-up of the condition variable or a later
  wake of some other task ends the wait.\<close>

lemma late_spawn_is_not_noticed:
  "xstep\<^sup>*\<^sup>* exec_new late_exec \<and> x_pc late_exec = XWait False \<and> x_ready late_exec = [1] \<and> x_slot late_exec 1 \<and>
    x_notify late_exec = 0 \<and> x_spawning late_exec = {} \<and>
    {s'. xstep late_exec s' \<and> x_pc s' \<noteq> XWait False} = {late_exec\<lparr>x_pc := XLock\<rparr>}"
proof -
  have f: "x_pc late_exec = XWait False" "x_ready late_exec = [1]" "x_slot late_exec 1" "x_notify late_exec = 0"
    "x_spawning late_exec = {}" by (simp_all add: late_exec_def demo_exec_def)
  have "s' = late_exec\<lparr>x_pc := XLock\<rparr>" if "xstep late_exec s'" "x_pc s' \<noteq> XWait False" for s'
    using that(1) by (cases rule: xstep.cases) (use that(2) f in \<open>auto simp: exec_defs\<close>)
  moreover have "xstep late_exec (late_exec\<lparr>x_pc := XLock\<rparr>)" using f(1) by (rule xstep.resume)
  moreover have "x_pc (late_exec\<lparr>x_pc := XLock\<rparr>) \<noteq> XWait False" by simp
  ultimately have "{s'. xstep late_exec s' \<and> x_pc s' \<noteq> XWait False} = {late_exec\<lparr>x_pc := XLock\<rparr>}" by blast
  then show ?thesis using late_exec_run f by blast
qed

end
