(* ===== verification/DirectRead.thy ===== *)
theory DirectRead
  imports MmapLog
begin

text \<open>
  The page-aligned buffer and the two-poll read, the third part of \<open>crates/zerokv/src/executor.rs\<close>,
  driven by the loop of \<open>block_on\<close> on one thread.  Live allocations are a map from addresses to sizes,
  as in the log, and the allocator is an argument.
\<close>

section \<open>The buffer\<close>

record aligned_buf =
  ab_ptr :: usize
  ab_len :: usize
  ab_mem :: bytes

definition ab_new :: "page_alloc \<Rightarrow> usize \<Rightarrow> heap \<Rightarrow> (aligned_buf \<times> heap) res" where
  "ab_new al len0 h =
     (let len = round_page len0 in
      if \<not> layout_ok len then Inl Panic
      else if len = 0 then Inl UB
      else let ptr = al h len in
        if ptr = 0 then Inl Abort
        else Inr (\<lparr>ab_ptr = ptr, ab_len = len, ab_mem = replicate (unat len) 0\<rparr>, h(ptr \<mapsto> len)))"

definition ab_slice :: "aligned_buf \<Rightarrow> bytes res" where
  "ab_slice b = (if length (ab_mem b) < unat (ab_len b) then Inl UB else Inr (take (unat (ab_len b)) (ab_mem b)))"

text \<open>\<open>as_mut_slice()[..n].copy_from_slice(xs)\<close> with \<open>n\<close> the length of \<open>xs\<close>.\<close>

definition ab_copy :: "bytes \<Rightarrow> aligned_buf \<Rightarrow> aligned_buf res" where
  "ab_copy xs b =
     (if length (ab_mem b) < unat (ab_len b) then Inl UB
      else if unat (ab_len b) < length xs then Inl Panic
      else Inr (b\<lparr>ab_mem := write_at 0 xs (ab_mem b)\<rparr>))"

definition ab_drop :: "aligned_buf \<Rightarrow> heap \<Rightarrow> heap res" where
  "ab_drop b h =
     (if \<not> layout_ok (ab_len b) then Inl Panic
      else if h (ab_ptr b) = Some (ab_len b) then Inr (h(ab_ptr b := None)) else Inl UB)"

section \<open>The future\<close>

record direct_read =
  dr_buf :: aligned_buf
  dr_source :: bytes
  dr_submitted :: bool

datatype 'v poll = Ready 'v | Pending

definition dr_len :: "bytes \<Rightarrow> usize \<Rightarrow> usize" where
  "dr_len source buf_len = max buf_len (of_nat (length source))"

definition dr_new :: "page_alloc \<Rightarrow> bytes \<Rightarrow> usize \<Rightarrow> heap \<Rightarrow> (direct_read \<times> heap) res" where
  "dr_new al source buf_len h =
     try_bind (ab_new al (dr_len source buf_len) h)
       (\<lambda>(b, h'). Inr (\<lparr>dr_buf = b, dr_source = source, dr_submitted = False\<rparr>, h'))"

definition ALIGN_OUT :: usize where
  "ALIGN_OUT = 4096"

text \<open>A poll returns its answer, the future and the heap afterwards, and whether it has woken its waker.\<close>

definition dr_poll :: "page_alloc \<Rightarrow> direct_read \<times> heap \<Rightarrow> (aligned_buf poll \<times> (direct_read \<times> heap) \<times> bool) res" where
  "dr_poll al = (\<lambda>(f, h).
     if \<not> dr_submitted f then Inr (Pending, (f\<lparr>dr_submitted := True\<rparr>, h), True)
     else try_bind (ab_copy (dr_source f) (dr_buf f)) (\<lambda>b.
       try_bind (ab_new al ALIGN_OUT h) (\<lambda>(fresh, h'). Inr (Ready b, (f\<lparr>dr_buf := fresh\<rparr>, h'), False))))"

definition dr_drop :: "direct_read \<Rightarrow> heap \<Rightarrow> heap res" where
  "dr_drop f h = ab_drop (dr_buf f) h"

text \<open>
  The loop of \<open>block_on\<close> when nobody else has a waker: without a wake the thread parks for ever, which
  is the value None.
\<close>

partial_function (option) block_on ::
    "('f \<Rightarrow> ('v poll \<times> 'f \<times> bool) res) \<Rightarrow> bool \<Rightarrow> 'f \<Rightarrow> ('v \<times> 'f) run" where
  "block_on poll awake f =
     (if \<not> awake then None
      else case poll f of
        Inl e \<Rightarrow> Some (Inl e)
      | Inr (Ready v, f', woken) \<Rightarrow> Some (Inr (v, f'))
      | Inr (Pending, f', woken) \<Rightarrow> block_on poll woken f')"

text \<open>\<open>block_on(DirectIoRead::new(source, buf_len))\<close>; the future is dropped at the end.\<close>

definition read_direct :: "page_alloc \<Rightarrow> bytes \<Rightarrow> usize \<Rightarrow> heap \<Rightarrow> (aligned_buf \<times> heap) run" where
  "read_direct al source buf_len h =
     (case dr_new al source buf_len h of
        Inl e \<Rightarrow> Some (Inl e)
      | Inr fh \<Rightarrow> run_bind (block_on (dr_poll al) True fh) (\<lambda>(b, f, h').
          case dr_drop f h' of Inl e \<Rightarrow> Some (Inl e) | Inr h'' \<Rightarrow> Some (Inr (b, h''))))"

section \<open>Properties\<close>

lemma round_up_le: "(x + 4095) div 4096 * 4096 \<le> k * 4096 \<longleftrightarrow> x \<le> k * (4096 :: nat)"
proof -
  have "(x + 4095) div 4096 * 4096 \<le> k * 4096 \<longleftrightarrow> (x + 4095) div 4096 < k + 1" by (simp add: less_Suc_eq_le)
  also have "\<dots> \<longleftrightarrow> x + 4095 < (k + 1) * 4096" by (simp add: div_less_iff_less_mult)
  finally show ?thesis by (simp add: less_Suc_eq_le)
qed

lemma round_page_fits:
  assumes "unat n \<le> 2 ^ 63 - 4096"
  shows "layout_ok (round_page n)" "unat n \<le> unat (round_page n)"
proof -
  have r: "unat (round_page n) = (unat n + 4095) div 4096 * 4096" using round_page_nat [of n] assms by simp
  then show "layout_ok (round_page n)" using round_up_le [of "unat n" "2 ^ 51 - 1"] assms by (simp add: layout_ok_def)
  show "unat n \<le> unat (round_page n)" unfolding r
    using div_mult_mod_eq [of "unat n + 4095" 4096] mod_less_divisor [of 4096 "unat n + 4095"] by linarith
qed

lemma ab_new_cases:
  "ab_new al n h =
     (if n = 0 \<or> 2 ^ 64 - 4096 < unat n then Inl UB
      else if 2 ^ 63 - 4096 < unat n then Inl Panic
      else if al h (round_page n) = 0 then Inl Abort
      else Inr (\<lparr>ab_ptr = al h (round_page n), ab_len = round_page n, ab_mem = replicate (unat (round_page n)) 0\<rparr>,
                h(al h (round_page n) \<mapsto> round_page n)))"
proof -
  have n: "unat n < 2 ^ 64" using unsigned_less [of n, where ?'a = nat] by simp
  note r = round_page_nat [of n]
  have z: "round_page n = 0 \<longleftrightarrow> n = 0 \<or> 2 ^ 64 - 4096 < unat n"
  proof -
    have "round_page n = 0 \<longleftrightarrow> (unat n + 4095) mod 2 ^ 64 div 4096 = 0" using r by (simp add: word_unat_eq_iff)
    also have "\<dots> \<longleftrightarrow> unat n = 0 \<or> 2 ^ 64 - 4096 < unat n"
      using n by (cases "unat n + 4095 < 2 ^ 64") (auto simp: mod_if div_eq_0_iff)
    finally show ?thesis by (simp add: word_unat_eq_iff)
  qed
  have "layout_ok (round_page n) \<longleftrightarrow> round_page n = 0 \<or> unat n \<le> 2 ^ 63 - 4096"
  proof (cases "unat n + 4095 < 2 ^ 64")
    case True
    then have "unat (round_page n) = (unat n + 4095) div 4096 * 4096" using r by simp
    moreover have "(unat n + 4095) div 4096 * 4096 \<le> 2 ^ 63 - 4096 \<longleftrightarrow> unat n \<le> 2 ^ 63 - 4096"
      using round_up_le [of "unat n" "2 ^ 51 - 1"] by simp
    ultimately show ?thesis by (auto simp: layout_ok_def)
  next
    case False
    then have "round_page n = 0" using z n by simp
    then show ?thesis by (simp add: layout_ok_def)
  qed
  then show ?thesis using z by (auto simp: ab_new_def Let_def)
qed

lemma block_on_step:
  "poll f = Inr (Pending, f', w) \<Longrightarrow> block_on poll True f = block_on poll w f'"
  "poll f = Inr (Ready v, f', w) \<Longrightarrow> block_on poll True f = Some (Inr (v, f'))"
  "poll f = Inl e \<Longrightarrow> block_on poll True f = Some (Inl e)"
  by (subst block_on.simps; simp)+

text \<open>What the two polls do to a future with room for its source.\<close>

lemma dr_block_on:
  assumes "length (ab_mem b) = unat (ab_len b)" "length source \<le> unat (ab_len b)"
  shows "block_on (dr_poll al) True (\<lparr>dr_buf = b, dr_source = source, dr_submitted = False\<rparr>, h) =
    (case ab_new al ALIGN_OUT h of
       Inl e \<Rightarrow> Some (Inl e)
     | Inr (fresh, h') \<Rightarrow> Some (Inr (b\<lparr>ab_mem := source @ drop (length source) (ab_mem b)\<rparr>,
         \<lparr>dr_buf = fresh, dr_source = source, dr_submitted = True\<rparr>, h')))"
proof -
  let ?f = "\<lparr>dr_buf = b, dr_source = source, dr_submitted = False\<rparr>"
  have "dr_poll al (?f, h) = Inr (Pending, (?f\<lparr>dr_submitted := True\<rparr>, h), True)" by (simp add: dr_poll_def)
  then have "block_on (dr_poll al) True (?f, h) = block_on (dr_poll al) True (?f\<lparr>dr_submitted := True\<rparr>, h)" by (rule block_on_step(1))
  moreover have "ab_copy source b = Inr (b\<lparr>ab_mem := source @ drop (length source) (ab_mem b)\<rparr>)"
    using assms by (simp add: ab_copy_def write_at_def)
  then have "dr_poll al (?f\<lparr>dr_submitted := True\<rparr>, h) = (case ab_new al ALIGN_OUT h of Inl e \<Rightarrow> Inl e
      | Inr (fresh, h') \<Rightarrow> Inr (Ready (b\<lparr>ab_mem := source @ drop (length source) (ab_mem b)\<rparr>),
          (\<lparr>dr_buf = fresh, dr_source = source, dr_submitted = True\<rparr>, h'), False))"
    by (simp add: dr_poll_def split: sum.splits prod.splits)
  ultimately show ?thesis using block_on_step(2,3) by (auto split: sum.splits prod.splits)
qed

text \<open>The run when the first buffer could be allocated, and its result when the second one could.\<close>

lemma read_direct_run:
  assumes "ab_new al (dr_len source buf_len) h = Inr (b, h1)" "length (ab_mem b) = unat (ab_len b)" "length source \<le> unat (ab_len b)"
  shows "read_direct al source buf_len h = (case ab_new al ALIGN_OUT h1 of
      Inl e \<Rightarrow> Some (Inl e)
    | Inr (fresh, h2) \<Rightarrow> (case ab_drop fresh h2 of Inl e \<Rightarrow> Some (Inl e)
        | Inr h3 \<Rightarrow> Some (Inr (b\<lparr>ab_mem := source @ drop (length source) (ab_mem b)\<rparr>, h3))))"
  using assms dr_block_on [OF assms(2,3), of al h1]
  by (auto simp: read_direct_def dr_new_def dr_drop_def split: sum.splits)

lemma alloc_out:
  "ab_new al ALIGN_OUT h = (if al h 4096 = 0 then Inl Abort
     else Inr (\<lparr>ab_ptr = al h 4096, ab_len = 4096, ab_mem = replicate 4096 0\<rparr>, h(al h 4096 \<mapsto> 4096)))"
proof -
  have "round_page ALIGN_OUT = 4096" by (simp add: round_page_def ALIGN_OUT_def PAGE_def)
  then show ?thesis by (simp add: ab_new_cases) (simp add: ALIGN_OUT_def)
qed

lemma alloc_drop:
  assumes "page_allocator al" "al h sz \<noteq> 0" "layout_ok (ab_len b)" "ab_ptr b = al h sz" "ab_len b = sz"
  shows "ab_drop b (h(al h sz \<mapsto> sz)) = Inr h"
proof -
  have "h (al h sz) = None" using assms(1,2) unfolding page_allocator_def by blast
  then show ?thesis using assms(3-5) by (simp add: ab_drop_def fun_upd_idem)
qed

text \<open>C26: Reading through \<open>block_on\<close> always ends, after two polls.  With \<open>n\<close> the greater of the requested
  and the needed length: \<open>n = 0\<close> and a length that wraps when rounded up are undefined behaviour, a
  length beyond the limit of layouts panics, a failed allocation aborts; otherwise the result is a
  buffer of whole pages that holds the source followed by zeros, and dropping it leaves the heap as
  it was.\<close>

theorem direct_read_outcomes:
  assumes "page_allocator al" "length source < 2 ^ 63"
  shows "let n = dr_len source buf_len in if n = 0 \<or> 2 ^ 64 - 4096 < unat n then read_direct al source buf_len h = Some (Inl UB)
    else if 2 ^ 63 - 4096 < unat n then read_direct al source buf_len h = Some (Inl Panic)
    else if al h (round_page n) = 0 \<or> al (h(al h (round_page n) \<mapsto> round_page n)) 4096 = 0
    then read_direct al source buf_len h = Some (Inl Abort)
    else \<exists>b h'. read_direct al source buf_len h = Some (Inr (b, h')) \<and> ab_drop b h' = Inr h \<and> ab_len b = round_page n \<and>
        ab_slice b = Inr (source @ replicate (unat (round_page n) - length source) 0)"
proof (cases "dr_len source buf_len = 0 \<or> 2 ^ 63 - 4096 < unat (dr_len source buf_len) \<or> al h (round_page (dr_len source buf_len)) = 0")
  case True
  then show ?thesis by (auto simp: Let_def read_direct_def dr_new_def ab_new_cases)
next
  case False
  define n where "n = dr_len source buf_len"
  define r p where "r = round_page n" and "p = al h r"
  let ?b = "\<lparr>ab_ptr = p, ab_len = r, ab_mem = replicate (unat r) 0\<rparr>" and ?h = "h(p \<mapsto> r)"
  let ?c = "?b\<lparr>ab_mem := source @ drop (length source) (ab_mem ?b)\<rparr>"
  have n: "unat n \<le> 2 ^ 63 - 4096" "n \<noteq> 0" "p \<noteq> 0" using False by (auto simp: p_def r_def n_def)
  note fit = round_page_fits [OF n(1), folded r_def]
  have "of_nat (length source) \<le> n" by (simp add: n_def dr_len_def)
  then have src: "length source \<le> unat r" using fit(2) assms(2) by (simp add: word_le_nat_alt unat_of_nat)
  have "ab_new al (dr_len source buf_len) h = Inr (?b, ?h)" using n by (simp add: ab_new_cases r_def p_def flip: n_def)
  from read_direct_run [OF this] src have run: "read_direct al source buf_len h = (case ab_new al ALIGN_OUT ?h of
      Inl e \<Rightarrow> Some (Inl e)
    | Inr (fresh, h2) \<Rightarrow> (case ab_drop fresh h2 of Inl e \<Rightarrow> Some (Inl e) | Inr h3 \<Rightarrow> Some (Inr (?c, h3))))" by simp
  have "ab_drop ?c ?h = Inr h" using alloc_drop [OF assms(1), of h r ?c] n(3) fit(1) by (simp add: p_def)
  moreover have "ab_slice ?c = Inr (source @ replicate (unat r - length source) 0)" using src by (simp add: ab_slice_def)
  moreover have "read_direct al source buf_len h = (if al ?h 4096 = 0 then Some (Inl Abort) else Some (Inr (?c, ?h)))"
    using run alloc_drop [OF assms(1), of ?h 4096] by (simp add: alloc_out layout_ok_def)
  ultimately show ?thesis using n by (simp add: Let_def r_def p_def flip: n_def)
qed

text \<open>An allocator with two pages.\<close>

definition two_pages :: page_alloc where
  "two_pages h sz = (if sz \<noteq> 4096 then 0 else if h 4096 = None then 4096 else if h 8192 = None then 8192 else 0)"

theorem direct_read_outcomes_witness:
  "(\<exists>b h. read_direct two_pages [1, 2] 0 Map.empty = Some (Inr (b, h)) \<and> ab_slice b = Inr ([1, 2] @ replicate 4094 0)) \<and>
    read_direct two_pages [] 0 Map.empty = Some (Inl UB)"
proof
  have al: "page_allocator two_pages" by (auto simp: page_allocator_def two_pages_def PAGE_def)
  have "round_page 2 = 4096" by (simp add: round_page_def PAGE_def)
  then show "\<exists>b h. read_direct two_pages [1, 2] 0 Map.empty = Some (Inr (b, h)) \<and> ab_slice b = Inr ([1, 2] @ replicate 4094 0)"
    using direct_read_outcomes [OF al, of "[1, 2]" 0 Map.empty] by (auto simp: two_pages_def dr_len_def)
  show "read_direct two_pages [] 0 Map.empty = Some (Inl UB)"
    using direct_read_outcomes [OF al, of "[]" 0 Map.empty] by (simp add: dr_len_def)
qed

end
