(* ===== verification/Mesh.thy ===== *)
theory Mesh
  imports Interfaces
begin

text \<open>
  The shared-nothing mesh under a closed workload, \<open>crates/zerokv/src/mesh.rs\<close> up to \<open>run_put_workload\<close>:
  \<open>n\<close> workers, each with a private map, and two matrices of bounded channels between them.  The
  channels are the abstract ones of the FIFO interface, which the ring of \<open>spsc.rs\<close> implements.  A step
  is one access of one worker to a channel or a shared counter, with the private work around it, so
  every interleaving of the workers is a sequence of steps.
\<close>

section \<open>Messages and routing\<close>

datatype command = CPut bytes bytes | CGet bytes nat u64

record reply =
  rp_token :: u64
  rp_val :: "bytes option"

definition mesh_route :: "bytes \<Rightarrow> u64 \<Rightarrow> nat" where
  "mesh_route key msk = unat (foldl (\<lambda>h b. (h XOR ucast b) * 0x00000100000001B3) 0xcbf29ce484222325 key AND msk)"

definition mesh_size :: "usize \<Rightarrow> usize" where
  "mesh_size requested = next_power_of_two (max requested 1)"

definition mesh_cap :: nat where
  "mesh_cap = 4096"

section \<open>Workers\<close>

type_synonym put_item = "bytes \<times> bytes"

text \<open>
  What a worker does after a \<open>pump\<close>: retry the push of an item, go on with its workload, check
  whether the mesh is quiescent, or stop.
\<close>

datatype cont = KSend put_item "put_item list" | KItems "put_item list" | KQuiesce | KLast

text \<open>
  Where a worker is.  \<open>put\<close>: \<open>WItems\<close> before the next item, \<open>WRoute\<close> after \<open>sent\<close> was counted, \<open>WPush\<close>
  before a push.  \<open>pump\<close>: \<open>WScan\<close> before a pop from inbox \<open>src\<close>, \<open>WApply\<close> before \<open>applied\<close> is counted,
  \<open>WReply\<close> before the push of a reply, \<open>WReplyDrain\<close> in \<open>drain_replies\<close> between two such pushes,
  \<open>WDrain\<close> in the final \<open>drain_replies\<close>.  Then the announcement and the loads of the quiescence check.
\<close>

datatype wpc =
    WItems "put_item list"
  | WRoute put_item "put_item list"
  | WPush put_item "put_item list"
  | WScan nat cont
  | WApply nat cont
  | WReply reply nat nat cont
  | WReplyDrain nat reply nat nat cont
  | WDrain nat cont
  | WAnnounce
  | WLoadDone
  | WLoadSent bool
  | WLoadApplied bool u64
  | WExit
  | WPanic

text \<open>
  The mesh: the matrices, the counters and the workers' private state.  The last field is history:
  the puts applied to each shard, with the worker they came from.
\<close>

record mesh =
  m_cmd :: "nat \<times> nat \<Rightarrow> command list"
  m_reply :: "nat \<times> nat \<Rightarrow> reply list"
  m_sent :: u64
  m_applied :: u64
  m_phase1 :: usize
  m_shard :: "nat \<Rightarrow> bytes \<rightharpoonup> bytes"
  m_inflight :: "nat \<Rightarrow> u64 \<rightharpoonup> bytes option"
  m_pc :: "nat \<Rightarrow> wpc"
  m_hist :: "nat \<Rightarrow> (nat \<times> put_item) list"

abbreviation at_pc :: "nat \<Rightarrow> wpc \<Rightarrow> mesh \<Rightarrow> mesh" where
  "at_pc w pc s \<equiv> s\<lparr>m_pc := (m_pc s)(w := pc)\<rparr>"

definition shard_insert :: "nat \<Rightarrow> nat \<Rightarrow> put_item \<Rightarrow> mesh \<Rightarrow> mesh" where
  "shard_insert w src it s =
     s\<lparr>m_shard := (m_shard s)(w := (m_shard s w)(fst it \<mapsto> snd it)), m_hist := (m_hist s)(w := m_hist s w @ [(src, it)])\<rparr>"

fun resume :: "cont \<Rightarrow> wpc" where
  "resume (KSend it xs) = WPush it xs"
| "resume (KItems xs) = WItems xs"
| "resume KQuiesce = WLoadDone"
| "resume KLast = WExit"

text \<open>\<open>put\<close>: the counter first, then the own map or the push; when the channel is full, \<open>pump\<close>.\<close>

definition step_items :: "nat \<Rightarrow> put_item list \<Rightarrow> mesh \<Rightarrow> mesh" where
  "step_items w xs s = (case xs of
     [] \<Rightarrow> at_pc w WAnnounce s
   | it # xs' \<Rightarrow> at_pc w (WRoute it xs') s\<lparr>m_sent := m_sent s + 1\<rparr>)"

definition step_route :: "u64 \<Rightarrow> nat \<Rightarrow> put_item \<Rightarrow> put_item list \<Rightarrow> mesh \<Rightarrow> mesh" where
  "step_route msk w it xs s =
     (if mesh_route (fst it) msk = w
      then at_pc w (WScan 0 (KItems xs)) (shard_insert w w it s)\<lparr>m_applied := m_applied s + 1\<rparr>
      else at_pc w (WPush it xs) s)"

definition step_push :: "nat \<Rightarrow> u64 \<Rightarrow> nat \<Rightarrow> put_item \<Rightarrow> put_item list \<Rightarrow> mesh \<Rightarrow> mesh" where
  "step_push n msk w it xs s =
     (let owner = mesh_route (fst it) msk in
      if n \<le> owner then at_pc w WPanic s
      else case fifo_enq mesh_cap (CPut (fst it) (snd it)) (m_cmd s (w, owner)) of
        (Ok _, q) \<Rightarrow> at_pc w (WScan 0 (KItems xs)) s\<lparr>m_cmd := (m_cmd s)((w, owner) := q)\<rparr>
      | (Err _, q) \<Rightarrow> at_pc w (WScan 0 (KSend it xs)) s)"

text \<open>\<open>pump\<close> and \<open>drain_replies\<close>.\<close>

definition step_scan :: "nat \<Rightarrow> nat \<Rightarrow> nat \<Rightarrow> cont \<Rightarrow> mesh \<Rightarrow> mesh" where
  "step_scan n w src k s =
     (if n \<le> src then at_pc w (WDrain 0 k) s
      else case fifo_deq (m_cmd s (src, w)) of
        (None, q) \<Rightarrow> at_pc w (WScan (src + 1) k) s
      | (Some (CPut key val), q) \<Rightarrow>
          at_pc w (WApply src k) (shard_insert w src (key, val) s)\<lparr>m_cmd := (m_cmd s)((src, w) := q)\<rparr>
      | (Some (CGet key from token), q) \<Rightarrow>
          at_pc w (WReply \<lparr>rp_token = token, rp_val = m_shard s w key\<rparr> from src k) s\<lparr>m_cmd := (m_cmd s)((src, w) := q)\<rparr>)"

definition step_reply :: "nat \<Rightarrow> nat \<Rightarrow> reply \<Rightarrow> nat \<Rightarrow> nat \<Rightarrow> cont \<Rightarrow> mesh \<Rightarrow> mesh" where
  "step_reply n w r from src k s =
     (if n \<le> from then at_pc w WPanic s
      else case fifo_enq mesh_cap r (m_reply s (w, from)) of
        (Ok _, q) \<Rightarrow> at_pc w (WApply src k) s\<lparr>m_reply := (m_reply s)((w, from) := q)\<rparr>
      | (Err _, q) \<Rightarrow> at_pc w (WReplyDrain 0 r from src k) s)"

text \<open>One pop of \<open>drain_replies\<close> at inbox \<open>d\<close>: where to go on, and the state after it.\<close>

definition step_drain :: "nat \<Rightarrow> nat \<Rightarrow> nat \<Rightarrow> (nat \<Rightarrow> wpc) \<Rightarrow> wpc \<Rightarrow> mesh \<Rightarrow> mesh" where
  "step_drain n w d at fin s =
     (if n \<le> d then at_pc w fin s
      else case fifo_deq (m_reply s (d, w)) of
        (None, q) \<Rightarrow> at_pc w (at (d + 1)) s
      | (Some r, q) \<Rightarrow> s\<lparr>m_reply := (m_reply s)((d, w) := q),
            m_inflight := (m_inflight s)(w := (m_inflight s w)(rp_token r \<mapsto> rp_val r))\<rparr>)"

text \<open>One step of worker \<open>w\<close>.\<close>

definition worker_step :: "nat \<Rightarrow> u64 \<Rightarrow> nat \<Rightarrow> mesh \<Rightarrow> mesh" where
  "worker_step n msk w s = (case m_pc s w of
     WItems xs \<Rightarrow> step_items w xs s
   | WRoute it xs \<Rightarrow> step_route msk w it xs s
   | WPush it xs \<Rightarrow> step_push n msk w it xs s
   | WScan src k \<Rightarrow> step_scan n w src k s
   | WApply src k \<Rightarrow> at_pc w (WScan src k) s\<lparr>m_applied := m_applied s + 1\<rparr>
   | WReply r from src k \<Rightarrow> step_reply n w r from src k s
   | WReplyDrain d r from src k \<Rightarrow> step_drain n w d (\<lambda>d. WReplyDrain d r from src k) (WReply r from src k) s
   | WDrain d k \<Rightarrow> step_drain n w d (\<lambda>d. WDrain d k) (resume k) s
   | WAnnounce \<Rightarrow> at_pc w (WScan 0 KQuiesce) s\<lparr>m_phase1 := m_phase1 s + 1\<rparr>
   | WLoadDone \<Rightarrow> at_pc w (WLoadSent (m_phase1 s = of_nat n)) s
   | WLoadSent all_done \<Rightarrow> at_pc w (WLoadApplied all_done (m_sent s)) s
   | WLoadApplied all_done sent \<Rightarrow>
       at_pc w (if all_done \<and> sent = m_applied s then WScan 0 KLast else WScan 0 KQuiesce) s
   | WExit \<Rightarrow> s
   | WPanic \<Rightarrow> s)"

text \<open>\<open>run_put_workload\<close>, and any schedule of its workers.\<close>

definition mesh_start :: "(nat \<Rightarrow> put_item list) \<Rightarrow> mesh" where
  "mesh_start workload = \<lparr>m_cmd = \<lambda>_. [], m_reply = \<lambda>_. [], m_sent = 0, m_applied = 0, m_phase1 = 0,
     m_shard = \<lambda>_. Map.empty, m_inflight = \<lambda>_. Map.empty, m_pc = \<lambda>w. WItems (workload w), m_hist = \<lambda>_. []\<rparr>"

definition run_schedule :: "nat \<Rightarrow> u64 \<Rightarrow> nat list \<Rightarrow> mesh \<Rightarrow> mesh" where
  "run_schedule n msk ws s = foldl (\<lambda>s w. if w < n then worker_step n msk w s else s) s ws"

text \<open>\<open>shutdown\<close> returns the counter after all workers have been joined.\<close>

definition mesh_shutdown :: "mesh \<Rightarrow> u64" where
  "mesh_shutdown s = m_applied s"

text \<open>The mask of the mesh routes to its workers.\<close>

lemma size_routes:
  assumes "unat requested \<le> 2 ^ 63"
  shows "mesh_route key (mesh_size requested - 1) < unat (mesh_size requested)" "0 < unat (mesh_size requested)"
proof -
  have "unat (max requested 1) \<le> 2 ^ 63" using assms by (simp add: max_def)
  then obtain k where k: "k < 64" "mesh_size requested = 2 ^ k"
    unfolding mesh_size_def by (rule next_power_of_two_cases) blast
  then show "mesh_route key (mesh_size requested - 1) < unat (mesh_size requested)" "0 < unat (mesh_size requested)"
    by (simp_all add: mesh_route_def unat_and_mask unat_pow2)
qed

section \<open>Invariant\<close>

text \<open>What a worker still has to send, how much of it is not counted as sent, and whether it has announced its end.\<close>

fun todo_k :: "cont \<Rightarrow> put_item list" where
  "todo_k (KSend it xs) = it # xs"
| "todo_k (KItems xs) = xs"
| "todo_k k = []"

fun todo :: "wpc \<Rightarrow> put_item list" where
  "todo (WItems xs) = xs"
| "todo (WRoute it xs) = it # xs"
| "todo (WPush it xs) = it # xs"
| "todo (WScan src k) = todo_k k"
| "todo (WApply src k) = todo_k k"
| "todo (WDrain d k) = todo_k k"
| "todo pc = []"

fun unsent_k :: "cont \<Rightarrow> nat" where
  "unsent_k (KSend it xs) = length xs"
| "unsent_k (KItems xs) = length xs"
| "unsent_k k = 0"

fun unsent :: "wpc \<Rightarrow> nat" where
  "unsent (WItems xs) = length xs"
| "unsent (WRoute it xs) = length xs"
| "unsent (WPush it xs) = length xs"
| "unsent (WScan src k) = unsent_k k"
| "unsent (WApply src k) = unsent_k k"
| "unsent (WDrain d k) = unsent_k k"
| "unsent pc = 0"

fun ann_k :: "cont \<Rightarrow> bool" where
  "ann_k KQuiesce \<longleftrightarrow> True"
| "ann_k KLast \<longleftrightarrow> True"
| "ann_k k \<longleftrightarrow> False"

fun announced :: "wpc \<Rightarrow> bool" where
  "announced (WScan src k) \<longleftrightarrow> ann_k k"
| "announced (WApply src k) \<longleftrightarrow> ann_k k"
| "announced (WDrain d k) \<longleftrightarrow> ann_k k"
| "announced WLoadDone \<longleftrightarrow> True"
| "announced (WLoadSent b) \<longleftrightarrow> True"
| "announced (WLoadApplied b x) \<longleftrightarrow> True"
| "announced WExit \<longleftrightarrow> True"
| "announced pc \<longleftrightarrow> False"

fun applying :: "wpc \<Rightarrow> nat" where
  "applying (WApply src k) = 1"
| "applying pc = 0"

text \<open>
  No worker of a closed workload is at a point of the \<open>Get\<close> path or panics, and a worker pushes only
  what another one owns.
\<close>

fun put_path_k :: "u64 \<Rightarrow> nat \<Rightarrow> cont \<Rightarrow> bool" where
  "put_path_k msk w (KSend it xs) \<longleftrightarrow> mesh_route (fst it) msk \<noteq> w"
| "put_path_k msk w k \<longleftrightarrow> True"

fun put_path :: "u64 \<Rightarrow> nat \<Rightarrow> wpc \<Rightarrow> bool" where
  "put_path msk w (WReply r from src k) \<longleftrightarrow> False"
| "put_path msk w (WReplyDrain d r from src k) \<longleftrightarrow> False"
| "put_path msk w WPanic \<longleftrightarrow> False"
| "put_path msk w (WPush it xs) \<longleftrightarrow> mesh_route (fst it) msk \<noteq> w"
| "put_path msk w (WScan src k) \<longleftrightarrow> put_path_k msk w k"
| "put_path msk w (WApply src k) \<longleftrightarrow> put_path_k msk w k"
| "put_path msk w (WDrain d k) \<longleftrightarrow> put_path_k msk w k"
| "put_path msk w pc \<longleftrightarrow> True"

definition owned :: "u64 \<Rightarrow> nat \<Rightarrow> put_item list \<Rightarrow> put_item list" where
  "owned msk j xs = filter (\<lambda>it. mesh_route (fst it) msk = j) xs"

definition from_src :: "nat \<Rightarrow> (nat \<times> put_item) list \<Rightarrow> put_item list" where
  "from_src i h = map snd (filter (\<lambda>e. fst e = i) h)"

fun item_of :: "command \<Rightarrow> put_item" where
  "item_of (CPut k v) = (k, v)"
| "item_of (CGet k from token) = (k, [])"

definition apply_puts :: "('a \<times> put_item) list \<Rightarrow> bytes \<rightharpoonup> bytes" where
  "apply_puts h = foldl (\<lambda>m e. m(fst (snd e) \<mapsto> snd (snd e))) Map.empty h"

text \<open>
  Nothing is lost and nothing overtakes: the puts of worker \<open>i\<close> for shard \<open>j\<close> are those applied, then
  those in the channel, then those not sent yet, in the order of the workload.
\<close>

definition data_inv :: "nat \<Rightarrow> u64 \<Rightarrow> (nat \<Rightarrow> put_item list) \<Rightarrow> mesh \<Rightarrow> bool" where
  "data_inv n msk wl s \<longleftrightarrow> (\<forall>i < n. \<forall>j < n.
     from_src i (m_hist s j) @ map item_of (m_cmd s (i, j)) @ owned msk j (todo (m_pc s i)) = owned msk j (wl i))"

definition type_inv :: "nat \<Rightarrow> u64 \<Rightarrow> mesh \<Rightarrow> bool" where
  "type_inv n msk s \<longleftrightarrow> (\<forall>q. \<forall>c \<in> set (m_cmd s q). \<exists>k v. c = CPut k v) \<and> (\<forall>w. m_cmd s (w, w) = []) \<and> (\<forall>q. m_reply s q = []) \<and>
     (\<forall>w < n. put_path msk w (m_pc s w)) \<and> (\<forall>j. \<forall>e \<in> set (m_hist s j). fst e < n) \<and> (\<forall>j. m_shard s j = apply_puts (m_hist s j))"

definition tally :: "nat \<Rightarrow> ('a \<Rightarrow> nat) \<Rightarrow> (nat \<Rightarrow> 'a) \<Rightarrow> nat" where
  "tally n f g = (\<Sum>i < n. f (g i))"

definition ann :: "wpc \<Rightarrow> nat" where
  "ann pc = (if announced pc then 1 else 0)"

definition count_inv :: "nat \<Rightarrow> (nat \<Rightarrow> put_item list) \<Rightarrow> mesh \<Rightarrow> bool" where
  "count_inv n wl s \<longleftrightarrow>
     m_sent s + of_nat (tally n unsent (m_pc s)) = of_nat (tally n length wl) \<and>
     m_applied s + of_nat (tally n applying (m_pc s)) = of_nat (tally n length (m_hist s)) \<and>
     m_phase1 s = of_nat (tally n ann (m_pc s))"

definition all_announced :: "nat \<Rightarrow> mesh \<Rightarrow> bool" where
  "all_announced n s \<longleftrightarrow> (\<forall>w < n. announced (m_pc s w))"

definition finished :: "nat \<Rightarrow> mesh \<Rightarrow> bool" where
  "finished n s \<longleftrightarrow> all_announced n s \<and> (\<forall>i < n. \<forall>j < n. m_cmd s (i, j) = []) \<and> (\<forall>w < n. applying (m_pc s w) = 0)"

text \<open>What a worker knows from the loads of its check.\<close>

fun knows_k :: "nat \<Rightarrow> mesh \<Rightarrow> cont \<Rightarrow> bool" where
  "knows_k n s KLast \<longleftrightarrow> finished n s"
| "knows_k n s k \<longleftrightarrow> True"

fun knows :: "nat \<Rightarrow> mesh \<Rightarrow> wpc \<Rightarrow> bool" where
  "knows n s (WLoadSent b) \<longleftrightarrow> (b \<longrightarrow> all_announced n s)"
| "knows n s (WLoadApplied b x) \<longleftrightarrow> (b \<longrightarrow> all_announced n s \<and> x = m_sent s)"
| "knows n s (WScan src k) \<longleftrightarrow> knows_k n s k"
| "knows n s (WApply src k) \<longleftrightarrow> knows_k n s k"
| "knows n s (WDrain d k) \<longleftrightarrow> knows_k n s k"
| "knows n s WExit \<longleftrightarrow> finished n s"
| "knows n s pc \<longleftrightarrow> True"

definition mesh_inv :: "nat \<Rightarrow> u64 \<Rightarrow> (nat \<Rightarrow> put_item list) \<Rightarrow> mesh \<Rightarrow> bool" where
  "mesh_inv n msk wl s \<longleftrightarrow> data_inv n msk wl s \<and> type_inv n msk s \<and> count_inv n wl s \<and> (\<forall>w < n. knows n s (m_pc s w))"

lemma mesh_inv_start: "mesh_inv n msk wl (mesh_start wl)"
  by (simp add: mesh_inv_def mesh_start_def data_inv_def type_inv_def count_inv_def from_src_def apply_puts_def tally_def ann_def)

section \<open>Counting\<close>

lemma tally_upd:
  assumes "w < n"
  shows "tally n f (g(w := v)) + f (g w) = tally n f g + f v"
proof -
  have "tally n f (g(w := v)) = f v + (\<Sum>i \<in> {..<n} - {w}. f (g i))"
    unfolding tally_def using assms by (subst sum.remove [of _ w]) auto
  moreover have "tally n f g = f (g w) + (\<Sum>i \<in> {..<n} - {w}. f (g i))"
    unfolding tally_def using assms by (subst sum.remove [of _ w]) auto
  ultimately show ?thesis by simp
qed

lemma tally_keep: "f v = f (g w) \<Longrightarrow> tally n f (g(w := v)) = tally n f g"
  unfolding tally_def by (rule sum.cong) auto

text \<open>The total of the puts is what was applied, what is in the channels and what is still to do.\<close>

lemma length_owned: "(\<Sum>j < n. length (owned msk j xs)) = length (filter (\<lambda>it. mesh_route (fst it) msk < n) xs)"
  unfolding owned_def
proof (induction xs)
  case (Cons x xs)
  have "(\<Sum>j < n. length (filter (\<lambda>it. mesh_route (fst it) msk = j) (x # xs))) =
      (\<Sum>j < n. if mesh_route (fst x) msk = j then 1 else 0) + (\<Sum>j < n. length (filter (\<lambda>it. mesh_route (fst it) msk = j) xs))"
    unfolding sum.distrib [symmetric] by (rule sum.cong) auto
  then show ?case using Cons.IH by simp
qed simp

lemma length_from_src: "(\<forall>e \<in> set h. fst e < n) \<Longrightarrow> (\<Sum>i < n. length (from_src i h)) = length h"
proof (induction h)
  case (Cons e h)
  have "(\<Sum>i < n. length (from_src i (e # h))) = (\<Sum>i < n. if fst e = i then 1 else 0) + (\<Sum>i < n. length (from_src i h))"
    unfolding sum.distrib [symmetric] by (rule sum.cong) (auto simp: from_src_def)
  then show ?case using Cons by simp
qed (simp add: from_src_def)

lemma conservation:
  assumes "data_inv n msk wl s" "type_inv n msk s" "\<And>k. mesh_route k msk < n"
  shows "tally n length wl = tally n length (m_hist s) + (\<Sum>i < n. \<Sum>j < n. length (m_cmd s (i, j))) +
    tally n (\<lambda>pc. length (todo pc)) (m_pc s)"
proof -
  have all: "(\<Sum>j < n. length (owned msk j xs)) = length xs" for xs using assms(3) by (simp add: length_owned)
  have "(\<Sum>i < n. length (wl i)) = (\<Sum>i < n. \<Sum>j < n. length (owned msk j (wl i)))" by (simp add: all)
  also have "\<dots> = (\<Sum>i < n. \<Sum>j < n. length (from_src i (m_hist s j)) + length (m_cmd s (i, j)) + length (owned msk j (todo (m_pc s i))))"
  proof (intro sum.cong refl)
    fix i j assume "i \<in> {..<n}" "j \<in> {..<n}"
    then have "owned msk j (wl i) = from_src i (m_hist s j) @ map item_of (m_cmd s (i, j)) @ owned msk j (todo (m_pc s i))"
      using assms(1) by (simp add: data_inv_def)
    then show "length (owned msk j (wl i)) = length (from_src i (m_hist s j)) + length (m_cmd s (i, j)) + length (owned msk j (todo (m_pc s i)))"
      by simp
  qed
  also have "\<dots> = (\<Sum>i < n. \<Sum>j < n. length (from_src i (m_hist s j))) + (\<Sum>i < n. \<Sum>j < n. length (m_cmd s (i, j))) +
      (\<Sum>i < n. length (todo (m_pc s i)))" by (simp add: sum.distrib all)
  also have "(\<Sum>i < n. \<Sum>j < n. length (from_src i (m_hist s j))) = (\<Sum>j < n. \<Sum>i < n. length (from_src i (m_hist s j)))"
    by (rule sum.swap)
  also have "\<dots> = (\<Sum>j < n. length (m_hist s j))" using assms(2) by (simp add: length_from_src type_inv_def)
  finally show ?thesis by (simp add: tally_def)
qed

section \<open>Every step keeps the invariant\<close>

lemma mesh_invD:
  assumes "mesh_inv n msk wl s"
  shows "data_inv n msk wl s" "type_inv n msk s" "count_inv n wl s" "w < n \<Longrightarrow> knows n s (m_pc s w)"
  using assms by (simp_all add: mesh_inv_def)

lemma knows_mono:
  assumes "knows n s pc" "all_announced n s \<Longrightarrow> all_announced n s' \<and> m_sent s' = m_sent s" "finished n s \<Longrightarrow> finished n s'"
  shows "knows n s' pc"
proof -
  have "knows_k n s k \<Longrightarrow> knows_k n s' k" for k using assms(3) by (cases k) auto
  then show ?thesis using assms by (cases pc) auto
qed

lemma announced_idle: "announced pc \<Longrightarrow> todo pc = [] \<and> unsent pc = 0"
proof -
  have "ann_k k \<Longrightarrow> todo_k k = [] \<and> unsent_k k = 0" for k by (cases k) auto
  then show "announced pc \<Longrightarrow> todo pc = [] \<and> unsent pc = 0" by (cases pc) auto
qed

text \<open>A step that only moves a worker on.\<close>

lemma quiet_step:
  assumes "mesh_inv n msk wl s" "todo v = todo (m_pc s w)" "unsent v = unsent (m_pc s w)"
    "applying v = applying (m_pc s w)" "announced v = announced (m_pc s w)" "put_path msk w v" "knows n s v"
  shows "mesh_inv n msk wl (at_pc w v s)" (is "mesh_inv n msk wl ?s")
proof -
  note i = mesh_invD [OF assms(1)]
  have "todo (m_pc ?s u) = todo (m_pc s u)" for u using assms(2) by simp
  then have "data_inv n msk wl ?s" using i(1) by (simp add: data_inv_def)
  moreover have "type_inv n msk ?s" using i(2) assms(6) by (simp add: type_inv_def)
  moreover have "count_inv n wl ?s" using i(3) tally_keep [of unsent v "m_pc s" w] tally_keep [of applying v "m_pc s" w]
      tally_keep [of ann v "m_pc s" w] assms(3-5) by (simp add: count_inv_def ann_def)
  moreover have "knows n ?s (m_pc ?s u)" if "u < n" for u
  proof -
    have a: "all_announced n ?s = all_announced n s" using assms(5) by (auto simp: all_announced_def)
    moreover have "finished n ?s = finished n s" using assms(4) unfolding finished_def a by auto
    moreover have "knows n s (m_pc ?s u)" using i(4) [OF that] assms(7) by simp
    moreover have "m_sent ?s = m_sent s" by simp
    ultimately show ?thesis using knows_mono [of n s "m_pc ?s u" ?s] by blast
  qed
  ultimately show ?thesis by (simp add: mesh_inv_def)
qed

text \<open>The steps that count, insert, push, pop and announce.\<close>

lemma inv_count_sent:
  assumes "mesh_inv n msk wl s" "w < n" "m_pc s w = WItems (it # xs)"
  shows "mesh_inv n msk wl (at_pc w (WRoute it xs) s\<lparr>m_sent := m_sent s + 1\<rparr>)" (is "mesh_inv n msk wl ?s")
proof -
  note i = mesh_invD [OF assms(1)]
  have "todo (m_pc ?s u) = todo (m_pc s u)" for u using assms(3) by simp
  then have "data_inv n msk wl ?s" using i(1) by (simp add: data_inv_def)
  moreover have "type_inv n msk ?s" using i(2) by (simp add: type_inv_def)
  moreover have "count_inv n wl ?s"
  proof -
    have "tally n unsent (m_pc s) = Suc (tally n unsent ((m_pc s)(w := WRoute it xs)))"
      using tally_upd [OF assms(2), of unsent "m_pc s" "WRoute it xs"] assms(3) by simp
    moreover have "tally n applying ((m_pc s)(w := WRoute it xs)) = tally n applying (m_pc s)"
      "tally n ann ((m_pc s)(w := WRoute it xs)) = tally n ann (m_pc s)"
      using assms(3) by (simp_all add: tally_keep ann_def)
    ultimately show ?thesis using i(3) by (simp add: count_inv_def add.assoc)
  qed
  moreover have "knows n ?s (m_pc ?s u)" if "u < n" for u
  proof -
    have "\<not> all_announced n s" using assms(2,3) by (auto simp: all_announced_def)
    then have "\<not> all_announced n s" "\<not> finished n s" by (simp_all add: finished_def)
    moreover have "knows n s (m_pc ?s u)" using i(4) [OF that] by simp
    ultimately show ?thesis using knows_mono [of n s "m_pc ?s u" ?s] by blast
  qed
  ultimately show ?thesis by (simp add: mesh_inv_def)
qed

lemma from_src_snoc: "from_src i (h @ [(src, it)]) = from_src i h @ (if src = i then [it] else [])"
  by (simp add: from_src_def)

lemma owned_Cons: "owned msk j (it # xs) = (if mesh_route (fst it) msk = j then it # owned msk j xs else owned msk j xs)"
  by (simp add: owned_def)

lemma dom_apply_puts: "dom (apply_puts h) = (\<lambda>e. fst (snd e)) ` set h"
  by (induction h rule: rev_induct) (simp_all add: apply_puts_def del: fun_upd_apply)

lemma apply_snoc: "apply_puts (h @ [(src, it)]) = (apply_puts h)(fst it \<mapsto> snd it)"
  by (simp add: apply_puts_def)

lemma inv_local_put:
  assumes "mesh_inv n msk wl s" "w < n" "m_pc s w = WRoute it xs" "mesh_route (fst it) msk = w"
  shows "mesh_inv n msk wl (at_pc w (WScan 0 (KItems xs)) (shard_insert w w it s)\<lparr>m_applied := m_applied s + 1\<rparr>)"
    (is "mesh_inv n msk wl ?s")
proof -
  note i = mesh_invD [OF assms(1)]
  have "data_inv n msk wl ?s" unfolding data_inv_def
  proof (intro allI impI)
    fix u j assume u: "u < n" "j < n"
    have d: "from_src u (m_hist s j) @ map item_of (m_cmd s (u, j)) @ owned msk j (todo (m_pc s u)) = owned msk j (wl u)"
      using i(1) u by (simp add: data_inv_def)
    have "m_cmd s (w, w) = []" using i(2) by (simp add: type_inv_def)
    then show "from_src u (m_hist ?s j) @ map item_of (m_cmd ?s (u, j)) @ owned msk j (todo (m_pc ?s u)) = owned msk j (wl u)"
      using d assms(3,4) by (auto simp: shard_insert_def from_src_snoc owned_Cons)
  qed
  moreover have "type_inv n msk ?s" using i(2) assms(2) by (auto simp: type_inv_def shard_insert_def apply_snoc)
  moreover have "count_inv n wl ?s"
  proof -
    have "tally n length ((m_hist s)(w := m_hist s w @ [(w, it)])) = Suc (tally n length (m_hist s))"
      using tally_upd [OF assms(2), of length "m_hist s" "m_hist s w @ [(w, it)]"] by simp
    moreover have "tally n f ((m_pc s)(w := WScan 0 (KItems xs))) = tally n f (m_pc s)" if "f \<in> {unsent, applying, ann}" for f
      using assms(3) that by (intro tally_keep) (auto simp: ann_def)
    ultimately show ?thesis using i(3) by (simp add: count_inv_def shard_insert_def add.assoc)
  qed
  moreover have "knows n ?s (m_pc ?s u)" if "u < n" for u
  proof -
    have "\<not> all_announced n s" using assms(2,3) by (auto simp: all_announced_def)
    then have "\<not> all_announced n s" "\<not> finished n s" by (simp_all add: finished_def)
    moreover have "knows n s (m_pc ?s u)" using i(4) [OF that] by (simp add: shard_insert_def)
    ultimately show ?thesis using knows_mono [of n s "m_pc ?s u" ?s] by blast
  qed
  ultimately show ?thesis by (simp add: mesh_inv_def)
qed

lemma inv_push:
  assumes "mesh_inv n msk wl s" "w < n" "m_pc s w = WPush it xs" "mesh_route (fst it) msk = j" "j \<noteq> w"
  shows "mesh_inv n msk wl (at_pc w (WScan 0 (KItems xs)) s\<lparr>m_cmd := (m_cmd s)((w, j) := m_cmd s (w, j) @ [CPut (fst it) (snd it)])\<rparr>)"
    (is "mesh_inv n msk wl ?s")
proof -
  note i = mesh_invD [OF assms(1)]
  have "data_inv n msk wl ?s" unfolding data_inv_def
  proof (intro allI impI)
    fix u k assume u: "u < n" "k < n"
    have d: "from_src u (m_hist s k) @ map item_of (m_cmd s (u, k)) @ owned msk k (todo (m_pc s u)) = owned msk k (wl u)"
      using i(1) u by (simp add: data_inv_def)
    then show "from_src u (m_hist ?s k) @ map item_of (m_cmd ?s (u, k)) @ owned msk k (todo (m_pc ?s u)) = owned msk k (wl u)"
      using assms(3,4) by (auto simp: owned_Cons split: if_splits)
  qed
  moreover have "type_inv n msk ?s" using i(2) assms(5) by (auto simp: type_inv_def)
  moreover have "count_inv n wl ?s"
  proof -
    have "tally n f ((m_pc s)(w := WScan 0 (KItems xs))) = tally n f (m_pc s)" if "f \<in> {unsent, applying, ann}" for f
      using assms(3) that by (intro tally_keep) (auto simp: ann_def)
    then show ?thesis using i(3) by (simp add: count_inv_def)
  qed
  moreover have "knows n ?s (m_pc ?s u)" if "u < n" for u
  proof -
    have "\<not> all_announced n s" using assms(2,3) by (auto simp: all_announced_def)
    then have "\<not> all_announced n s" "\<not> finished n s" by (simp_all add: finished_def)
    moreover have "knows n s (m_pc ?s u)" using i(4) [OF that] by simp
    ultimately show ?thesis using knows_mono [of n s "m_pc ?s u" ?s] by blast
  qed
  ultimately show ?thesis by (simp add: mesh_inv_def)
qed

lemma inv_pop:
  assumes "mesh_inv n msk wl s" "w < n" "src < n" "m_pc s w = WScan src k" "m_cmd s (src, w) = CPut key val # q"
  shows "mesh_inv n msk wl (at_pc w (WApply src k) (shard_insert w src (key, val) s)\<lparr>m_cmd := (m_cmd s)((src, w) := q)\<rparr>)"
    (is "mesh_inv n msk wl ?s")
proof -
  note i = mesh_invD [OF assms(1)]
  have "data_inv n msk wl ?s" unfolding data_inv_def
  proof (intro allI impI)
    fix u j assume u: "u < n" "j < n"
    have d: "from_src u (m_hist s j) @ map item_of (m_cmd s (u, j)) @ owned msk j (todo (m_pc s u)) = owned msk j (wl u)"
      using i(1) u by (simp add: data_inv_def)
    moreover have "todo (m_pc ?s u) = todo (m_pc s u)" using assms(4) by (simp add: shard_insert_def)
    ultimately show "from_src u (m_hist ?s j) @ map item_of (m_cmd ?s (u, j)) @ owned msk j (todo (m_pc ?s u)) = owned msk j (wl u)"
      using assms(5) by (auto simp: shard_insert_def from_src_snoc)
  qed
  moreover have "type_inv n msk ?s"
  proof -
    have "\<forall>c \<in> set q. \<exists>k v. c = CPut k v" using i(2) assms(5) unfolding type_inv_def by (metis list.set_intros(2))
    moreover have "src \<noteq> w" using i(2) assms(5) by (auto simp: type_inv_def)
    moreover have "put_path msk w (m_pc s w)" using i(2) assms(2) by (simp add: type_inv_def)
    then have "put_path_k msk w k" by (simp add: assms(4))
    ultimately show ?thesis using i(2) assms(3) by (auto simp: type_inv_def shard_insert_def apply_snoc)
  qed
  moreover have "count_inv n wl ?s"
  proof -
    have "tally n length ((m_hist s)(w := m_hist s w @ [(src, key, val)])) = Suc (tally n length (m_hist s))"
      using tally_upd [OF assms(2), of length "m_hist s" "m_hist s w @ [(src, key, val)]"] by simp
    moreover have "tally n applying ((m_pc s)(w := WApply src k)) = Suc (tally n applying (m_pc s))"
      using tally_upd [OF assms(2), of applying "m_pc s" "WApply src k"] assms(4) by simp
    moreover have "tally n f ((m_pc s)(w := WApply src k)) = tally n f (m_pc s)" if "f \<in> {unsent, ann}" for f
      using assms(4) that by (intro tally_keep) (auto simp: ann_def)
    ultimately show ?thesis using i(3) by (simp add: count_inv_def shard_insert_def)
  qed
  moreover have "knows n ?s (m_pc ?s u)" if "u < n" for u
  proof -
    have "announced (m_pc ?s x) = announced (m_pc s x)" for x using assms(4) by (simp add: shard_insert_def)
    then have "all_announced n ?s = all_announced n s" by (simp only: all_announced_def)
    moreover have "\<not> finished n s" using assms(2,3,5) unfolding finished_def by (metis list.distinct(1))
    moreover have "knows n s (m_pc ?s u)" using i(4) [OF that] assms(4) by (cases "u = w") (simp_all add: shard_insert_def)
    moreover have "m_sent ?s = m_sent s" by (simp add: shard_insert_def)
    ultimately show ?thesis using knows_mono [of n s "m_pc ?s u" ?s] by blast
  qed
  ultimately show ?thesis by (simp add: mesh_inv_def)
qed

lemma inv_apply:
  assumes "mesh_inv n msk wl s" "w < n" "m_pc s w = WApply src k"
  shows "mesh_inv n msk wl (at_pc w (WScan src k) s\<lparr>m_applied := m_applied s + 1\<rparr>)" (is "mesh_inv n msk wl ?s")
proof -
  note i = mesh_invD [OF assms(1)]
  have "todo (m_pc ?s u) = todo (m_pc s u)" for u using assms(3) by simp
  then have "data_inv n msk wl ?s" using i(1) by (simp add: data_inv_def)
  moreover have "type_inv n msk ?s" using i(2) assms(2,3) by (auto simp: type_inv_def)
  moreover have "count_inv n wl ?s"
  proof -
    have "tally n applying (m_pc s) = Suc (tally n applying ((m_pc s)(w := WScan src k)))"
      using tally_upd [OF assms(2), of applying "m_pc s" "WScan src k"] assms(3) by simp
    moreover have "tally n f ((m_pc s)(w := WScan src k)) = tally n f (m_pc s)" if "f \<in> {unsent, ann}" for f
      using assms(3) that by (intro tally_keep) (auto simp: ann_def)
    ultimately show ?thesis using i(3) by (simp add: count_inv_def add.assoc)
  qed
  moreover have "knows n ?s (m_pc ?s u)" if "u < n" for u
  proof -
    have "announced (m_pc ?s x) = announced (m_pc s x)" for x using assms(3) by simp
    then have "all_announced n ?s = all_announced n s" by (simp only: all_announced_def)
    moreover have "\<not> finished n s" using assms(2,3) unfolding finished_def by (metis applying.simps(1) one_neq_zero)
    moreover have "knows n s (m_pc ?s u)" using i(4) [OF that] assms(3) by (cases "u = w") simp_all
    moreover have "m_sent ?s = m_sent s" by simp
    ultimately show ?thesis using knows_mono [of n s "m_pc ?s u" ?s] by blast
  qed
  ultimately show ?thesis by (simp add: mesh_inv_def)
qed

lemma inv_announce:
  assumes "mesh_inv n msk wl s" "w < n" "m_pc s w = WAnnounce"
  shows "mesh_inv n msk wl (at_pc w (WScan 0 KQuiesce) s\<lparr>m_phase1 := m_phase1 s + 1\<rparr>)" (is "mesh_inv n msk wl ?s")
proof -
  note i = mesh_invD [OF assms(1)]
  have "todo (m_pc ?s u) = todo (m_pc s u)" for u using assms(3) by simp
  then have "data_inv n msk wl ?s" using i(1) by (simp add: data_inv_def)
  moreover have "type_inv n msk ?s" using i(2) by (simp add: type_inv_def)
  moreover have "count_inv n wl ?s"
  proof -
    have "tally n ann ((m_pc s)(w := WScan 0 KQuiesce)) = Suc (tally n ann (m_pc s))"
      using tally_upd [OF assms(2), of ann "m_pc s" "WScan 0 KQuiesce"] assms(3) by (simp add: ann_def)
    moreover have "tally n f ((m_pc s)(w := WScan 0 KQuiesce)) = tally n f (m_pc s)" if "f \<in> {unsent, applying}" for f
      using assms(3) that by (intro tally_keep) auto
    ultimately show ?thesis using i(3) by (simp add: count_inv_def add.commute)
  qed
  moreover have "knows n ?s (m_pc ?s u)" if "u < n" for u
  proof -
    have "\<not> all_announced n s" using assms(2,3) by (auto simp: all_announced_def)
    then have "\<not> all_announced n s" "\<not> finished n s" by (simp_all add: finished_def)
    moreover have "knows n s (m_pc ?s u)" using i(4) [OF that] by simp
    ultimately show ?thesis using knows_mono [of n s "m_pc ?s u" ?s] by blast
  qed
  ultimately show ?thesis by (simp add: mesh_inv_def)
qed

text \<open>What the two tests of the check mean.\<close>

lemma tally_ann_le: "tally n ann g \<le> n"
proof -
  have "tally n ann g \<le> (\<Sum>i < n. 1)" unfolding tally_def by (intro sum_mono) (simp add: ann_def)
  then show ?thesis by simp
qed

lemma all_announced_iff: "all_announced n s \<longleftrightarrow> tally n ann (m_pc s) = n"
proof
  assume "all_announced n s"
  then show "tally n ann (m_pc s) = n" by (simp add: all_announced_def tally_def ann_def)
next
  assume t: "tally n ann (m_pc s) = n"
  show "all_announced n s" unfolding all_announced_def
  proof (rule ccontr)
    assume "\<not> (\<forall>w < n. announced (m_pc s w))"
    then obtain w where w: "w < n" "\<not> announced (m_pc s w)" by blast
    have "tally n ann (m_pc s) + 1 = tally n ann ((m_pc s)(w := WExit))"
      using tally_upd [OF w(1), of ann "m_pc s" WExit] w(2) by (simp add: ann_def)
    then show False using tally_ann_le [of n "(m_pc s)(w := WExit)"] t by simp
  qed
qed

lemma phase1_all:
  assumes "count_inv n wl s" "n < 2 ^ 64" "m_phase1 s = of_nat n"
  shows "all_announced n s"
proof -
  have "(of_nat (tally n ann (m_pc s)) :: usize) = of_nat n" using assms(1,3) by (simp add: count_inv_def)
  then have "tally n ann (m_pc s) = n" using tally_ann_le [of n "m_pc s"] assms(2) by (simp add: word_of_nat_eq_iff take_bit_eq_mod)
  then show ?thesis by (simp add: all_announced_iff)
qed

lemma quiescent:
  assumes "mesh_inv n msk wl s" "\<And>k. mesh_route k msk < n" "tally n length wl + n < 2 ^ 64"
    "all_announced n s" "m_sent s = m_applied s"
  shows "finished n s"
proof -
  note i = mesh_invD [OF assms(1)]
  define C where "C = (\<Sum>i < n. \<Sum>j < n. length (m_cmd s (i, j)))"
  let ?A = "tally n applying (m_pc s)"
  have z: "tally n unsent (m_pc s) = 0" "tally n (\<lambda>pc. length (todo pc)) (m_pc s) = 0"
    using assms(4) announced_idle by (auto simp: all_announced_def tally_def)
  have T: "tally n length wl = tally n length (m_hist s) + C" using conservation [OF i(1,2) assms(2)] z(2) by (simp add: C_def)
  have A: "?A \<le> n"
  proof -
    have "applying pc \<le> 1" for pc by (cases pc) auto
    then have "?A \<le> (\<Sum>i < n. 1)" unfolding tally_def by (intro sum_mono)
    then show ?thesis by simp
  qed
  have "of_nat (tally n length wl) + of_nat ?A = (of_nat (tally n length (m_hist s)) :: u64)"
    using i(3) z(1) assms(5) by (auto simp: count_inv_def)
  then have "(of_nat (C + ?A) :: u64) = 0" unfolding T by (simp add: algebra_simps)
  moreover have "C + ?A < 2 ^ 64" using T A assms(3) by linarith
  moreover have "unat (of_nat m :: u64) = m" if "m < 2 ^ 64" for m using that by (simp add: unat_of_nat)
  ultimately have "C + ?A = 0" by (metis unat_0)
  then have "\<forall>i < n. \<forall>j < n. m_cmd s (i, j) = []" "\<forall>w < n. applying (m_pc s w) = 0" by (auto simp: tally_def C_def)
  then show ?thesis using assms(4) by (simp add: finished_def)
qed

lemma mesh_inv_step:
  assumes "mesh_inv n msk wl s" "w < n" "\<And>k. mesh_route k msk < n" "tally n length wl + n < 2 ^ 64"
  shows "mesh_inv n msk wl (worker_step n msk w s)"
proof -
  note i = mesh_invD [OF assms(1)]
  have pp: "put_path msk w (m_pc s w)" using i(2) assms(2) by (simp add: type_inv_def)
  have rep: "m_reply s q = []" for q using i(2) unfolding type_inv_def by blast
  have kn: "knows n s (m_pc s w)" by (rule i(4) [OF assms(2)])
  show ?thesis
  proof (cases "m_pc s w")
    case (WItems xs)
    then show ?thesis using inv_count_sent [OF assms(1,2)] quiet_step [OF assms(1), of WAnnounce w]
      by (auto simp: worker_step_def step_items_def split: list.splits)
  next
    case (WRoute it xs)
    then show ?thesis using inv_local_put [OF assms(1,2) WRoute] quiet_step [OF assms(1), of "WPush it xs" w]
      by (simp add: worker_step_def step_route_def)
  next
    case (WPush it xs)
    have "mesh_route (fst it) msk \<noteq> w" using pp WPush by simp
    then show ?thesis using inv_push [OF assms(1,2) WPush refl] quiet_step [OF assms(1), of "WScan 0 (KSend it xs)" w] assms(3) [of "fst it"] WPush
      by (auto simp: worker_step_def step_push_def Let_def fifo_enq_def)
  next
    case (WScan src k)
    have "\<exists>key val. c = CPut key val" if "m_cmd s (src, w) = c # q" for c q
    proof -
      have "c \<in> set (m_cmd s (src, w))" using that by simp
      then show ?thesis using i(2) unfolding type_inv_def by blast
    qed
    then show ?thesis
      using inv_pop [OF assms(1,2) _ WScan] quiet_step [OF assms(1), of "WDrain 0 k" w] quiet_step [OF assms(1), of "WScan (src + 1) k" w]
        WScan pp kn by (auto simp: worker_step_def step_scan_def fifo_deq_def split: list.splits)
  next
    case (WApply src k)
    then show ?thesis using inv_apply [OF assms(1,2) WApply] by (simp add: worker_step_def)
  next
    case (WDrain d k)
    have r: "todo (resume k) = todo_k k" "unsent (resume k) = unsent_k k" "applying (resume k) = 0" "announced (resume k) = ann_k k"
      "put_path msk w (resume k) = put_path_k msk w k" "knows n s (resume k) = knows_k n s k" by (cases k; simp)+
    show ?thesis using quiet_step [OF assms(1), of "resume k" w] quiet_step [OF assms(1), of "WDrain (d + 1) k" w] r WDrain pp kn rep
      by (simp add: worker_step_def step_drain_def fifo_deq_def)
  next
    case WAnnounce
    then show ?thesis using inv_announce [OF assms(1,2)] by (simp add: worker_step_def)
  next
    case WLoadDone
    have "all_announced n s" if "m_phase1 s = of_nat n" using phase1_all [OF i(3) _ that] assms(4) by simp
    then show ?thesis using quiet_step [OF assms(1), of "WLoadSent (m_phase1 s = of_nat n)" w] WLoadDone by (simp add: worker_step_def)
  next
    case (WLoadSent b)
    then show ?thesis using quiet_step [OF assms(1), of "WLoadApplied b (m_sent s)" w] kn by (simp add: worker_step_def)
  next
    case (WLoadApplied b x)
    have "finished n s" if "b" "x = m_applied s" using quiescent [OF assms(1,3,4)] kn WLoadApplied that by simp
    then show ?thesis using quiet_step [OF assms(1), of "WScan 0 KLast" w] quiet_step [OF assms(1), of "WScan 0 KQuiesce" w] WLoadApplied
      by (simp add: worker_step_def)
  qed (use assms(1) pp in \<open>simp_all add: worker_step_def\<close>)
qed

lemma run_schedule_snoc: "run_schedule n msk (ws @ [w]) s = (if w < n then worker_step n msk w (run_schedule n msk ws s) else run_schedule n msk ws s)"
  by (simp add: run_schedule_def)

lemma mesh_inv_run:
  assumes "\<And>k. mesh_route k msk < n" "tally n length wl + n < 2 ^ 64" "mesh_inv n msk wl s"
  shows "mesh_inv n msk wl (run_schedule n msk ws s)"
proof (induction ws rule: rev_induct)
  case Nil
  then show ?case using assms(3) by (simp add: run_schedule_def)
next
  case (snoc w ws)
  then show ?case using mesh_inv_step [OF snoc _ assms(1,2)] by (simp add: run_schedule_snoc)
qed

end
