(* ===== verification/MeshProgress.thy ===== *)
theory MeshProgress
  imports Mesh
begin

text \<open>
  The mesh never gets stuck: from every state that workers can reach in any order, some schedule
  takes all of them to their exit.  The argument is a measure of the work that is left and, for
  every state with work left, a worker that decreases it when it runs on its own; that worker is the
  owner of a full or non-empty channel where there is one.
\<close>

section \<open>The work that is left\<close>

fun hand_k :: "cont \<Rightarrow> nat" where
  "hand_k (KSend it xs) = 3"
| "hand_k k = 0"

fun hand :: "wpc \<Rightarrow> nat" where
  "hand (WRoute it xs) = 4"
| "hand (WPush it xs) = 3"
| "hand (WScan src k) = hand_k k"
| "hand (WApply src k) = hand_k k + 1"
| "hand (WDrain d k) = hand_k k"
| "hand pc = 0"

fun tail_k :: "cont \<Rightarrow> nat" where
  "tail_k KLast = 0"
| "tail_k KQuiesce = 1"
| "tail_k k = 3"

fun tail :: "wpc \<Rightarrow> nat" where
  "tail (WScan src k) = tail_k k"
| "tail (WApply src k) = tail_k k"
| "tail (WDrain d k) = tail_k k"
| "tail WAnnounce = 2"
| "tail WLoadDone = 1"
| "tail (WLoadSent b) = 1"
| "tail (WLoadApplied b x) = 1"
| "tail WExit = 0"
| "tail pc = 3"

definition weight :: "wpc \<Rightarrow> nat" where
  "weight pc = 5 * unsent pc + hand pc + tail pc"

definition in_channels :: "nat \<Rightarrow> mesh \<Rightarrow> nat" where
  "in_channels n s = (\<Sum>p \<in> {..<n} \<times> {..<n}. length (m_cmd s p))"

definition work :: "nat \<Rightarrow> mesh \<Rightarrow> nat" where
  "work n s = tally n weight (m_pc s) + 2 * in_channels n s"

lemma in_channels_upd:
  assumes "i < n" "j < n"
  shows "in_channels n (s\<lparr>m_cmd := (m_cmd s)((i, j) := q)\<rparr>) + length (m_cmd s (i, j)) = in_channels n s + length q"
proof -
  let ?A = "{..<n} \<times> {..<n}"
  have m: "(i, j) \<in> ?A" using assms by simp
  have "(\<Sum>p \<in> ?A. length (((m_cmd s)((i, j) := q)) p)) = length q + (\<Sum>p \<in> ?A - {(i, j)}. length (m_cmd s p))"
    by (subst sum.remove [OF _ m]) auto
  moreover have "(\<Sum>p \<in> ?A. length (m_cmd s p)) = length (m_cmd s (i, j)) + (\<Sum>p \<in> ?A - {(i, j)}. length (m_cmd s p))"
    by (subst sum.remove [OF _ m]) auto
  ultimately show ?thesis by (simp add: in_channels_def)
qed

text \<open>A step that only changes the worker's own place.\<close>

lemma work_move:
  assumes "w < n" "m_pc s' = (m_pc s)(w := v)" "m_cmd s' = m_cmd s" "weight v < weight (m_pc s w)"
  shows "work n s' < work n s"
proof -
  have "in_channels n s' = in_channels n s" using assms(3) by (simp add: in_channels_def)
  then show ?thesis using tally_upd [OF assms(1), of weight "m_pc s" v] assms(2,4) by (simp add: work_def)
qed

section \<open>One worker on its own\<close>

definition solo :: "nat \<Rightarrow> u64 \<Rightarrow> nat \<Rightarrow> nat \<Rightarrow> mesh \<Rightarrow> mesh" where
  "solo n msk w k = (worker_step n msk w ^^ k)"

lemma solo_0 [simp]: "solo n msk w 0 s = s"
  by (simp add: solo_def)

lemma solo_Suc: "solo n msk w (Suc k) s = solo n msk w k (worker_step n msk w s)"
  by (simp add: solo_def funpow_swap1)

lemma solo_add: "solo n msk w (j + k) s = solo n msk w k (solo n msk w j s)"
  by (induction j arbitrary: s) (simp_all add: solo_Suc)

lemma solo_schedule: "w < n \<Longrightarrow> solo n msk w k s = run_schedule n msk (replicate k w) s"
  by (induction k arbitrary: s) (simp_all add: solo_Suc run_schedule_def)

text \<open>The end of a \<open>pump\<close> without replies, and a whole \<open>pump\<close> over empty inboxes.\<close>

lemma drain_solo:
  assumes "\<forall>q. m_reply s q = []" "m_pc s w = WDrain d k"
  shows "\<exists>m. solo n msk w m s = at_pc w (resume k) s"
  using assms
proof (induction "n - d" arbitrary: d s)
  case 0
  then have "worker_step n msk w s = at_pc w (resume k) s" by (simp add: worker_step_def step_drain_def)
  then show ?case by (intro exI [of _ 1]) (simp add: solo_Suc del: fun_upd_apply)
next
  case (Suc x)
  let ?s = "at_pc w (WDrain (d + 1) k) s"
  have "worker_step n msk w s = ?s" using Suc by (simp add: worker_step_def step_drain_def fifo_deq_def)
  moreover have "x = n - (d + 1)" using Suc.hyps(2) by simp
  from Suc.hyps(1) [OF this, of ?s] Suc.prems(1) obtain m where "solo n msk w m ?s = at_pc w (resume k) ?s" by auto
  ultimately show ?case by (intro exI [of _ "Suc m"]) (simp add: solo_Suc del: fun_upd_apply)
qed

lemma scan_empty:
  assumes "\<forall>q. m_reply s q = []" "m_pc s w = WScan src k" "\<forall>i. src \<le> i \<and> i < n \<longrightarrow> m_cmd s (i, w) = []"
  shows "\<exists>m. solo n msk w m s = at_pc w (resume k) s"
  using assms
proof (induction "n - src" arbitrary: src s)
  case 0
  let ?s = "at_pc w (WDrain 0 k) s"
  have "worker_step n msk w s = ?s" using 0 by (simp add: worker_step_def step_scan_def)
  moreover obtain m where "solo n msk w m ?s = at_pc w (resume k) ?s" using drain_solo [of ?s w 0 k n msk] 0 by auto
  ultimately show ?case by (intro exI [of _ "Suc m"]) (simp add: solo_Suc del: fun_upd_apply)
next
  case (Suc x)
  let ?s = "at_pc w (WScan (src + 1) k) s"
  have "worker_step n msk w s = ?s" using Suc by (simp add: worker_step_def step_scan_def fifo_deq_def)
  moreover have "x = n - (src + 1)" using Suc.hyps(2) by simp
  from Suc.hyps(1) [OF this, of ?s] Suc.prems obtain m where "solo n msk w m ?s = at_pc w (resume k) ?s" by auto
  ultimately show ?case by (intro exI [of _ "Suc m"]) (simp add: solo_Suc del: fun_upd_apply)
qed

text \<open>A \<open>pump\<close> that meets a message takes it.\<close>

lemma scan_hit:
  assumes "type_inv n msk s" "w < n" "m_pc s w = WScan src k" "src \<le> i" "i < n" "m_cmd s (i, w) \<noteq> []"
  shows "\<exists>m. work n (solo n msk w m s) < work n s"
  using assms
proof (induction "n - src" arbitrary: src s)
  case (Suc x)
  show ?case
  proof (cases "m_cmd s (src, w)")
    case Nil
    let ?s = "at_pc w (WScan (src + 1) k) s"
    have step: "worker_step n msk w s = ?s" using Suc Nil by (simp add: worker_step_def step_scan_def fifo_deq_def)
    have "src \<noteq> i" using Nil Suc.prems(6) by auto
    moreover have "put_path msk w (m_pc s w)" using Suc.prems(1,2) by (simp add: type_inv_def)
    then have "type_inv n msk ?s" using Suc.prems(1,3) by (auto simp: type_inv_def)
    moreover have "x = n - (src + 1)" using Suc.hyps(2) by simp
    ultimately obtain m where "work n (solo n msk w m ?s) < work n ?s" using Suc.hyps(1) [of "src + 1" ?s] Suc.prems by auto
    moreover have "weight (WScan (src + 1) k) = weight (m_pc s w)" using Suc.prems(3) by (simp add: weight_def)
    then have "work n ?s = work n s" by (simp add: work_def tally_keep in_channels_def)
    ultimately show ?thesis using step by (intro exI [of _ "Suc m"]) (simp add: solo_Suc del: fun_upd_apply)
  next
    case (Cons c q)
    have src: "src < n" using Suc.hyps(2) by simp
    have "c \<in> set (m_cmd s (src, w))" using Cons by simp
    then obtain key val where "c = CPut key val" using Suc.prems(1) unfolding type_inv_def by blast
    then have step: "worker_step n msk w s = at_pc w (WApply src k) (shard_insert w src (key, val) s)\<lparr>m_cmd := (m_cmd s)((src, w) := q)\<rparr>"
      using Suc.prems(3) Cons src by (simp add: worker_step_def step_scan_def fifo_deq_def)
    let ?s = "worker_step n msk w s"
    have "in_channels n ?s + 1 = in_channels n s"
      using in_channels_upd [OF src Suc.prems(2), of s q] Cons by (simp add: step in_channels_def shard_insert_def)
    moreover have "tally n weight (m_pc ?s) = tally n weight (m_pc s) + 1"
      using tally_upd [OF Suc.prems(2), of weight "m_pc s" "WApply src k"] Suc.prems(3) by (simp add: step weight_def shard_insert_def)
    ultimately show ?thesis by (intro exI [of _ 1]) (simp add: solo_Suc work_def)
  qed
qed simp

section \<open>Some worker makes progress\<close>

definition mesh_ok :: "nat \<Rightarrow> u64 \<Rightarrow> (nat \<Rightarrow> put_item list) \<Rightarrow> bool" where
  "mesh_ok n msk wl \<longleftrightarrow> (\<forall>k. mesh_route k msk < n) \<and> tally n length wl + n < 2 ^ 64"

definition progress :: "nat \<Rightarrow> u64 \<Rightarrow> nat \<Rightarrow> mesh \<Rightarrow> bool" where
  "progress n msk w s \<longleftrightarrow> (\<exists>m. work n (solo n msk w m s) < work n s)"

lemma progress_now: "work n (worker_step n msk w s) < work n s \<Longrightarrow> progress n msk w s"
  unfolding progress_def by (rule exI [of _ 1]) (simp add: solo_Suc)

lemma progress_later: "work n (solo n msk w m s) = work n s \<Longrightarrow> progress n msk w (solo n msk w m s) \<Longrightarrow> progress n msk w s"
  unfolding progress_def by (metis solo_add)

lemma progress_step: "work n (worker_step n msk w s) = work n s \<Longrightarrow> progress n msk w (worker_step n msk w s) \<Longrightarrow> progress n msk w s"
  using progress_later [of n msk w 1 s] by (simp add: solo_Suc)

lemma work_at_pc: "weight v = weight (m_pc s w) \<Longrightarrow> work n (at_pc w v s) = work n s"
  by (simp add: work_def tally_keep in_channels_def)

lemma inv_worker: "mesh_inv n msk wl s \<Longrightarrow> mesh_ok n msk wl \<Longrightarrow> w < n \<Longrightarrow> mesh_inv n msk wl (worker_step n msk w s)"
  unfolding mesh_ok_def using mesh_inv_step by blast

lemma inv_solo: "mesh_inv n msk wl s \<Longrightarrow> mesh_ok n msk wl \<Longrightarrow> w < n \<Longrightarrow> mesh_inv n msk wl (solo n msk w m s)"
  by (induction m arbitrary: s) (simp_all add: solo_Suc inv_worker)

text \<open>Points where the next step is progress.\<close>

lemma progress_items:
  assumes "w < n" "m_pc s w = WItems xs \<or> m_pc s w = WAnnounce \<or> m_pc s w = WApply src k"
  shows "progress n msk w s"
proof (rule progress_now)
  let ?s = "worker_step n msk w s"
  have "m_cmd ?s = m_cmd s \<and> m_pc ?s = (m_pc s)(w := m_pc ?s w) \<and> weight (m_pc ?s w) < weight (m_pc s w)"
    using assms(2) by (auto simp: worker_step_def step_items_def weight_def split: list.splits)
  then show "work n ?s < work n s" using work_move [OF assms(1), of ?s s] by blast
qed

lemma progress_route:
  assumes "w < n" "m_pc s w = WRoute it xs"
  shows "progress n msk w s"
proof (rule progress_now)
  let ?s = "worker_step n msk w s"
  have "m_cmd ?s = m_cmd s \<and> m_pc ?s = (m_pc s)(w := m_pc ?s w) \<and> weight (m_pc ?s w) < weight (m_pc s w)"
    using assms(2) by (auto simp: worker_step_def step_route_def shard_insert_def weight_def)
  then show "work n ?s < work n s" using work_move [OF assms(1), of ?s s] by blast
qed

lemma progress_push:
  assumes "w < n" "m_pc s w = WPush it xs" "mesh_route (fst it) msk = j" "j < n" "length (m_cmd s (w, j)) < mesh_cap"
  shows "progress n msk w s"
proof (rule progress_now)
  let ?s = "worker_step n msk w s"
  let ?q = "m_cmd s (w, j) @ [CPut (fst it) (snd it)]"
  have step: "?s = at_pc w (WScan 0 (KItems xs)) s\<lparr>m_cmd := (m_cmd s)((w, j) := ?q)\<rparr>"
    using assms(2-5) by (simp add: worker_step_def step_push_def fifo_enq_def Let_def)
  have "in_channels n ?s = in_channels n s + 1" using in_channels_upd [OF assms(1,4), of s ?q] by (simp add: step in_channels_def)
  moreover have "tally n weight (m_pc ?s) + 3 = tally n weight (m_pc s)"
    using tally_upd [OF assms(1), of weight "m_pc s" "WScan 0 (KItems xs)"] assms(2) by (simp add: step weight_def)
  ultimately show "work n ?s < work n s" by (simp add: work_def)
qed

text \<open>A worker with a message in some inbox.\<close>

lemma progress_scan0:
  assumes "mesh_inv n msk wl s" "w < n" "i < n" "m_cmd s (i, w) \<noteq> []" "m_pc s w = WScan 0 k"
  shows "progress n msk w s"
  using scan_hit [OF mesh_invD(2) [OF assms(1)] assms(2,5) _ assms(3,4)] by (simp add: progress_def)

lemma progress_base:
  assumes "mesh_inv n msk wl s" "mesh_ok n msk wl" "w < n" "i < n" "m_cmd s (i, w) \<noteq> []"
    "m_pc s w = WPush it xs \<or> m_pc s w = WLoadApplied b x"
  shows "progress n msk w s"
proof -
  let ?s = "worker_step n msk w s"
  have i': "mesh_inv n msk wl ?s" by (rule inv_worker [OF assms(1-3)])
  from assms(6) show ?thesis
  proof
    assume p: "m_pc s w = WPush it xs"
    define j where "j = mesh_route (fst it) msk"
    have j: "j < n" using assms(2) by (simp add: mesh_ok_def j_def)
    show ?thesis
    proof (cases "length (m_cmd s (w, j)) < mesh_cap")
      case True
      then show ?thesis using progress_push [OF assms(3) p _ j] by (simp add: j_def)
    next
      case False
      then have step: "?s = at_pc w (WScan 0 (KSend it xs)) s"
        using p j by (simp add: worker_step_def step_push_def fifo_enq_def Let_def flip: j_def)
      have "work n ?s = work n s" unfolding step by (rule work_at_pc) (simp add: p weight_def)
      moreover have "progress n msk w ?s" using assms(5) by (intro progress_scan0 [OF i' assms(3,4)]) (simp_all add: step)
      ultimately show ?thesis by (rule progress_step)
    qed
  next
    assume p: "m_pc s w = WLoadApplied b x"
    show ?thesis
    proof (cases "b \<and> x = m_applied s")
      case True
      then have step: "?s = at_pc w (WScan 0 KLast) s" using p by (simp add: worker_step_def)
      have "work n ?s < work n s" by (rule work_move [OF assms(3), of _ _ "WScan 0 KLast"]) (simp_all add: step p weight_def)
      then show ?thesis by (rule progress_now)
    next
      case False
      then have step: "?s = at_pc w (WScan 0 KQuiesce) s" using p by (auto simp: worker_step_def)
      have "work n ?s = work n s" unfolding step by (rule work_at_pc) (simp add: p weight_def)
      moreover have "progress n msk w ?s" using assms(5) by (intro progress_scan0 [OF i' assms(3,4)]) (simp_all add: step)
      ultimately show ?thesis by (rule progress_step)
    qed
  qed
qed

text \<open>
  From the loads of the check the worker comes to the comparison, from inside a \<open>pump\<close> back to where
  it was called; neither changes the work.
\<close>

lemma progress_loads:
  assumes "\<And>s b x. mesh_inv n msk wl s \<Longrightarrow> P s \<Longrightarrow> m_pc s w = WLoadApplied b x \<Longrightarrow> progress n msk w s"
    "\<And>s v. P s \<Longrightarrow> announced v \<Longrightarrow> applying v = 0 \<Longrightarrow> announced (m_pc s w) \<Longrightarrow> P (at_pc w v s)"
    "mesh_inv n msk wl s" "mesh_ok n msk wl" "w < n" "P s"
    "m_pc s w = WLoadDone \<or> m_pc s w = WLoadSent b \<or> m_pc s w = WLoadApplied b x"
  shows "progress n msk w s"
proof -
  have sent: "progress n msk w t" if t: "mesh_inv n msk wl t" "P t" "m_pc t w = WLoadSent c" for t c
  proof -
    have step: "worker_step n msk w t = at_pc w (WLoadApplied c (m_sent t)) t" using t(3) by (simp add: worker_step_def)
    have "work n (worker_step n msk w t) = work n t" unfolding step by (rule work_at_pc) (simp add: t(3) weight_def)
    moreover have "P (worker_step n msk w t)" unfolding step using t by (intro assms(2)) simp_all
    then have "progress n msk w (worker_step n msk w t)"
      using inv_worker [OF t(1) assms(4,5)] by (intro assms(1)) (simp_all add: step)
    ultimately show ?thesis by (rule progress_step)
  qed
  have done1: "progress n msk w s" if p: "m_pc s w = WLoadDone"
  proof -
    have step: "worker_step n msk w s = at_pc w (WLoadSent (m_phase1 s = of_nat n)) s" using p by (simp add: worker_step_def)
    have "work n (worker_step n msk w s) = work n s" unfolding step by (rule work_at_pc) (simp add: p weight_def)
    moreover have "P (worker_step n msk w s)" unfolding step using assms(6) p by (intro assms(2)) simp_all
    then have "progress n msk w (worker_step n msk w s)"
      using inv_worker [OF assms(3-5)] by (intro sent) (simp_all add: step)
    ultimately show ?thesis by (rule progress_step)
  qed
  from assms(7) show ?thesis using done1 sent [OF assms(3,6)] assms(1) [OF assms(3,6)] by blast
qed

lemma weight_resume: "weight (resume k) = weight (WScan src k)" "weight (resume k) = weight (WDrain d k)"
  by (cases k; simp add: weight_def)+

lemma progress_resume:
  assumes "mesh_inv n msk wl s" "mesh_ok n msk wl" "w < n" "m_pc s w = WScan src k \<or> m_pc s w = WDrain d k"
    "mesh_inv n msk wl (at_pc w (resume k) s) \<Longrightarrow> progress n msk w (at_pc w (resume k) s)"
  shows "progress n msk w s"
proof -
  have rep: "\<forall>q. m_reply s q = []" using mesh_invD(2) [OF assms(1)] unfolding type_inv_def by blast
  have go: ?thesis if ex: "\<exists>m. solo n msk w m s = at_pc w (resume k) s"
  proof -
    obtain m where m: "solo n msk w m s = at_pc w (resume k) s" using ex by blast
    have "weight (resume k) = weight (m_pc s w)" using assms(4) weight_resume by metis
    then have "work n (solo n msk w m s) = work n s" unfolding m by (rule work_at_pc)
    moreover have "progress n msk w (solo n msk w m s)" using assms(5) inv_solo [OF assms(1-3), of m] unfolding m by blast
    ultimately show ?thesis by (rule progress_later)
  qed
  from assms(4) show ?thesis
  proof
    assume p: "m_pc s w = WScan src k"
    show ?thesis
    proof (cases "\<exists>i. src \<le> i \<and> i < n \<and> m_cmd s (i, w) \<noteq> []")
      case True
      then show ?thesis using scan_hit [OF mesh_invD(2) [OF assms(1)] assms(3) p] by (auto simp: progress_def)
    next
      case False
      then show ?thesis using scan_empty [OF rep p, of n msk] by (intro go) blast
    qed
  next
    assume "m_pc s w = WDrain d k"
    then show ?thesis using drain_solo [OF rep, of w d k n msk] by (intro go) blast
  qed
qed

text \<open>First case: there is a message for \<open>w\<close>.\<close>

lemma progress_inbox:
  assumes "mesh_inv n msk wl s" "mesh_ok n msk wl" "w < n" "i < n" "m_cmd s (i, w) \<noteq> []"
  shows "progress n msk w s"
proof -
  have base: "progress n msk w t" if t: "mesh_inv n msk wl t" "m_cmd t (i, w) \<noteq> []"
      "\<forall>src k. m_pc t w \<noteq> WScan src k" "\<forall>d k. m_pc t w \<noteq> WDrain d k" for t
  proof -
    have pp: "put_path msk w (m_pc t w)" using mesh_invD(2) [OF t(1)] assms(3) by (simp add: type_inv_def)
    have nf: "\<not> finished n t" using t(2) assms(3,4) unfolding finished_def by blast
    have ne: "m_pc t w \<noteq> WExit" using mesh_invD(4) [OF t(1) assms(3)] nf by auto
    note ap = progress_base [OF _ assms(2-4)]
    have loads: "progress n msk w t" if "m_pc t w = WLoadDone \<or> m_pc t w = WLoadSent b \<or> m_pc t w = WLoadApplied b x" for b x
      by (rule progress_loads [OF _ _ t(1) assms(2,3) _ that, where P = "\<lambda>t. m_cmd t (i, w) \<noteq> []"])
        (use ap t(2) in auto)
    show ?thesis
      using pp ne t(3,4) progress_items [OF assms(3)] progress_route [OF assms(3)] ap [OF t(1,2)] loads
      by (cases "m_pc t w") auto
  qed
  have nf: "\<not> finished n s" using assms(3-5) unfolding finished_def by blast
  show ?thesis
  proof (cases "\<exists>src d k. m_pc s w = WScan src k \<or> m_pc s w = WDrain d k")
    case True
    then obtain src d k where p: "m_pc s w = WScan src k \<or> m_pc s w = WDrain d k" by blast
    have r: "resume k \<noteq> WScan a b" "resume k \<noteq> WDrain a b" for a b by (cases k; simp)+
    show ?thesis by (rule progress_resume [OF assms(1-3) p]) (use base assms(5) r in auto)
  next
    case False
    then show ?thesis using base [OF assms(1,5)] by blast
  qed
qed

text \<open>Second case: all channels are empty and \<open>w\<close> has not announced its end.\<close>

lemma progress_sender:
  assumes "mesh_inv n msk wl s" "mesh_ok n msk wl" "w < n" "\<forall>i < n. \<forall>j < n. m_cmd s (i, j) = []" "\<not> announced (m_pc s w)"
  shows "progress n msk w s"
proof -
  have base: "progress n msk w t" if t: "\<forall>i < n. \<forall>j < n. m_cmd t (i, j) = []"
      "(\<exists>xs. m_pc t w = WItems xs) \<or> (\<exists>it xs. m_pc t w = WPush it xs)" for t
  proof -
    have "progress n msk w t" if "m_pc t w = WPush it xs" for it xs
    proof -
      define j where "j = mesh_route (fst it) msk"
      have "j < n" using assms(2) by (simp add: mesh_ok_def j_def)
      then show ?thesis using progress_push [OF assms(3) that j_def [symmetric]] t(1) assms(3) by (simp add: mesh_cap_def)
    qed
    then show ?thesis using t(2) progress_items [OF assms(3)] by blast
  qed
  have pp: "put_path msk w (m_pc s w)" using mesh_invD(2) [OF assms(1)] assms(3) by (simp add: type_inv_def)
  have res: "progress n msk w s" if p: "m_pc s w = WScan src k \<or> m_pc s w = WDrain d k" for src d k
  proof (rule progress_resume [OF assms(1-3) p])
    have "\<not> ann_k k" using p assms(5) by auto
    then have "(\<exists>xs. resume k = WItems xs) \<or> (\<exists>it xs. resume k = WPush it xs)" by (cases k) auto
    then show "progress n msk w (at_pc w (resume k) s)" using assms(4) by (intro base) simp_all
  qed
  show ?thesis
    using pp assms(5) progress_items [OF assms(3)] progress_route [OF assms(3)] base [OF assms(4)] res by (cases "m_pc s w") auto
qed

text \<open>Third case: the mesh is quiescent; the check of a worker succeeds.\<close>

lemma finished_counters:
  assumes "mesh_inv n msk wl s" "mesh_ok n msk wl" "finished n s"
  shows "m_sent s = m_applied s" "m_phase1 s = of_nat n"
proof -
  note i = mesh_invD [OF assms(1)]
  have a: "all_announced n s" and q: "\<forall>i < n. \<forall>j < n. m_cmd s (i, j) = []" and ap: "\<forall>w < n. applying (m_pc s w) = 0"
    using assms(3) by (simp_all add: finished_def)
  have z: "tally n unsent (m_pc s) = 0" "tally n (\<lambda>pc. length (todo pc)) (m_pc s) = 0" "tally n applying (m_pc s) = 0"
    using a announced_idle ap by (auto simp: all_announced_def tally_def)
  have "tally n length wl = tally n length (m_hist s)"
    using conservation [OF i(1,2)] assms(2) z(2) q by (simp add: mesh_ok_def)
  then show "m_sent s = m_applied s" using i(3) z by (simp add: count_inv_def)
  show "m_phase1 s = of_nat n" using i(3) a by (simp add: count_inv_def all_announced_iff)
qed

lemma finished_at_pc: "finished n s \<Longrightarrow> announced v \<Longrightarrow> applying v = 0 \<Longrightarrow> finished n (at_pc w v s)"
  by (auto simp: finished_def all_announced_def)

lemma progress_compare:
  assumes "mesh_inv n msk wl s" "mesh_ok n msk wl" "w < n" "finished n s" "m_pc s w = WLoadApplied True (m_sent s)"
  shows "progress n msk w s"
proof (rule progress_now)
  have "worker_step n msk w s = at_pc w (WScan 0 KLast) s"
    using assms(5) finished_counters(1) [OF assms(1,2,4)] by (simp add: worker_step_def)
  then show "work n (worker_step n msk w s) < work n s"
    using assms(5) by (intro work_move [OF assms(3), of _ _ "WScan 0 KLast"]) (simp_all add: weight_def)
qed

lemma progress_load:
  assumes "mesh_inv n msk wl s" "mesh_ok n msk wl" "w < n" "finished n s" "m_pc s w = WLoadDone"
  shows "progress n msk w s"
proof -
  let ?a = "worker_step n msk w s" let ?b = "worker_step n msk w ?a"
  have a: "?a = at_pc w (WLoadSent True) s" using assms(5) finished_counters(2) [OF assms(1,2,4)] by (simp add: worker_step_def)
  have b: "?b = at_pc w (WLoadApplied True (m_sent s)) s" unfolding a by (simp add: worker_step_def)
  have wa: "work n ?a = work n s" unfolding a by (rule work_at_pc) (simp add: assms(5) weight_def)
  have "work n ?b = work n s" unfolding b by (rule work_at_pc) (simp add: assms(5) weight_def)
  then have "work n ?b = work n ?a" "work n ?a = work n s" using wa by simp_all
  moreover have "progress n msk w ?b"
    using inv_worker [OF inv_worker [OF assms(1-3)] assms(2,3)] finished_at_pc [OF assms(4)]
    by (intro progress_compare [OF _ assms(2,3)]) (simp_all add: b)
  ultimately show ?thesis using progress_step by metis
qed

lemma progress_check:
  assumes "mesh_inv n msk wl s" "mesh_ok n msk wl" "w < n" "finished n s" "weight (m_pc s w) \<noteq> 0"
  shows "progress n msk w s"
proof -
  have scan: "progress n msk w t" if t: "mesh_inv n msk wl t" "finished n t" "m_pc t w = WScan src KQuiesce \<or> m_pc t w = WDrain d KQuiesce" for t src d
    by (rule progress_resume [OF t(1) assms(2,3) t(3)]) (use progress_load [OF _ assms(2,3)] finished_at_pc [OF t(2)] in simp)
  have cmp': "progress n msk w t" if t: "mesh_inv n msk wl t" "finished n t" "m_pc t w = WLoadApplied b x" for t b x
  proof (cases "b \<and> x = m_applied t")
    case True
    then show ?thesis using progress_compare [OF t(1) assms(2,3) t(2)] t(3) finished_counters(1) [OF t(1) assms(2) t(2)] by simp
  next
    case False
    then have a: "worker_step n msk w t = at_pc w (WScan 0 KQuiesce) t" using t(3) by (auto simp: worker_step_def)
    have "work n (worker_step n msk w t) = work n t" unfolding a by (rule work_at_pc) (simp add: t(3) weight_def)
    moreover have "progress n msk w (worker_step n msk w t)"
      using inv_worker [OF t(1) assms(2,3)] finished_at_pc [OF t(2)] by (intro scan [of _ 0]) (simp_all add: a)
    ultimately show ?thesis by (rule progress_step)
  qed
  have loads: "progress n msk w s" if "m_pc s w = WLoadDone \<or> m_pc s w = WLoadSent b \<or> m_pc s w = WLoadApplied b x" for b x
    by (rule progress_loads [OF cmp' finished_at_pc assms(1-3,4) that])
  have a: "announced (m_pc s w)" "applying (m_pc s w) = 0" using assms(3,4) by (auto simp: finished_def all_announced_def)
  have k: "ann_k k \<Longrightarrow> k = KQuiesce \<or> k = KLast" for k by (cases k) auto
  have w0: "weight (WScan src KLast) = 0" "weight (WDrain d KLast) = 0" "weight WExit = 0" for src d by (simp_all add: weight_def)
  show ?thesis
    using a assms(5) loads scan [OF assms(1,4)] k w0 by (cases "m_pc s w") (auto dest!: k)
qed

text \<open>Together: while there is work, some worker makes progress.\<close>

lemma some_progress:
  assumes "mesh_inv n msk wl s" "mesh_ok n msk wl" "work n s \<noteq> 0"
  shows "\<exists>w < n. progress n msk w s"
proof (cases "\<forall>i < n. \<forall>j < n. m_cmd s (i, j) = []")
  case False
  then show ?thesis using progress_inbox [OF assms(1,2)] by blast
next
  case empty: True
  show ?thesis
  proof (cases "all_announced n s \<and> (\<forall>w < n. applying (m_pc s w) = 0)")
    case True
    then have f: "finished n s" using empty by (simp add: finished_def)
    have "in_channels n s = 0" using empty by (auto simp: in_channels_def)
    then have "tally n weight (m_pc s) \<noteq> 0" using assms(3) by (simp add: work_def)
    then obtain w where "w < n" "weight (m_pc s w) \<noteq> 0" by (auto simp: tally_def)
    then show ?thesis using progress_check [OF assms(1,2) _ f] by blast
  next
    case False
    then consider w where "w < n" "\<not> announced (m_pc s w)" | w where "w < n" "applying (m_pc s w) \<noteq> 0"
      by (auto simp: all_announced_def)
    then show ?thesis
    proof cases
      case 1
      then show ?thesis using progress_sender [OF assms(1,2) _ empty] by blast
    next
      case (2 w)
      then obtain src k where "m_pc s w = WApply src k" by (cases "m_pc s w") auto
      then show ?thesis using progress_items [OF 2(1)] 2(1) by blast
    qed
  qed
qed

section \<open>All workers reach their exit\<close>

lemma weight_0: "put_path msk w pc \<Longrightarrow> weight pc = 0 \<Longrightarrow> (\<exists>src. pc = WScan src KLast) \<or> (\<exists>d. pc = WDrain d KLast) \<or> pc = WExit"
proof -
  have "tail_k k = 0 \<Longrightarrow> k = KLast" for k by (cases k) auto
  then show "put_path msk w pc \<Longrightarrow> weight pc = 0 \<Longrightarrow> (\<exists>src. pc = WScan src KLast) \<or> (\<exists>d. pc = WDrain d KLast) \<or> pc = WExit"
    by (cases pc) (auto simp: weight_def)
qed

lemma run_schedule_append: "run_schedule n msk (us @ vs) s = run_schedule n msk vs (run_schedule n msk us s)"
  by (simp add: run_schedule_def)

lemma exit_one:
  assumes "mesh_inv n msk wl s" "w < n" "weight (m_pc s w) = 0"
  shows "\<exists>m. solo n msk w m s = at_pc w WExit s"
proof -
  note i = mesh_invD [OF assms(1)]
  have rep: "\<forall>q. m_reply s q = []" using i(2) unfolding type_inv_def by blast
  have pp: "put_path msk w (m_pc s w)" using i(2) assms(2) by (simp add: type_inv_def)
  have kn: "knows n s (m_pc s w)" by (rule i(4) [OF assms(2)])
  from weight_0 [OF pp assms(3)] show ?thesis
  proof (elim disjE exE)
    fix src assume p: "m_pc s w = WScan src KLast"
    then have "\<forall>i. src \<le> i \<and> i < n \<longrightarrow> m_cmd s (i, w) = []" using kn assms(2) by (simp add: finished_def)
    then show ?thesis using scan_empty [OF rep p, of n msk] by simp
  next
    fix d assume "m_pc s w = WDrain d KLast"
    then show ?thesis using drain_solo [OF rep, of w d KLast n msk] by simp
  next
    assume "m_pc s w = WExit"
    then have "at_pc w WExit s = s" by (simp add: fun_upd_idem)
    then show ?thesis by (intro exI [of _ 0]) simp
  qed
qed

lemma exit_all:
  assumes "mesh_inv n msk wl s" "mesh_ok n msk wl" "work n s = 0" "m \<le> n"
  shows "\<exists>ws. \<forall>w < n. m_pc (run_schedule n msk ws s) w = (if w < m then WExit else m_pc s w)"
  using assms(4)
proof (induction m)
  case 0
  show ?case by (intro exI [of _ "[]"]) (simp add: run_schedule_def)
next
  case (Suc m)
  then obtain ws where ws: "\<forall>w < n. m_pc (run_schedule n msk ws s) w = (if w < m then WExit else m_pc s w)" by auto
  let ?s = "run_schedule n msk ws s"
  have m: "m < n" using Suc.prems by simp
  have "weight (m_pc s m) = 0" using assms(3) m by (auto simp: work_def tally_def)
  then have "weight (m_pc ?s m) = 0" using ws m by simp
  moreover have "mesh_inv n msk wl ?s" using mesh_inv_run assms(1,2) by (simp add: mesh_ok_def)
  ultimately obtain k where k: "solo n msk m k ?s = at_pc m WExit ?s" using exit_one m by blast
  have "run_schedule n msk (ws @ replicate k m) s = at_pc m WExit ?s"
    using k solo_schedule [OF m, of msk k ?s] by (simp add: run_schedule_append)
  then show ?case using ws by (intro exI [of _ "ws @ replicate k m"]) (auto simp: less_Suc_eq)
qed

lemma mesh_completes:
  assumes "mesh_inv n msk wl s" "mesh_ok n msk wl"
  shows "\<exists>ws. \<forall>w < n. m_pc (run_schedule n msk ws s) w = WExit"
  using assms(1)
proof (induction "work n s" arbitrary: s rule: less_induct)
  case less
  show ?case
  proof (cases "work n s = 0")
    case True
    then show ?thesis using exit_all [OF less.prems assms(2) _ order_refl] by auto
  next
    case False
    then obtain w m where w: "w < n" "work n (solo n msk w m s) < work n s"
      using some_progress [OF less.prems assms(2)] by (auto simp: progress_def)
    then obtain ws where "\<forall>u < n. m_pc (run_schedule n msk ws (solo n msk w m s)) u = WExit"
      using less.hyps [OF w(2)] inv_solo [OF less.prems assms(2) w(1)] by blast
    then show ?thesis using solo_schedule [OF w(1), of msk m s]
      by (intro exI [of _ "replicate m w @ ws"]) (simp add: run_schedule_append)
  qed
qed

section \<open>Properties\<close>

definition mesh_run :: "usize \<Rightarrow> (nat \<Rightarrow> put_item list) \<Rightarrow> nat list \<Rightarrow> mesh" where
  "mesh_run requested wl ws = run_schedule (unat (mesh_size requested)) (mesh_size requested - 1) ws (mesh_start wl)"

lemma mesh_ok_size:
  assumes "unat requested \<le> 2 ^ 63" "tally (unat (mesh_size requested)) length wl + unat (mesh_size requested) < 2 ^ 64"
  shows "mesh_ok (unat (mesh_size requested)) (mesh_size requested - 1) wl"
  using size_routes(1) [OF assms(1)] assms(2) by (simp add: mesh_ok_def)

lemma mesh_run_inv:
  assumes "mesh_ok (unat (mesh_size requested)) (mesh_size requested - 1) wl"
  shows "mesh_inv (unat (mesh_size requested)) (mesh_size requested - 1) wl (mesh_run requested wl ws)"
  unfolding mesh_run_def using assms by (intro mesh_inv_run mesh_inv_start) (simp_all add: mesh_ok_def)

lemma hist_owned:
  assumes "data_inv n msk wl s" "type_inv n msk s" "j < n" "e \<in> set (m_hist s j)"
  shows "mesh_route (fst (snd e)) msk = j"
proof -
  have i: "fst e < n" using assms(2,4) by (auto simp: type_inv_def)
  then have "owned msk j (wl (fst e)) = from_src (fst e) (m_hist s j) @ map item_of (m_cmd s (fst e, j)) @ owned msk j (todo (m_pc s (fst e)))"
    using assms(1,3) by (simp add: data_inv_def)
  moreover have "snd e \<in> set (from_src (fst e) (m_hist s j))" using assms(4) by (auto simp: from_src_def)
  ultimately have "snd e \<in> set (owned msk j (wl (fst e)))" by simp
  then show ?thesis by (simp add: owned_def)
qed

text \<open>C7: The mesh loses nothing, applies nothing twice and keeps the order of every worker: when some
  worker has exited, in whatever order the workers ran, each shard has applied from each worker exactly
  that worker's puts for the shard, in the order of its workload, and holds the map these puts make;
  a shard holds only keys that are routed to it; and \<open>shutdown\<close> returns the number of all puts.\<close>

theorem mesh_applies_workload:
  assumes "unat requested \<le> 2 ^ 63" "tally (unat (mesh_size requested)) length wl + unat (mesh_size requested) < 2 ^ 64"
    "w < unat (mesh_size requested)" "m_pc (mesh_run requested wl ws) w = WExit"
  shows "let n = unat (mesh_size requested); msk = mesh_size requested - 1; s = mesh_run requested wl ws in
    (\<forall>i < n. \<forall>j < n. from_src i (m_hist s j) = owned msk j (wl i)) \<and>
    (\<forall>j < n. m_shard s j = apply_puts (m_hist s j) \<and> (\<forall>k \<in> dom (m_shard s j). mesh_route k msk = j)) \<and>
    mesh_shutdown s = of_nat (tally n length wl)"
proof -
  define n msk s where "n = unat (mesh_size requested)" and "msk = mesh_size requested - 1" and "s = mesh_run requested wl ws"
  have ok: "mesh_ok n msk wl" unfolding n_def msk_def by (rule mesh_ok_size [OF assms(1,2)])
  have inv: "mesh_inv n msk wl s" unfolding n_def msk_def s_def by (rule mesh_run_inv) (use ok in \<open>simp add: n_def msk_def\<close>)
  note i = mesh_invD [OF inv]
  have f: "finished n s" using i(4) [of w] assms(3,4) by (simp add: n_def s_def)
  have idle: "todo (m_pc s u) = []" "unsent (m_pc s u) = 0" if "u < n" for u
    using f announced_idle that by (auto simp: finished_def all_announced_def)
  have "from_src u (m_hist s j) = owned msk j (wl u)" if "u < n" "j < n" for u j
    using i(1) that f idle(1) [OF that(1)] by (auto simp: data_inv_def finished_def owned_def)
  moreover have "m_shard s j = apply_puts (m_hist s j)" for j using i(2) by (simp add: type_inv_def)
  moreover have "mesh_route k msk = j" if "j < n" "k \<in> dom (apply_puts (m_hist s j))" for j k
    using hist_owned [OF i(1,2) that(1)] that(2) by (auto simp: dom_apply_puts)
  moreover have "m_applied s = of_nat (tally n length wl)"
    using i(3) finished_counters(1) [OF inv ok f] idle(2) by (simp add: count_inv_def tally_def)
  ultimately show ?thesis by (simp add: Let_def mesh_shutdown_def flip: n_def msk_def s_def)
qed

text \<open>C8: The mesh cannot deadlock under backpressure: whatever the workers have done so far, no worker
  has panicked, and some continuation takes all of them to their exit.\<close>

theorem mesh_never_stuck:
  assumes "unat requested \<le> 2 ^ 63" "tally (unat (mesh_size requested)) length wl + unat (mesh_size requested) < 2 ^ 64"
  shows "(\<forall>w < unat (mesh_size requested). m_pc (mesh_run requested wl ws) w \<noteq> WPanic) \<and>
    (\<exists>ws'. \<forall>w < unat (mesh_size requested). m_pc (mesh_run requested wl (ws @ ws')) w = WExit)"
proof -
  have ok: "mesh_ok (unat (mesh_size requested)) (mesh_size requested - 1) wl" by (rule mesh_ok_size [OF assms])
  note inv = mesh_run_inv [OF ok, of ws]
  have "m_pc (mesh_run requested wl ws) w \<noteq> WPanic" if "w < unat (mesh_size requested)" for w
    using mesh_invD(2) [OF inv] that by (auto simp: type_inv_def)
  moreover obtain ws' where "\<forall>w < unat (mesh_size requested). m_pc (run_schedule (unat (mesh_size requested))
      (mesh_size requested - 1) ws' (mesh_run requested wl ws)) w = WExit" using mesh_completes [OF inv ok] by blast
  ultimately show ?thesis by (auto simp: mesh_run_def run_schedule_append)
qed

text \<open>Two workers, each with a put.\<close>

definition demo_load :: "nat \<Rightarrow> put_item list" where
  "demo_load w = (if w < 2 then [([of_nat w], [7])] else [])"

lemma demo_size: "mesh_size 2 = 2"
  by code_simp

lemma demo_workers: "unat (mesh_size 2) = 2"
  by (simp add: demo_size)

lemma demo_sum: "tally 2 length demo_load = 2"
  by (simp add: tally_def demo_load_def lessThan_nat_numeral lessThan_Suc)

lemma demo_tally: "tally (unat (mesh_size 2)) length demo_load + unat (mesh_size 2) < 2 ^ 64"
  by (simp add: demo_workers demo_sum)

theorem mesh_applies_workload_witness:
  "\<exists>ws. mesh_shutdown (mesh_run 2 demo_load ws) = 2 \<and>
    from_src 0 (m_hist (mesh_run 2 demo_load ws) 1) = owned 1 1 [([0], [7])]"
proof -
  have ok: "mesh_ok (unat (mesh_size 2)) (mesh_size 2 - 1) demo_load" by (rule mesh_ok_size [OF _ demo_tally]) simp
  obtain ws where "\<forall>w < unat (mesh_size 2). m_pc (run_schedule (unat (mesh_size 2)) (mesh_size 2 - 1) ws (mesh_start demo_load)) w = WExit"
    using mesh_completes [OF mesh_inv_start ok] by blast
  then have "m_pc (mesh_run 2 demo_load ws) 0 = WExit" by (simp add: mesh_run_def demo_workers)
  from mesh_applies_workload [OF _ demo_tally _ this] show ?thesis
    by (intro exI [of _ ws]) (simp add: demo_workers demo_size demo_sum demo_load_def Let_def)
qed

theorem mesh_never_stuck_witness:
  "\<exists>ws'. m_pc (mesh_run 2 demo_load ([0, 1, 0, 0] @ ws')) 0 = WExit \<and> m_pc (mesh_run 2 demo_load ([0, 1, 0, 0] @ ws')) 1 = WExit"
proof -
  obtain ws' where e: "m_pc (mesh_run 2 demo_load ([0, 1, 0, 0] @ ws')) w = WExit" if "w < 2" for w
    using mesh_never_stuck [OF _ demo_tally, of "[0, 1, 0, 0]"] unfolding demo_workers by auto
  show ?thesis using e [of 0] e [of 1] by (intro exI [of _ ws']) simp
qed

end
