(* ===== verification/MeshService.thy ===== *)
theory MeshService
  imports Mesh
begin

text \<open>
  The mesh as a service, the second half of \<open>crates/zerokv/src/mesh.rs\<close>: clients submit requests to
  the ingress of a worker and block until they are answered, workers serve the keys they own and
  forward the rest.  An ingress is the stack of the interface, a completion is an entry of
  \<open>v_answer\<close> (their implementations are the subject of the theories \<open>Ingress\<close> and \<open>ReqCompletion\<close>).
  An event is one access of one thread to shared memory, with the private work before it, so every
  interleaving of clients and workers is a list of events.
\<close>

section \<open>Requests\<close>

datatype client_op = OPut bytes bytes | OGet bytes

fun op_key :: "client_op \<Rightarrow> bytes" where
  "op_key (OPut k v) = k"
| "op_key (OGet k) = k"

text \<open>
  A request of a client: its operation, the worker that accepts it and, as history, how many puts the
  owner of the key had applied when the call began.  Requests are numbered in the order of the calls.
\<close>

record call =
  c_op :: client_op
  c_accept :: nat
  c_start :: nat

section \<open>State\<close>

text \<open>
  What a worker does after \<open>pump_matrix\<close>: go on in \<open>service_loop\<close>, or retry the push of a command,
  then acknowledge a request, if any, and serve the rest of the drained ones.
\<close>

datatype vcont = VLoop | VRetry command "nat option" "nat list"

text \<open>
  Where a worker is; \<open>p\<close> is \<open>progressed\<close>.  \<open>pump_matrix\<close>: \<open>VScan\<close> before a pop of a command,
  \<open>VReply\<close> before the push of a reply, \<open>VReplyDrain\<close> in \<open>collect_replies\<close> between two such pushes,
  \<open>VCollect\<close> in the final \<open>collect_replies\<close>.  \<open>drain_ingress\<close>: \<open>VIngress\<close> before the swap, \<open>VServe\<close>
  before the next request, \<open>VPush\<close> before the push of a command.  \<open>VFulfill\<close>: before \<open>fulfill\<close>, with
  where to go on.  \<open>VStop\<close> and \<open>VHead\<close>: before the loads at the end of the loop.
\<close>

datatype vpc =
    VScan bool nat vcont
  | VReply reply nat nat vcont
  | VReplyDrain nat reply nat nat vcont
  | VCollect bool nat vcont
  | VIngress bool
  | VServe "nat list"
  | VPush command "nat option" "nat list"
  | VFulfill nat "bytes option" vpc
  | VStop bool
  | VHead
  | VExit
  | VPanic

text \<open>
  \<open>v_pend\<close> are the requests whose clients have not yet pushed them.  The last two fields are history:
  the requests, and the puts applied to each shard with the number of the request, if it is known.
\<close>

record service =
  v_ingress :: "nat \<Rightarrow> nat list"
  v_cmd :: "nat \<times> nat \<Rightarrow> command list"
  v_reply :: "nat \<times> nat \<Rightarrow> reply list"
  v_rr :: usize
  v_stop :: bool
  v_shard :: "nat \<Rightarrow> bytes \<rightharpoonup> bytes"
  v_waiters :: "nat \<Rightarrow> u64 \<rightharpoonup> nat"
  v_next :: "nat \<Rightarrow> u64"
  v_pc :: "nat \<Rightarrow> vpc"
  v_pend :: "nat list"
  v_answer :: "nat \<rightharpoonup> bytes option"
  v_calls :: "call list"
  v_hist :: "nat \<Rightarrow> (nat option \<times> bytes \<times> bytes) list"

abbreviation v_at :: "nat \<Rightarrow> vpc \<Rightarrow> service \<Rightarrow> service" where
  "v_at w pc s \<equiv> s\<lparr>v_pc := (v_pc s)(w := pc)\<rparr>"

definition service_start :: service where
  "service_start = \<lparr>v_ingress = \<lambda>_. [], v_cmd = \<lambda>_. [], v_reply = \<lambda>_. [], v_rr = 0, v_stop = False,
     v_shard = \<lambda>_. Map.empty, v_waiters = \<lambda>_. Map.empty, v_next = \<lambda>_. 0, v_pc = \<lambda>_. VScan False 0 VLoop,
     v_pend = [], v_answer = Map.empty, v_calls = [], v_hist = \<lambda>_. []\<rparr>"

section \<open>Clients\<close>

datatype api = APut bytes bytes | AGet bytes | ARoundRobin bytes

fun api_op :: "api \<Rightarrow> client_op" where
  "api_op (APut k v) = OPut k v"
| "api_op (AGet k) = OGet k"
| "api_op (ARoundRobin k) = OGet k"

text \<open>\<open>put\<close>, \<open>get\<close> and \<open>get_round_robin\<close> up to the push: the accepting worker is the owner, or the next one.\<close>

fun accept_of :: "nat \<Rightarrow> u64 \<Rightarrow> usize \<Rightarrow> api \<Rightarrow> nat \<times> usize" where
  "accept_of n msk rr (APut k v) = (mesh_route k msk, rr)"
| "accept_of n msk rr (AGet k) = (mesh_route k msk, rr)"
| "accept_of n msk rr (ARoundRobin k) = (unat rr mod n, rr + 1)"

definition begin_call :: "nat \<Rightarrow> u64 \<Rightarrow> api \<Rightarrow> service \<Rightarrow> service" where
  "begin_call n msk a s = (case accept_of n msk (v_rr s) a of (accept, rr) \<Rightarrow>
     s\<lparr>v_rr := rr, v_pend := v_pend s @ [length (v_calls s)],
       v_calls := v_calls s @ [\<lparr>c_op = api_op a, c_accept = accept,
         c_start = length (v_hist s (mesh_route (op_key (api_op a)) msk))\<rparr>]\<rparr>)"

text \<open>The push of \<open>submit_to\<close>, by the client of the \<open>i\<close>-th pending request.\<close>

definition submit_push :: "nat \<Rightarrow> service \<Rightarrow> service" where
  "submit_push i s =
     (if i < length (v_pend s)
      then let r = v_pend s ! i; a = c_accept (v_calls s ! r) in
        s\<lparr>v_pend := take i (v_pend s) @ drop (Suc i) (v_pend s), v_ingress := (v_ingress s)(a := r # v_ingress s a)\<rparr>
      else s)"

section \<open>Workers\<close>

definition v_insert :: "nat \<Rightarrow> nat option \<Rightarrow> bytes \<Rightarrow> bytes \<Rightarrow> service \<Rightarrow> service" where
  "v_insert w r key val s =
     s\<lparr>v_shard := (v_shard s)(w := (v_shard s w)(key \<mapsto> val)), v_hist := (v_hist s)(w := v_hist s w @ [(r, key, val)])\<rparr>"

fun v_resume :: "bool \<Rightarrow> vcont \<Rightarrow> vpc" where
  "v_resume p VLoop = VIngress p"
| "v_resume p (VRetry c ack rs) = VPush c ack rs"

text \<open>\<open>pump_matrix\<close>.\<close>

definition v_scan :: "nat \<Rightarrow> nat \<Rightarrow> bool \<Rightarrow> nat \<Rightarrow> vcont \<Rightarrow> service \<Rightarrow> service" where
  "v_scan n w p src k s =
     (if n \<le> src then v_at w (VCollect p 0 k) s
      else case fifo_deq (v_cmd s (src, w)) of
        (None, q) \<Rightarrow> v_at w (VScan p (src + 1) k) s
      | (Some (CPut key val), q) \<Rightarrow>
          v_at w (VScan True src k) (v_insert w None key val s)\<lparr>v_cmd := (v_cmd s)((src, w) := q)\<rparr>
      | (Some (CGet key from token), q) \<Rightarrow>
          v_at w (VReply \<lparr>rp_token = token, rp_val = v_shard s w key\<rparr> from src k) s\<lparr>v_cmd := (v_cmd s)((src, w) := q)\<rparr>)"

definition v_push_reply :: "nat \<Rightarrow> nat \<Rightarrow> reply \<Rightarrow> nat \<Rightarrow> nat \<Rightarrow> vcont \<Rightarrow> service \<Rightarrow> service" where
  "v_push_reply n w r from src k s =
     (if n \<le> from then v_at w VPanic s
      else case fifo_enq mesh_cap r (v_reply s (w, from)) of
        (Ok _, q) \<Rightarrow> v_at w (VScan True src k) s\<lparr>v_reply := (v_reply s)((w, from) := q)\<rparr>
      | (Err _, q) \<Rightarrow> v_at w (VReplyDrain 0 r from src k) s)"

text \<open>\<open>collect_replies\<close>: a pop from the replies of worker \<open>d\<close>; the waiter of the token, if any, is fulfilled.\<close>

definition v_collect :: "nat \<Rightarrow> nat \<Rightarrow> nat \<Rightarrow> (bool \<Rightarrow> nat \<Rightarrow> vpc) \<Rightarrow> vpc \<Rightarrow> service \<Rightarrow> service" where
  "v_collect n w d at fin s =
     (if n \<le> d then v_at w fin s
      else case fifo_deq (v_reply s (d, w)) of
        (None, q) \<Rightarrow> v_at w (at False (d + 1)) s
      | (Some rep, q) \<Rightarrow> (case v_waiters s w (rp_token rep) of
            None \<Rightarrow> v_at w (at True d) s\<lparr>v_reply := (v_reply s)((d, w) := q)\<rparr>
          | Some r \<Rightarrow> v_at w (VFulfill r (rp_val rep) (at True d)) s\<lparr>v_reply := (v_reply s)((d, w) := q),
              v_waiters := (v_waiters s)(w := (v_waiters s w)(rp_token rep := None))\<rparr>))"

definition token_of :: "nat \<Rightarrow> u64 \<Rightarrow> u64" where
  "token_of w next_token = push_bit 48 (of_nat w) OR next_token"

text \<open>\<open>drain_ingress\<close>: the swap, and the next request.\<close>

definition v_drain :: "nat \<Rightarrow> bool \<Rightarrow> service \<Rightarrow> service" where
  "v_drain w p s =
     (case v_ingress s w of
        [] \<Rightarrow> v_at w (VStop p) s
      | rs \<Rightarrow> v_at w (VServe rs) s\<lparr>v_ingress := (v_ingress s)(w := [])\<rparr>)"

definition v_serve :: "u64 \<Rightarrow> nat \<Rightarrow> nat list \<Rightarrow> service \<Rightarrow> service" where
  "v_serve msk w reqs s =
     (case reqs of
        [] \<Rightarrow> v_at w (VStop True) s
      | r # rs \<Rightarrow> (case c_op (v_calls s ! r) of
          OPut key val \<Rightarrow>
            if mesh_route key msk = w then v_at w (VFulfill r None (VServe rs)) (v_insert w (Some r) key val s)
            else v_at w (VPush (CPut key val) (Some r) rs) s
        | OGet key \<Rightarrow>
            if mesh_route key msk = w then v_at w (VFulfill r (v_shard s w key) (VServe rs)) s
            else let token = token_of w (v_next s w) in
              v_at w (VPush (CGet key w token) None rs) s
                \<lparr>v_next := (v_next s)(w := v_next s w + 1), v_waiters := (v_waiters s)(w := (v_waiters s w)(token \<mapsto> r))\<rparr>))"

fun cmd_key :: "command \<Rightarrow> bytes" where
  "cmd_key (CPut k v) = k"
| "cmd_key (CGet k from token) = k"

definition v_push :: "nat \<Rightarrow> u64 \<Rightarrow> nat \<Rightarrow> command \<Rightarrow> nat option \<Rightarrow> nat list \<Rightarrow> service \<Rightarrow> service" where
  "v_push n msk w c ack rs s =
     (let owner = mesh_route (cmd_key c) msk in
      if n \<le> owner then v_at w VPanic s
      else case fifo_enq mesh_cap c (v_cmd s (w, owner)) of
        (Ok _, q) \<Rightarrow> v_at w (case ack of None \<Rightarrow> VServe rs | Some r \<Rightarrow> VFulfill r None (VServe rs)) s
            \<lparr>v_cmd := (v_cmd s)((w, owner) := q)\<rparr>
      | (Err _, q) \<Rightarrow> v_at w (VScan False 0 (VRetry c ack rs)) s)"

text \<open>\<open>service_loop\<close>: the two loads that decide about the exit.\<close>

definition v_check_stop :: "nat \<Rightarrow> bool \<Rightarrow> service \<Rightarrow> service" where
  "v_check_stop w p s =
     v_at w (if v_stop s \<and> \<not> p \<and> v_waiters s w = Map.empty then VHead else VScan False 0 VLoop) s"

definition v_check_head :: "nat \<Rightarrow> service \<Rightarrow> service" where
  "v_check_head w s = v_at w (if v_ingress s w = [] then VExit else VScan False 0 VLoop) s"

definition service_step :: "nat \<Rightarrow> u64 \<Rightarrow> nat \<Rightarrow> service \<Rightarrow> service" where
  "service_step n msk w s = (case v_pc s w of
     VScan p src k \<Rightarrow> v_scan n w p src k s
   | VReply r from src k \<Rightarrow> v_push_reply n w r from src k s
   | VReplyDrain d r from src k \<Rightarrow> v_collect n w d (\<lambda>_ d. VReplyDrain d r from src k) (VReply r from src k) s
   | VCollect p d k \<Rightarrow> v_collect n w d (\<lambda>b d. VCollect (p \<or> b) d k) (v_resume p k) s
   | VIngress p \<Rightarrow> v_drain w p s
   | VServe rs \<Rightarrow> v_serve msk w rs s
   | VPush c ack rs \<Rightarrow> v_push n msk w c ack rs s
   | VFulfill r v pc \<Rightarrow> v_at w pc s\<lparr>v_answer := (v_answer s)(r \<mapsto> v)\<rparr>
   | VStop p \<Rightarrow> v_check_stop w p s
   | VHead \<Rightarrow> v_check_head w s
   | VExit \<Rightarrow> s
   | VPanic \<Rightarrow> s)"

section \<open>Runs\<close>

text \<open>A client begins a call, a client pushes its request, \<open>shutdown\<close> stores its flag, a worker steps.\<close>

datatype event = Call api | Push nat | Stop | Work nat

fun service_event :: "nat \<Rightarrow> u64 \<Rightarrow> event \<Rightarrow> service \<Rightarrow> service" where
  "service_event n msk (Call a) s = begin_call n msk a s"
| "service_event n msk (Push i) s = submit_push i s"
| "service_event n msk Stop s = s\<lparr>v_stop := True\<rparr>"
| "service_event n msk (Work w) s = (if w < n then service_step n msk w s else s)"

definition service_run :: "usize \<Rightarrow> event list \<Rightarrow> service" where
  "service_run requested es =
     foldl (\<lambda>s e. service_event (unat (mesh_size requested)) (mesh_size requested - 1) e s) service_start es"

end
