(* ===== verification/ServiceSafety.thy ===== *)
theory ServiceSafety
  imports MeshService
begin

text \<open>
  Safety of the mesh service: every answer is the result of an atomic access to the shard of the key
  between the call and the answer.  The proof follows the requests through the ingresses, the
  channels and the workers' hands.
\<close>

section \<open>Tokens\<close>

lemma token_of_inj:
  assumes "a < 2 ^ 48" "b < 2 ^ 48" "token_of w a = token_of w b"
  shows "a = b"
proof -
  have "take_bit 48 (token_of w c) = c" if "c < 2 ^ 48" for c
    using that by (simp add: token_of_def take_bit_or take_bit_push_bit) (simp add: take_bit_eq_mod word_less_nat_alt mod_word_less)
  then show ?thesis using assms by metis
qed

text \<open>The tokens a worker has given out so far.\<close>

definition tok_used :: "service \<Rightarrow> nat \<Rightarrow> u64 \<Rightarrow> bool" where
  "tok_used s i t \<longleftrightarrow> (\<exists>m < v_next s i. t = token_of i m)"

lemma token_fresh:
  assumes "unat (v_next s w) < 2 ^ 48"
  shows "\<not> tok_used s w (token_of w (v_next s w))"
proof
  assume "tok_used s w (token_of w (v_next s w))"
  then obtain m where m: "m < v_next s w" "token_of w (v_next s w) = token_of w m" by (auto simp: tok_used_def)
  have lt: "v_next s w < 2 ^ 48" using assms by (simp add: word_less_nat_alt)
  have "m < 2 ^ 48" by (rule order_less_trans [OF m(1) lt])
  then show False using token_of_inj [OF lt _ m(2)] m(1) by simp
qed

section \<open>What is known of a request\<close>

definition op_of :: "service \<Rightarrow> nat \<Rightarrow> client_op" where
  "op_of s r = c_op (v_calls s ! r)"

text \<open>A read saw the shard as it was at some point since the call; a write happened since the call.\<close>

definition read_ok :: "u64 \<Rightarrow> service \<Rightarrow> nat \<Rightarrow> bytes option \<Rightarrow> bool" where
  "read_ok msk s r v \<longleftrightarrow> r < length (v_calls s) \<and> (\<exists>k p. op_of s r = OGet k \<and> c_start (v_calls s ! r) \<le> p \<and>
     p \<le> length (v_hist s (mesh_route k msk)) \<and> v = apply_puts (take p (v_hist s (mesh_route k msk))) k)"

definition write_ok :: "u64 \<Rightarrow> service \<Rightarrow> nat \<Rightarrow> bytes option \<Rightarrow> bool" where
  "write_ok msk s r v \<longleftrightarrow> r < length (v_calls s) \<and> v = None \<and> (\<exists>k x. op_of s r = OPut k x \<and>
     (Some r, k, x) \<in> set (drop (c_start (v_calls s ! r)) (v_hist s (mesh_route k msk))))"

definition call_ok :: "nat \<Rightarrow> u64 \<Rightarrow> service \<Rightarrow> nat \<Rightarrow> bool" where
  "call_ok n msk s r \<longleftrightarrow> c_accept (v_calls s ! r) < n \<and> (\<forall>k x. op_of s r = OPut k x \<longrightarrow> mesh_route k msk = c_accept (v_calls s ! r)) \<and>
     c_start (v_calls s ! r) \<le> length (v_hist s (mesh_route (op_key (op_of s r)) msk))"

definition req_ok :: "service \<Rightarrow> nat \<Rightarrow> nat \<Rightarrow> bool" where
  "req_ok s i r \<longleftrightarrow> r < length (v_calls s) \<and> c_accept (v_calls s ! r) = i"

definition entry_ok :: "u64 \<Rightarrow> service \<Rightarrow> nat \<Rightarrow> nat option \<times> bytes \<times> bytes \<Rightarrow> bool" where
  "entry_ok msk s j e \<longleftrightarrow> (\<exists>r k x. e = (Some r, k, x) \<and> r < length (v_calls s) \<and> op_of s r = OPut k x \<and> mesh_route k msk = j)"

section \<open>What is known of the messages\<close>

definition cmd_ok :: "u64 \<Rightarrow> service \<Rightarrow> nat \<Rightarrow> nat \<Rightarrow> command \<Rightarrow> bool" where
  "cmd_ok msk s i j c \<longleftrightarrow> (\<exists>k t. c = CGet k i t \<and> mesh_route k msk = j \<and> tok_used s i t \<and>
     (\<forall>r. v_waiters s i t = Some r \<longrightarrow> r < length (v_calls s) \<and> op_of s r = OGet k))"

definition reply_ok :: "u64 \<Rightarrow> service \<Rightarrow> nat \<Rightarrow> reply \<Rightarrow> bool" where
  "reply_ok msk s i rep \<longleftrightarrow> tok_used s i (rp_token rep) \<and>
     (\<forall>r. v_waiters s i (rp_token rep) = Some r \<longrightarrow> read_ok msk s r (rp_val rep))"

fun vcont_ok :: "u64 \<Rightarrow> service \<Rightarrow> nat \<Rightarrow> vcont \<Rightarrow> bool" where
  "vcont_ok msk s w VLoop \<longleftrightarrow> True"
| "vcont_ok msk s w (VRetry c ack rs) \<longleftrightarrow> cmd_ok msk s w (mesh_route (cmd_key c) msk) c \<and> ack = None \<and> (\<forall>r \<in> set rs. req_ok s w r)"

fun vpc_ok :: "nat \<Rightarrow> u64 \<Rightarrow> service \<Rightarrow> nat \<Rightarrow> vpc \<Rightarrow> bool" where
  "vpc_ok n msk s w (VScan p src k) \<longleftrightarrow> vcont_ok msk s w k"
| "vpc_ok n msk s w (VReply r from src k) \<longleftrightarrow> from < n \<and> reply_ok msk s from r \<and> vcont_ok msk s w k"
| "vpc_ok n msk s w (VReplyDrain d r from src k) \<longleftrightarrow> from < n \<and> reply_ok msk s from r \<and> vcont_ok msk s w k"
| "vpc_ok n msk s w (VCollect p d k) \<longleftrightarrow> vcont_ok msk s w k"
| "vpc_ok n msk s w (VServe rs) \<longleftrightarrow> (\<forall>r \<in> set rs. req_ok s w r)"
| "vpc_ok n msk s w (VPush c ack rs) \<longleftrightarrow> vcont_ok msk s w (VRetry c ack rs)"
| "vpc_ok n msk s w (VFulfill r v pc) \<longleftrightarrow> (read_ok msk s r v \<or> write_ok msk s r v) \<and> vpc_ok n msk s w pc"
| "vpc_ok n msk s w VPanic \<longleftrightarrow> False"
| "vpc_ok n msk s w pc \<longleftrightarrow> True"

definition service_inv :: "nat \<Rightarrow> u64 \<Rightarrow> service \<Rightarrow> bool" where
  "service_inv n msk s \<longleftrightarrow>
     (\<forall>i j. \<forall>c \<in> set (v_cmd s (i, j)). cmd_ok msk s i j c) \<and> (\<forall>i j. \<forall>rep \<in> set (v_reply s (j, i)). reply_ok msk s i rep) \<and>
     (\<forall>w. vpc_ok n msk s w (v_pc s w)) \<and> (\<forall>i. \<forall>r \<in> set (v_ingress s i). req_ok s i r) \<and> (\<forall>r \<in> set (v_pend s). r < length (v_calls s)) \<and>
     (\<forall>r v. v_answer s r = Some v \<longrightarrow> read_ok msk s r v \<or> write_ok msk s r v) \<and> (\<forall>i t r. v_waiters s i t = Some r \<longrightarrow> tok_used s i t) \<and>
     (\<forall>r < length (v_calls s). call_ok n msk s r) \<and> (\<forall>j. v_shard s j = apply_puts (v_hist s j)) \<and> (\<forall>j. \<forall>e \<in> set (v_hist s j). entry_ok msk s j e)"

lemma service_invD:
  assumes "service_inv n msk s"
  shows "\<And>i j c. c \<in> set (v_cmd s (i, j)) \<Longrightarrow> cmd_ok msk s i j c"
    "\<And>i j rep. rep \<in> set (v_reply s (j, i)) \<Longrightarrow> reply_ok msk s i rep"
    "\<And>w. vpc_ok n msk s w (v_pc s w)" "\<And>i r. r \<in> set (v_ingress s i) \<Longrightarrow> req_ok s i r"
    "\<And>r. r \<in> set (v_pend s) \<Longrightarrow> r < length (v_calls s)"
    "\<And>r v. v_answer s r = Some v \<Longrightarrow> read_ok msk s r v \<or> write_ok msk s r v"
    "\<And>i t r. v_waiters s i t = Some r \<Longrightarrow> tok_used s i t" "\<And>r. r < length (v_calls s) \<Longrightarrow> call_ok n msk s r"
    "\<And>j. v_shard s j = apply_puts (v_hist s j)" "\<And>j e. e \<in> set (v_hist s j) \<Longrightarrow> entry_ok msk s j e"
  using assms unfolding service_inv_def by blast+

lemma service_inv_start: "service_inv n msk service_start"
  by (simp add: service_inv_def service_start_def apply_puts_def)

section \<open>Steps only extend the history\<close>

definition ext :: "service \<Rightarrow> service \<Rightarrow> bool" where
  "ext s s' \<longleftrightarrow> (\<exists>cs. v_calls s' = v_calls s @ cs) \<and> (\<forall>j. \<exists>hs. v_hist s' j = v_hist s j @ hs) \<and> (\<forall>i. v_next s i \<le> v_next s' i) \<and>
     (\<forall>i t r. v_waiters s' i t = Some r \<longrightarrow> v_waiters s i t = Some r \<or> \<not> tok_used s i t)"

lemma ext_same:
  "v_calls s' = v_calls s \<Longrightarrow> v_hist s' = v_hist s \<Longrightarrow> v_next s' = v_next s \<Longrightarrow> v_waiters s' = v_waiters s \<Longrightarrow> ext s s'"
  by (simp add: ext_def)

lemma ext_call: "ext s s' \<Longrightarrow> r < length (v_calls s) \<Longrightarrow> v_calls s' ! r = v_calls s ! r \<and> r < length (v_calls s')"
  by (auto simp: ext_def nth_append)

lemma ext_op: "ext s s' \<Longrightarrow> r < length (v_calls s) \<Longrightarrow> op_of s' r = op_of s r"
  by (simp add: op_of_def ext_call)

lemma ext_hist: "ext s s' \<Longrightarrow> length (v_hist s j) \<le> length (v_hist s' j)"
  unfolding ext_def by (metis length_append le_add1)

lemma ext_tok: "ext s s' \<Longrightarrow> tok_used s i t \<Longrightarrow> tok_used s' i t"
  unfolding ext_def tok_used_def using order_less_le_trans by blast

lemma ext_waiter: "ext s s' \<Longrightarrow> tok_used s i t \<Longrightarrow> v_waiters s' i t = Some r \<Longrightarrow> v_waiters s i t = Some r"
  unfolding ext_def by blast

lemma ext_read:
  assumes "ext s s'" "read_ok msk s r v"
  shows "read_ok msk s' r v"
proof -
  from assms(2) obtain k p where k: "r < length (v_calls s)" "op_of s r = OGet k" "c_start (v_calls s ! r) \<le> p"
    "p \<le> length (v_hist s (mesh_route k msk))" "v = apply_puts (take p (v_hist s (mesh_route k msk))) k"
    by (auto simp: read_ok_def)
  obtain hs where "v_hist s' (mesh_route k msk) = v_hist s (mesh_route k msk) @ hs" using assms(1) unfolding ext_def by blast
  then show ?thesis using k ext_call [OF assms(1) k(1)] ext_op [OF assms(1) k(1)] by (auto simp: read_ok_def)
qed

lemma ext_write:
  assumes "ext s s'" "write_ok msk s r v"
  shows "write_ok msk s' r v"
proof -
  from assms(2) obtain k x where k: "r < length (v_calls s)" "v = None" "op_of s r = OPut k x"
    "(Some r, k, x) \<in> set (drop (c_start (v_calls s ! r)) (v_hist s (mesh_route k msk)))"
    by (auto simp: write_ok_def)
  obtain hs where "v_hist s' (mesh_route k msk) = v_hist s (mesh_route k msk) @ hs" using assms(1) unfolding ext_def by blast
  then show ?thesis using k ext_call [OF assms(1) k(1)] ext_op [OF assms(1) k(1)] by (auto simp: write_ok_def)
qed

lemma ext_req: "ext s s' \<Longrightarrow> req_ok s i r \<Longrightarrow> req_ok s' i r"
  by (simp add: req_ok_def ext_call)

lemma ext_call_ok: "ext s s' \<Longrightarrow> r < length (v_calls s) \<Longrightarrow> call_ok n msk s r \<Longrightarrow> call_ok n msk s' r"
  using ext_hist le_trans by (fastforce simp: call_ok_def ext_call ext_op)

lemma ext_entry: "ext s s' \<Longrightarrow> entry_ok msk s j e \<Longrightarrow> entry_ok msk s' j e"
  using ext_call [of s s'] ext_op [of s s'] unfolding entry_ok_def by auto

lemma ext_cmd: "ext s s' \<Longrightarrow> cmd_ok msk s i j c \<Longrightarrow> cmd_ok msk s' i j c"
  using ext_tok [of s s' i] ext_waiter [of s s' i] ext_call [of s s'] ext_op [of s s'] unfolding cmd_ok_def by fastforce

lemma ext_reply: "ext s s' \<Longrightarrow> reply_ok msk s i rep \<Longrightarrow> reply_ok msk s' i rep"
  using ext_tok [of s s' i] ext_waiter [of s s' i] ext_read [of s s' msk] unfolding reply_ok_def by blast

lemma ext_vcont: "ext s s' \<Longrightarrow> vcont_ok msk s w k \<Longrightarrow> vcont_ok msk s' w k"
  by (cases k) (auto simp: ext_cmd ext_req)

lemma ext_vpc: "ext s s' \<Longrightarrow> vpc_ok n msk s w pc \<Longrightarrow> vpc_ok n msk s' w pc"
  by (induction pc) (auto simp: ext_vcont ext_reply ext_cmd ext_req ext_read ext_write)

section \<open>Every event keeps the invariant\<close>

lemma service_inv_keep:
  assumes inv: "service_inv n msk s" and e: "ext s s'"
    and cmd: "\<And>i j c. c \<in> set (v_cmd s' (i, j)) \<Longrightarrow> c \<in> set (v_cmd s (i, j)) \<or> cmd_ok msk s' i j c"
    and rep: "\<And>i j rep. rep \<in> set (v_reply s' (j, i)) \<Longrightarrow> rep \<in> set (v_reply s (j, i)) \<or> reply_ok msk s' i rep"
    and pc: "\<And>u. v_pc s' u = v_pc s u \<or> vpc_ok n msk s' u (v_pc s' u)"
    and ing: "\<And>i r. r \<in> set (v_ingress s' i) \<Longrightarrow> r \<in> set (v_ingress s i) \<or> req_ok s' i r"
    and pend: "\<And>r. r \<in> set (v_pend s') \<Longrightarrow> r \<in> set (v_pend s) \<or> r < length (v_calls s')"
    and ans: "\<And>r v. v_answer s' r = Some v \<Longrightarrow> v_answer s r = Some v \<or> read_ok msk s' r v \<or> write_ok msk s' r v"
    and wait: "\<And>i t r. v_waiters s' i t = Some r \<Longrightarrow> v_waiters s i t = Some r \<or> tok_used s' i t"
    and calls: "\<And>r. r < length (v_calls s') \<Longrightarrow> r < length (v_calls s) \<or> call_ok n msk s' r"
    and hist: "\<And>j. v_shard s' j = v_shard s j \<and> v_hist s' j = v_hist s j \<or>
      (\<exists>r k v. entry_ok msk s' j (r, k, v) \<and> v_shard s' j = (v_shard s j)(k \<mapsto> v) \<and> v_hist s' j = v_hist s j @ [(r, k, v)])"
  shows "service_inv n msk s'"
proof -
  note i = service_invD [OF inv]
  have "v_shard s' j = apply_puts (v_hist s' j)" for j using hist [of j] i(9) [of j] by (auto simp: apply_snoc simp del: fun_upd_apply)
  moreover have "entry_ok msk s' j x" if "x \<in> set (v_hist s' j)" for j x
    using hist [of j] that ext_entry [OF e i(10)] by (cases x) auto
  moreover have "cmd_ok msk s' i j c" if "c \<in> set (v_cmd s' (i, j))" for i j c using cmd [OF that] ext_cmd [OF e i(1)] by blast
  moreover have "reply_ok msk s' i x" if "x \<in> set (v_reply s' (j, i))" for i j x using rep [OF that] ext_reply [OF e i(2)] by blast
  moreover have "vpc_ok n msk s' u (v_pc s' u)" for u using pc [of u] ext_vpc [OF e i(3), of u] by auto
  moreover have "req_ok s' j r" if "r \<in> set (v_ingress s' j)" for j r using ing [OF that] ext_req [OF e i(4)] by blast
  moreover have "r < length (v_calls s')" if "r \<in> set (v_pend s')" for r using pend [OF that] ext_call [OF e i(5)] by blast
  moreover have "read_ok msk s' r v \<or> write_ok msk s' r v" if "v_answer s' r = Some v" for r v
    using ans [OF that] i(6) ext_read [OF e] ext_write [OF e] by blast
  moreover have "tok_used s' j t" if "v_waiters s' j t = Some r" for j t r using wait [OF that] ext_tok [OF e i(7)] by blast
  moreover have "call_ok n msk s' r" if "r < length (v_calls s')" for r using calls [OF that] ext_call_ok [OF e] i(8) by blast
  ultimately show ?thesis unfolding service_inv_def by blast
qed

text \<open>The clients.\<close>

lemma inv_begin_call:
  assumes "service_inv n msk s" "0 < n" "\<And>k. mesh_route k msk < n"
  shows "service_inv n msk (begin_call n msk a s)"
proof (rule service_inv_keep [OF assms(1)])
  let ?s = "begin_call n msk a s"
  show "ext s ?s" by (simp add: ext_def begin_call_def split: prod.split)
  show "r < length (v_calls s) \<or> call_ok n msk ?s r" if "r < length (v_calls ?s)" for r
    using that assms(2,3) by (cases a) (auto simp: begin_call_def call_ok_def op_of_def nth_append less_Suc_eq)
qed (auto simp: begin_call_def split: prod.splits)

lemma inv_submit_push:
  assumes "service_inv n msk s"
  shows "service_inv n msk (submit_push i s)"
proof (cases "i < length (v_pend s)")
  case True
  then have "v_pend s ! i < length (v_calls s)" using service_invD(5) [OF assms] by simp
  then show ?thesis using True
    by (intro service_inv_keep [OF assms] ext_same)
      (auto simp: submit_push_def Let_def req_ok_def split: if_splits dest: in_set_takeD in_set_dropD)
qed (simp add: submit_push_def assms)

lemma inv_stop: "service_inv n msk s \<Longrightarrow> service_inv n msk (s\<lparr>v_stop := True\<rparr>)"
  by (rule service_inv_keep) (auto intro: ext_same)

text \<open>A step of a worker that moves no message.\<close>

lemma inv_at:
  assumes "service_inv n msk s" "vpc_ok n msk s w pc"
  shows "service_inv n msk (v_at w pc s)"
proof (rule service_inv_keep [OF assms(1)])
  show "ext s (v_at w pc s)" by (rule ext_same) simp_all
  then show "v_pc (v_at w pc s) u = v_pc s u \<or> vpc_ok n msk (v_at w pc s) u (v_pc (v_at w pc s) u)" for u
    using assms(2) ext_vpc by auto
qed auto

lemma inv_scan:
  assumes inv: "service_inv n msk s" and pc: "vcont_ok msk s w k"
  shows "service_inv n msk (v_scan n w p src k s)"
proof (cases "n \<le> src")
  case False
  note i = service_invD [OF inv]
  show ?thesis
  proof (cases "v_cmd s (src, w)")
    case Nil
    then show ?thesis using inv_at [OF inv] pc False by (simp add: v_scan_def fifo_deq_def)
  next
    case (Cons c q)
    then obtain key t where c: "c = CGet key src t" "mesh_route key msk = w" "tok_used s src t"
      "\<And>r. v_waiters s src t = Some r \<Longrightarrow> r < length (v_calls s) \<and> op_of s r = OGet key"
      using i(1) [of c src w] unfolding cmd_ok_def by auto
    let ?rep = "\<lparr>rp_token = t, rp_val = v_shard s w key\<rparr>"
    have "read_ok msk s r (v_shard s w key)" if "v_waiters s src t = Some r" for r
      using c(4) [OF that] i(8) [of r] i(9) [of w] c(2)
      by (auto simp: read_ok_def call_ok_def intro!: exI [of _ "length (v_hist s w)"])
    then have "vpc_ok n msk s w (VReply ?rep src src k)" using False pc c(3) by (simp add: reply_ok_def)
    from inv_at [OF inv this] have "service_inv n msk (v_at w (VReply ?rep src src k) s)" .
    then have "service_inv n msk (v_at w (VReply ?rep src src k) s\<lparr>v_cmd := (v_cmd s)((src, w) := q)\<rparr>)"
      by (rule service_inv_keep) (auto simp: Cons intro: ext_same split: if_splits)
    then show ?thesis using False by (simp add: v_scan_def fifo_deq_def Cons c(1))
  qed
qed (use inv_at [OF inv] pc in \<open>simp add: v_scan_def\<close>)

lemma inv_push_reply:
  assumes inv: "service_inv n msk s" and pc: "vpc_ok n msk s w (VReply r from src k)"
  shows "service_inv n msk (v_push_reply n w r from src k s)"
proof -
  have "service_inv n msk (v_at w (VScan True src k) s)" using inv_at [OF inv] pc by simp
  then have "service_inv n msk (v_at w (VScan True src k) s\<lparr>v_reply := (v_reply s)((w, from) := v_reply s (w, from) @ [r])\<rparr>)"
  proof (rule service_inv_keep)
    let ?s = "v_at w (VScan True src k) s"
    let ?s' = "?s\<lparr>v_reply := (v_reply s)((w, from) := v_reply s (w, from) @ [r])\<rparr>"
    show e: "ext ?s ?s'" by (rule ext_same) simp_all
    have "ext s ?s'" by (rule ext_same) simp_all
    then have "reply_ok msk ?s' from r" using pc ext_reply by auto
    then show "rep \<in> set (v_reply ?s (j, i)) \<or> reply_ok msk ?s' i rep" if "rep \<in> set (v_reply ?s' (j, i))" for i j rep
      using that by (auto split: if_splits)
  qed auto
  then show ?thesis using pc inv_at [OF inv, of w "VReplyDrain 0 r from src k"] by (auto simp: v_push_reply_def fifo_enq_def)
qed

lemma inv_collect:
  assumes inv: "service_inv n msk s" and at: "\<And>b d. vpc_ok n msk s w (at b d)" and fin: "vpc_ok n msk s w fin"
  shows "service_inv n msk (v_collect n w d at fin s)"
proof (cases "v_reply s (d, w)")
  case Nil
  then show ?thesis using inv_at [OF inv] at fin by (simp add: v_collect_def fifo_deq_def)
next
  case (Cons rep q)
  then have rep: "reply_ok msk s w rep" using service_invD(2) [OF inv, of rep d w] by simp
  have drop: "service_inv n msk (s'\<lparr>v_reply := (v_reply s')((d, w) := q)\<rparr>)" if "service_inv n msk s'" "v_reply s' = v_reply s" for s'
    using that(1) by (rule service_inv_keep) (auto simp: that(2) Cons intro: ext_same split: if_splits)
  show ?thesis
  proof (cases "v_waiters s w (rp_token rep)")
    case None
    then show ?thesis using drop [OF inv_at [OF inv at]] inv_at [OF inv fin] by (simp add: v_collect_def fifo_deq_def Cons)
  next
    case (Some r)
    let ?s1 = "v_at w (VFulfill r (rp_val rep) (at True d)) s\<lparr>v_reply := (v_reply s)((d, w) := q)\<rparr>"
    let ?s2 = "?s1\<lparr>v_waiters := (v_waiters s)(w := (v_waiters s w)(rp_token rep := None))\<rparr>"
    have "vpc_ok n msk s w (VFulfill r (rp_val rep) (at True d))" using rep at Some by (simp add: reply_ok_def)
    then have "service_inv n msk ?s1" using drop [OF inv_at [OF inv]] by simp
    then have "service_inv n msk ?s2"
    proof (rule service_inv_keep)
      show "ext ?s1 ?s2" by (auto simp: ext_def split: if_splits)
    qed (auto split: if_splits)
    then show ?thesis using inv_at [OF inv fin] Some by (simp add: v_collect_def fifo_deq_def Cons)
  qed
qed

text \<open>\<open>drain_ingress\<close>.\<close>

lemma inv_drain:
  assumes inv: "service_inv n msk s"
  shows "service_inv n msk (v_drain w p s)"
proof (cases "v_ingress s w")
  case (Cons r rs)
  then have "vpc_ok n msk s w (VServe (r # rs))" using service_invD(4) [OF inv, of _ w] by simp
  from inv_at [OF inv this] have "service_inv n msk (v_at w (VServe (r # rs)) s\<lparr>v_ingress := (v_ingress s)(w := [])\<rparr>)"
    by (rule service_inv_keep) (auto intro: ext_same split: if_splits)
  then show ?thesis by (simp add: v_drain_def Cons)
qed (use inv_at [OF inv] in \<open>simp add: v_drain_def\<close>)

lemma inv_push_cmd:
  assumes inv: "service_inv n msk s" and pc: "vpc_ok n msk s w (VPush c ack rs)" and owner: "\<And>k. mesh_route k msk < n"
  shows "service_inv n msk (v_push n msk w c ack rs s)"
proof -
  let ?j = "mesh_route (cmd_key c) msk"
  let ?s = "v_at w (VServe rs) s"
  let ?s' = "?s\<lparr>v_cmd := (v_cmd s)((w, ?j) := v_cmd s (w, ?j) @ [c])\<rparr>"
  have ack: "ack = None" using pc by simp
  have "service_inv n msk ?s" using inv_at [OF inv, of w "VServe rs"] pc by simp
  then have "service_inv n msk ?s'"
  proof (rule service_inv_keep)
    show "ext ?s ?s'" by (rule ext_same) simp_all
    have "ext s ?s'" by (rule ext_same) simp_all
    then have "cmd_ok msk ?s' w ?j c" using pc ext_cmd by auto
    then show "d \<in> set (v_cmd ?s (i, j)) \<or> cmd_ok msk ?s' i j d" if "d \<in> set (v_cmd ?s' (i, j))" for i j d
      using that by (auto split: if_splits)
  qed auto
  then show ?thesis using pc ack owner [of "cmd_key c"] inv_at [OF inv, of w "VScan False 0 (VRetry c ack rs)"]
    by (auto simp: v_push_def Let_def fifo_enq_def)
qed

lemma inv_fulfill:
  assumes inv: "service_inv n msk s" and pc: "vpc_ok n msk s w (VFulfill r v pc')"
  shows "service_inv n msk (v_at w pc' s\<lparr>v_answer := (v_answer s)(r \<mapsto> v)\<rparr>)"
proof -
  let ?s = "v_at w pc' s" let ?s' = "?s\<lparr>v_answer := (v_answer s)(r \<mapsto> v)\<rparr>"
  have "service_inv n msk ?s" using inv_at [OF inv] pc by simp
  then show ?thesis
  proof (rule service_inv_keep)
    show "ext ?s ?s'" by (rule ext_same) simp_all
    have "ext s ?s'" by (rule ext_same) simp_all
    then have "read_ok msk ?s' r v \<or> write_ok msk ?s' r v" using pc ext_read ext_write by auto
    then show "v_answer ?s q = Some x \<or> read_ok msk ?s' q x \<or> write_ok msk ?s' q x" if "v_answer ?s' q = Some x" for q x
      using that by (auto split: if_splits)
  qed auto
qed

text \<open>A local put.\<close>

lemma inv_serve_put:
  assumes inv: "service_inv n msk s" and r: "req_ok s w r" and rs: "\<forall>r \<in> set rs. req_ok s w r"
    and op: "op_of s r = OPut key val" "mesh_route key msk = w"
  shows "service_inv n msk (v_at w (VFulfill r None (VServe rs)) (v_insert w (Some r) key val s))" (is "service_inv n msk ?s")
proof (rule service_inv_keep [OF inv])
  have r': "r < length (v_calls s)" using r by (simp add: req_ok_def)
  show e: "ext s ?s" by (auto simp: ext_def v_insert_def)
  have "c_start (v_calls s ! r) \<le> length (v_hist s w)" using service_invD(8) [OF inv r'] op by (auto simp: call_ok_def)
  then have "write_ok msk ?s r None" using r' op by (simp add: write_ok_def op_of_def v_insert_def)
  then have "vpc_ok n msk ?s w (VFulfill r None (VServe rs))" using rs ext_req [OF e] by simp
  then show "v_pc ?s u = v_pc s u \<or> vpc_ok n msk ?s u (v_pc ?s u)" for u by (simp add: v_insert_def)
  have "entry_ok msk ?s w (Some r, key, val)" using r' op by (simp add: entry_ok_def op_of_def v_insert_def)
  then show "v_shard ?s j = v_shard s j \<and> v_hist ?s j = v_hist s j \<or> (\<exists>q k v. entry_ok msk ?s j (q, k, v) \<and>
      v_shard ?s j = (v_shard s j)(k \<mapsto> v) \<and> v_hist ?s j = v_hist s j @ [(q, k, v)])" for j by (auto simp: v_insert_def)
qed (auto simp: v_insert_def)

text \<open>A forwarded get takes a token that was not given out before.\<close>

lemma inv_serve_get:
  assumes inv: "service_inv n msk s" and r: "req_ok s w r" and rs: "\<forall>r \<in> set rs. req_ok s w r"
    and op: "op_of s r = OGet key" "mesh_route key msk \<noteq> w" and nt: "unat (v_next s w) < 2 ^ 48"
  shows "service_inv n msk (v_at w (VPush (CGet key w (token_of w (v_next s w))) None rs) s
    \<lparr>v_next := (v_next s)(w := v_next s w + 1), v_waiters := (v_waiters s)(w := (v_waiters s w)(token_of w (v_next s w) \<mapsto> r))\<rparr>)"
    (is "service_inv n msk ?s")
proof (rule service_inv_keep [OF inv])
  let ?t = "token_of w (v_next s w)"
  have r': "r < length (v_calls s)" using r by (simp add: req_ok_def)
  have up: "v_next s w < v_next s w + 1" using unat_Suc_no_wrap [of "v_next s w"] nt by (simp add: word_less_nat_alt)
  have "\<not> tok_used s w ?t" by (rule token_fresh [OF nt])
  then show e: "ext s ?s" using up by (auto simp: ext_def split: if_splits)
  have t: "tok_used ?s w ?t" using up by (auto simp: tok_used_def)
  then have "vpc_ok n msk ?s w (VPush (CGet key w ?t) None rs)"
    using rs ext_req [OF e] r' op by (auto simp: cmd_ok_def op_of_def)
  then show "v_pc ?s u = v_pc s u \<or> vpc_ok n msk ?s u (v_pc ?s u)" for u by simp
  show "v_waiters s i u = Some q \<or> tok_used ?s i u" if "v_waiters ?s i u = Some q" for i u q
    using that t by (auto split: if_splits)
qed auto

end
