(* ===== verification/ServiceRuns.thy ===== *)
theory ServiceRuns
  imports ServiceSafety
begin

text \<open>
  Runs of the mesh service: every request is in one place at a time, so the invariant of
  \<open>ServiceSafety\<close> holds along every list of events, and with it the properties of the answers.
\<close>

section \<open>Every request is in one place\<close>

text \<open>The drained requests a worker still has to serve.\<close>

fun vhand_k :: "vcont \<Rightarrow> nat list" where
  "vhand_k VLoop = []"
| "vhand_k (VRetry c ack rs) = rs"

fun vhand :: "vpc \<Rightarrow> nat list" where
  "vhand (VScan p src k) = vhand_k k"
| "vhand (VReply r from src k) = vhand_k k"
| "vhand (VReplyDrain d r from src k) = vhand_k k"
| "vhand (VCollect p d k) = vhand_k k"
| "vhand (VServe rs) = rs"
| "vhand (VPush c ack rs) = rs"
| "vhand (VFulfill r v pc) = vhand pc"
| "vhand pc = []"

definition seen :: "service \<Rightarrow> nat \<Rightarrow> nat \<Rightarrow> nat" where
  "seen s r i = count_list (v_ingress s i) r + count_list (vhand (v_pc s i)) r + count_list (map fst (v_hist s i)) (Some r)"

definition once_inv :: "nat \<Rightarrow> service \<Rightarrow> bool" where
  "once_inv n s \<longleftrightarrow> (\<forall>r. count_list (v_pend s) r + tally n (seen s r) id \<le> 1)"

definition load_inv :: "service \<Rightarrow> bool" where
  "load_inv s \<longleftrightarrow> (\<forall>i. unat (v_next s i) + length (v_pend s) + length (v_ingress s i) + length (vhand (v_pc s i)) \<le> length (v_calls s))"

lemma vhand_resume [simp]: "vhand (v_resume p k) = vhand_k k"
  by (cases k) simp_all

lemma vhand_ok: "vpc_ok n msk s w pc \<Longrightarrow> r \<in> set (vhand pc) \<Longrightarrow> req_ok s w r"
  by (induction pc) (auto elim: vcont_ok.elims)

text \<open>What a worker's step leaves alone, and that it neither repeats nor invents a request.\<close>

definition quiet_step :: "nat \<Rightarrow> service \<Rightarrow> service \<Rightarrow> bool" where
  "quiet_step w s s' \<longleftrightarrow> v_pend s' = v_pend s \<and> v_calls s' = v_calls s \<and>
     (\<forall>u. u \<noteq> w \<longrightarrow> v_ingress s' u = v_ingress s u \<and> v_pc s' u = v_pc s u \<and> v_hist s' u = v_hist s u \<and> v_next s' u = v_next s u) \<and>
     unat (v_next s' w) + length (v_ingress s' w) + length (vhand (v_pc s' w)) \<le> unat (v_next s w) + length (v_ingress s w) + length (vhand (v_pc s w)) \<and>
     (\<forall>r. seen s' r w \<le> seen s r w)"

lemma quiet_at: "vhand pc = vhand (v_pc s w) \<Longrightarrow> quiet_step w s (v_at w pc s)"
  by (simp add: quiet_step_def seen_def)

lemma quiet_refl: "quiet_step w s s"
  by (simp add: quiet_step_def)

lemma quiet_scan: "v_pc s w = VScan p src k \<Longrightarrow> quiet_step w s (v_scan n w p src k s)"
  by (auto simp: quiet_step_def v_scan_def v_insert_def seen_def split: prod.split option.split command.split)

lemma quiet_push_reply: "v_pc s w = VReply r from src k \<Longrightarrow> from < n \<Longrightarrow> quiet_step w s (v_push_reply n w r from src k s)"
  by (auto simp: quiet_step_def v_push_reply_def seen_def fifo_enq_def)

lemma quiet_collect:
  "vhand fin = vhand (v_pc s w) \<Longrightarrow> (\<And>b d. vhand (at b d) = vhand (v_pc s w)) \<Longrightarrow> quiet_step w s (v_collect n w d at fin s)"
  by (auto simp: quiet_step_def v_collect_def seen_def split: prod.split option.split)

lemma quiet_drain: "v_pc s w = VIngress p \<Longrightarrow> quiet_step w s (v_drain w p s)"
  by (auto simp: quiet_step_def v_drain_def seen_def split: list.split)

lemma quiet_serve:
  assumes "v_pc s w = VServe rs" "unat (v_next s w) < 2 ^ 48"
  shows "quiet_step w s (v_serve msk w rs s)"
proof (cases rs)
  case (Cons r rs')
  have "unat (v_next s w + 1) = unat (v_next s w) + 1" using assms(2) by (intro unat_Suc_no_wrap) simp
  then show ?thesis using assms(1) Cons
    by (auto simp: quiet_step_def v_serve_def v_insert_def seen_def Let_def split: client_op.split)
qed (use assms in \<open>simp add: v_serve_def quiet_at\<close>)

lemma quiet_push: "v_pc s w = VPush c ack rs \<Longrightarrow> mesh_route (cmd_key c) msk < n \<Longrightarrow> quiet_step w s (v_push n msk w c ack rs s)"
  by (auto simp: quiet_step_def v_push_def seen_def Let_def fifo_enq_def split: option.split)

lemma service_step_quiet:
  assumes "vpc_ok n msk s w (v_pc s w)" "\<And>k. mesh_route k msk < n" "unat (v_next s w) < 2 ^ 48"
  shows "quiet_step w s (service_step n msk w s)"
proof (cases "v_pc s w")
  case (VReply r src0 src k)
  then show ?thesis using assms(1) by (simp add: service_step_def quiet_push_reply)
next
  case (VFulfill r v pc)
  then show ?thesis by (simp add: service_step_def quiet_step_def seen_def)
qed (use assms in \<open>simp_all add: service_step_def quiet_scan quiet_collect quiet_drain quiet_serve quiet_push
    v_check_stop_def v_check_head_def quiet_at quiet_refl\<close>)

section \<open>All events\<close>

lemma tally_mono: "(\<And>i. i < n \<Longrightarrow> f i \<le> g i) \<Longrightarrow> tally n f id \<le> tally n g id"
  unfolding tally_def by (rule sum_mono) simp

lemma tally_add: "tally n (\<lambda>i. f i + (if i = a then x else 0)) id = tally n f id + (if a < n then x else 0)"
  unfolding tally_def by (simp add: sum.distrib)

definition service_ok :: "nat \<Rightarrow> u64 \<Rightarrow> service \<Rightarrow> bool" where
  "service_ok n msk s \<longleftrightarrow> service_inv n msk s \<and> once_inv n s \<and> load_inv s"

lemma service_ok_start: "service_ok n msk service_start"
  using service_inv_start [of n msk] by (simp add: service_ok_def once_inv_def load_inv_def seen_def tally_def) (simp add: service_start_def)

lemma inv_step:
  assumes inv: "service_inv n msk s" and owner: "\<And>k. mesh_route k msk < n" and nt: "unat (v_next s w) < 2 ^ 48"
  shows "service_inv n msk (service_step n msk w s)"
proof (cases "v_pc s w")
  case (VServe rs)
  show ?thesis
  proof (cases rs)
    case (Cons r rs')
    then have r: "req_ok s w r" "\<forall>r \<in> set rs'. req_ok s w r" using service_invD(3) [OF inv, of w] VServe by simp_all
    then have r': "r < length (v_calls s)" "call_ok n msk s r" using service_invD(8) [OF inv] by (simp_all add: req_ok_def)
    show ?thesis
    proof (cases "op_of s r")
      case (OPut key val)
      then have "mesh_route key msk = w" using r r' by (simp add: call_ok_def req_ok_def)
      then show ?thesis using inv_serve_put [OF inv r OPut] OPut Cons VServe by (simp add: service_step_def v_serve_def op_of_def)
    next
      case (OGet key)
      have local: "read_ok msk s r (v_shard s w key)" if "mesh_route key msk = w"
        using that OGet r' service_invD(9) [OF inv, of w]
        by (auto simp: read_ok_def call_ok_def intro!: exI [of _ "length (v_hist s w)"])
      show ?thesis
      proof (cases "mesh_route key msk = w")
        case True
        then have "vpc_ok n msk s w (VFulfill r (v_shard s w key) (VServe rs'))" using r local by simp
        then show ?thesis using inv_at [OF inv] True OGet Cons VServe by (simp add: service_step_def v_serve_def op_of_def)
      next
        case False
        then show ?thesis using inv_serve_get [OF inv r OGet False nt] OGet Cons VServe
          by (simp add: service_step_def v_serve_def op_of_def Let_def)
      qed
    qed
  qed (use inv_at [OF inv] VServe in \<open>simp add: service_step_def v_serve_def\<close>)
next
  case (VCollect p d k)
  then have "vcont_ok msk s w k" using service_invD(3) [OF inv, of w] by simp
  then have "vpc_ok n msk s w (v_resume p k)" by (cases k) simp_all
  then show ?thesis using inv_collect [OF inv, of w "\<lambda>b d. VCollect (p \<or> b) d k"] \<open>vcont_ok msk s w k\<close> VCollect
    by (simp add: service_step_def)
next
  case (VReplyDrain d r i src k)
  then show ?thesis using inv_collect [OF inv, of w "\<lambda>_ d. VReplyDrain d r i src k" "VReply r i src k"] service_invD(3) [OF inv, of w]
    by (simp add: service_step_def)
qed (use service_invD(3) [OF inv, of w] inv_scan [OF inv] inv_push_reply [OF inv] inv_push_cmd [OF inv _ owner] inv_drain [OF inv] inv_fulfill [OF inv] inv_at [OF inv] inv
    in \<open>simp_all add: service_step_def v_check_stop_def v_check_head_def\<close>)

lemma quiet_counts:
  assumes "quiet_step w s s'" "once_inv n s" "load_inv s"
  shows "once_inv n s'" "load_inv s'"
proof -
  have u: "v_pend s' = v_pend s" "v_calls s' = v_calls s" using assms(1) by (simp_all add: quiet_step_def)
  have "seen s' r i \<le> seen s r i" for r i using assms(1) by (cases "i = w") (simp_all add: quiet_step_def seen_def)
  then have "tally n (seen s' r) id \<le> tally n (seen s r) id" for r by (intro tally_mono)
  then show "once_inv n s'" using assms(2) unfolding once_inv_def u by (meson add_left_mono order_trans)
  show "load_inv s'" unfolding load_inv_def u
  proof
    fix i
    show "unat (v_next s' i) + length (v_pend s) + length (v_ingress s' i) + length (vhand (v_pc s' i)) \<le> length (v_calls s)"
      using assms(1) assms(3) [unfolded load_inv_def, rule_format, of i] by (cases "i = w") (auto simp: quiet_step_def)
  qed
qed

lemma next_bound:
  assumes "service_ok n msk s" "length (v_calls s) < 2 ^ 48"
  shows "unat (v_next s w) < 2 ^ 48"
  using assms(1) [unfolded service_ok_def load_inv_def] assms(2) by (elim conjE allE [of _ w]) linarith

lemma service_ok_step:
  assumes "service_ok n msk s" "\<And>k. mesh_route k msk < n" "length (v_calls s) < 2 ^ 48"
  shows "service_ok n msk (service_step n msk w s)"
proof -
  have inv: "service_inv n msk s" "once_inv n s" "load_inv s" using assms(1) by (simp_all add: service_ok_def)
  have "unat (v_next s w) < 2 ^ 48" by (rule next_bound [OF assms(1,3)])
  then show ?thesis using inv_step [OF inv(1) assms(2)] quiet_counts [OF service_step_quiet inv(2,3)] service_invD(3) [OF inv(1)] assms(2)
    by (simp add: service_ok_def)
qed

text \<open>A new request is nowhere yet.\<close>

lemma new_request:
  assumes "service_inv n msk s"
  shows "count_list (v_pend s) (length (v_calls s)) + tally n (seen s (length (v_calls s))) id = 0"
proof -
  note i = service_invD [OF assms]
  let ?r = "length (v_calls s)"
  have "?r \<notin> set (v_ingress s j)" "?r \<notin> set (vhand (v_pc s j))" for j
    using i(4) [of ?r j] vhand_ok [OF i(3), of ?r j] by (auto simp: req_ok_def)
  moreover have "Some ?r \<notin> set (map fst (v_hist s j))" for j using i(10) [of _ j] by (fastforce simp: entry_ok_def)
  moreover have "?r \<notin> set (v_pend s)" using i(5) by blast
  ultimately show ?thesis by (simp add: tally_def seen_def count_list_0_iff)
qed

lemma service_ok_call:
  assumes "service_ok n msk s" "0 < n" "\<And>k. mesh_route k msk < n"
  shows "service_ok n msk (begin_call n msk a s)"
proof -
  have inv: "service_inv n msk s" "once_inv n s" "load_inv s" using assms(1) by (simp_all add: service_ok_def)
  have seen: "seen (begin_call n msk a s) r = seen s r" for r by (simp add: begin_call_def seen_def fun_eq_iff split: prod.split)
  have pend: "v_pend (begin_call n msk a s) = v_pend s @ [length (v_calls s)]" by (simp add: begin_call_def split: prod.split)
  have "once_inv n (begin_call n msk a s)" unfolding once_inv_def seen pend
  proof
    fix r
    show "count_list (v_pend s @ [length (v_calls s)]) r + tally n (seen s r) id \<le> 1"
      using new_request [OF inv(1)] inv(2) [unfolded once_inv_def, rule_format, of r] by (cases "r = length (v_calls s)") simp_all
  qed
  moreover have "load_inv (begin_call n msk a s)" using inv(3) by (simp add: load_inv_def begin_call_def split: prod.split)
  ultimately show ?thesis using inv_begin_call [OF inv(1) assms(2,3)] by (simp add: service_ok_def)
qed

lemma service_ok_push:
  assumes "service_ok n msk s"
  shows "service_ok n msk (submit_push i s)"
proof (cases "i < length (v_pend s)")
  case True
  have inv: "service_inv n msk s" "once_inv n s" "load_inv s" using assms by (simp_all add: service_ok_def)
  define r where "r = v_pend s ! i"
  have split: "v_pend s = take i (v_pend s) @ r # drop (Suc i) (v_pend s)" using True by (simp add: r_def id_take_nth_drop)
  have "r \<in> set (v_pend s)" using True by (simp add: r_def)
  then have a: "c_accept (v_calls s ! r) < n" using service_invD(5,8) [OF inv(1)] by (simp add: call_ok_def)
  have pend: "v_pend (submit_push i s) = take i (v_pend s) @ drop (Suc i) (v_pend s)"
    using True by (simp add: submit_push_def Let_def)
  have cnt: "count_list (v_pend s) q = count_list (take i (v_pend s) @ drop (Suc i) (v_pend s)) q + (if q = r then 1 else 0)" for q
    by (subst split) simp
  have "seen (submit_push i s) q = (\<lambda>j. seen s q j + (if j = c_accept (v_calls s ! r) then if q = r then 1 else 0 else 0))" for q
    using True by (simp add: fun_eq_iff submit_push_def Let_def seen_def r_def)
  then have tal: "tally n (seen (submit_push i s) q) id = tally n (seen s q) id + (if q = r then 1 else 0)" for q
    using a by (simp only: tally_add if_True)
  have "count_list (v_pend (submit_push i s)) q + tally n (seen (submit_push i s) q) id \<le> 1" for q
    using inv(2) [unfolded once_inv_def, rule_format, of q] unfolding pend tal cnt by linarith
  then have "once_inv n (submit_push i s)" by (simp add: once_inv_def)
  moreover have "load_inv (submit_push i s)" unfolding load_inv_def
  proof
    fix j
    show "unat (v_next (submit_push i s) j) + length (v_pend (submit_push i s)) + length (v_ingress (submit_push i s) j) +
        length (vhand (v_pc (submit_push i s) j)) \<le> length (v_calls (submit_push i s))"
      using True inv(3) [unfolded load_inv_def, rule_format, of j] by (auto simp: submit_push_def Let_def)
  qed
  ultimately show ?thesis using inv_submit_push [OF inv(1)] by (simp add: service_ok_def)
qed (use assms in \<open>simp add: submit_push_def\<close>)

lemma service_ok_stop: "service_ok n msk s \<Longrightarrow> service_ok n msk (s\<lparr>v_stop := True\<rparr>)"
  by (simp add: service_ok_def inv_stop once_inv_def load_inv_def seen_def [abs_def])

text \<open>Calls and histories only grow.\<close>

definition grows :: "service \<Rightarrow> service \<Rightarrow> bool" where
  "grows s s' \<longleftrightarrow> (\<exists>cs. v_calls s' = v_calls s @ cs) \<and> (\<forall>j. \<exists>hs. v_hist s' j = v_hist s j @ hs)"

lemma growsI: "v_calls s' = v_calls s \<Longrightarrow> v_hist s' = v_hist s \<Longrightarrow> grows s s'"
  by (simp add: grows_def)

lemma grows_trans: "grows s s' \<Longrightarrow> grows s' s'' \<Longrightarrow> grows s s''"
  unfolding grows_def by (metis append.assoc)

lemma grows_length: "grows s s' \<Longrightarrow> length (v_calls s) \<le> length (v_calls s')"
  "grows s s' \<Longrightarrow> length (v_hist s j) \<le> length (v_hist s' j)"
  unfolding grows_def by (metis length_append le_add1)+

lemma step_grows: "grows s (service_step n msk w s)"
proof (cases "v_pc s w")
  case (VScan p src k)
  then show ?thesis by (auto simp: service_step_def v_scan_def v_insert_def grows_def split: prod.split option.split command.split)
next
  case (VServe rs)
  then show ?thesis by (auto simp: service_step_def v_serve_def v_insert_def grows_def Let_def split: list.split client_op.split)
qed (rule growsI; simp add: service_step_def v_push_reply_def v_collect_def v_drain_def v_push_def v_check_stop_def v_check_head_def Let_def
    split: prod.split option.split list.split result.split)+

lemma event_grows: "grows s (service_event n msk e s)"
proof (cases e)
  case (Call a)
  then show ?thesis by (simp add: begin_call_def grows_def split: prod.split)
qed (simp_all add: step_grows submit_push_def Let_def growsI)

lemma run_append: "service_run requested (es @ [e]) =
    service_event (unat (mesh_size requested)) (mesh_size requested - 1) e (service_run requested es)"
  by (simp add: service_run_def)

lemma run_grows: "grows (service_run requested es) (service_run requested (es @ es'))"
proof (induction es' rule: rev_induct)
  case (snoc e es')
  then show ?case using grows_trans event_grows run_append by (metis append.assoc)
qed (simp add: grows_def)

lemma run_ok:
  assumes "unat requested \<le> 2 ^ 63" "length (v_calls (service_run requested es)) < 2 ^ 48"
  shows "service_ok (unat (mesh_size requested)) (mesh_size requested - 1) (service_run requested es)"
  using assms(2)
proof (induction es rule: rev_induct)
  case Nil
  show ?case by (simp add: service_run_def service_ok_start)
next
  case (snoc e es)
  note size = size_routes [OF assms(1)]
  have len: "length (v_calls (service_run requested es)) < 2 ^ 48"
    using grows_length(1) [OF run_grows, of requested es "[e]"] snoc.prems by linarith
  note ok = snoc.IH [OF len]
  show ?case unfolding run_append
  proof (cases e)
    case (Call a)
    then show "service_ok (unat (mesh_size requested)) (mesh_size requested - 1)
        (service_event (unat (mesh_size requested)) (mesh_size requested - 1) e (service_run requested es))"
      using service_ok_call [OF ok size(2,1)] by simp
  qed (use ok service_ok_push [OF ok] service_ok_stop [OF ok] service_ok_step [OF ok size(1) len] in simp_all)
qed

section \<open>Properties\<close>

lemma distinct_countI: "(\<And>x. x \<in> set xs \<Longrightarrow> count_list xs x \<le> 1) \<Longrightarrow> distinct xs"
proof (induction xs)
  case (Cons a xs)
  have "count_list (a # xs) a \<le> 1" by (rule Cons.prems) simp
  then have "a \<notin> set xs" by (simp add: count_list_0_iff)
  moreover have "count_list xs x \<le> 1" if "x \<in> set xs" for x using Cons.prems [of x] that by (auto split: if_splits)
  ultimately show ?case using Cons.IH by simp
qed simp

lemma hist_distinct:
  assumes "service_ok n msk s" "\<And>k. mesh_route k msk < n"
  shows "distinct (map fst (v_hist s j))"
proof (rule distinct_countI)
  fix x assume "x \<in> set (map fst (v_hist s j))"
  then obtain e where e: "e \<in> set (v_hist s j)" "x = fst e" by auto
  have "entry_ok msk s j e" using assms(1) e(1) service_invD(10) unfolding service_ok_def by blast
  then obtain r k v where r: "e = (Some r, k, v)" "j < n" using assms(2) by (auto simp: entry_ok_def)
  have "seen s r j \<le> tally n (seen s r) id" unfolding tally_def using r(2) by (simp add: member_le_sum)
  also have "\<dots> \<le> 1" using assms(1) unfolding service_ok_def once_inv_def by (meson add_leE)
  finally show "count_list (map fst (v_hist s j)) x \<le> 1" using e(2) r(1) by (simp add: seen_def)
qed

text \<open>C9: The service is linearizable, in whatever order clients and workers interleave: no worker panics; every
  get that has been answered returned the value of its key in the shard of the owner at some moment
  between the call and now; every put that has been answered was applied to that shard since its call; and every put
  applied comes from a call and is applied once, in the shard its key is routed to.  This holds for
  fewer than \<open>2 ^ 48\<close> calls, after which tokens may repeat.\<close>

theorem service_linearizable:
  assumes "unat requested \<le> 2 ^ 63" "length (v_calls (service_run requested es)) < 2 ^ 48"
  shows "let msk = mesh_size requested - 1; s = service_run requested es in
    (\<forall>w. v_pc s w \<noteq> VPanic) \<and> (\<forall>r v. v_answer s r = Some v \<longrightarrow> read_ok msk s r v \<or> write_ok msk s r v) \<and>
    (\<forall>j. distinct (map fst (v_hist s j)) \<and> (\<forall>e \<in> set (v_hist s j). entry_ok msk s j e) \<and> v_shard s j = apply_puts (v_hist s j))"
proof -
  define msk s where "msk = mesh_size requested - 1" and "s = service_run requested es"
  have ok: "service_ok (unat (mesh_size requested)) msk s" using run_ok [OF assms] by (simp add: msk_def s_def)
  then have inv: "service_inv (unat (mesh_size requested)) msk s" by (simp add: service_ok_def)
  have "v_pc s w \<noteq> VPanic" for w using service_invD(3) [OF inv, of w] by auto
  moreover have "distinct (map fst (v_hist s j))" for j using hist_distinct [OF ok] size_routes(1) [OF assms(1)] by (simp add: msk_def)
  ultimately show ?thesis using service_invD(6,9,10) [OF inv] by (simp add: Let_def flip: msk_def s_def)
qed

lemma step_calls: "v_calls (service_step n msk w s) = v_calls s"
  by (cases "v_pc s w") (simp_all add: service_step_def v_scan_def v_insert_def v_serve_def v_push_reply_def v_collect_def v_drain_def
      v_push_def v_check_stop_def v_check_head_def Let_def
      split: prod.split option.split list.split result.split command.split client_op.split)

text \<open>The call of a request that begins after a run starts with at least the history of that run.\<close>

lemma later_start:
  assumes "length (v_calls (service_run requested es)) \<le> q" "q < length (v_calls (service_run requested (es @ es')))"
  shows "let s' = service_run requested (es @ es') in
    length (v_hist (service_run requested es) (mesh_route (op_key (op_of s' q)) (mesh_size requested - 1))) \<le> c_start (v_calls s' ! q)"
  using assms(2)
proof (induction es' rule: rev_induct)
  case Nil
  then show ?case using assms(1) by simp
next
  case (snoc e es')
  let ?s = "service_run requested (es @ es')"
  let ?e = "service_event (unat (mesh_size requested)) (mesh_size requested - 1) e ?s"
  have run: "service_run requested (es @ es' @ [e]) = ?e" using run_append [of requested "es @ es'" e] by simp
  have "length (v_hist (service_run requested es) (mesh_route (op_key (op_of ?e q)) (mesh_size requested - 1))) \<le> c_start (v_calls ?e ! q)"
  proof (cases "q < length (v_calls ?s)")
    case True
    moreover have "v_calls ?e ! q = v_calls ?s ! q"
      using True event_grows [of ?s _ _ e] unfolding grows_def by (metis nth_append)
    ultimately show ?thesis using snoc.IH by (simp add: Let_def op_of_def)
  next
    case False
    then show ?thesis using snoc.prems grows_length(2) [OF run_grows, of requested es _ es'] unfolding run
      by (cases e) (simp_all add: begin_call_def op_of_def nth_append submit_push_def step_calls Let_def split: prod.splits if_splits)
  qed
  then show ?case by (simp only: run Let_def)
qed

text \<open>C10: Reads follow writes: when a put has been answered, every later call of a get of its key returns a
  value, from a state of the shard that contains this put, so the value is the one put or that of a put
  applied after it.\<close>

theorem read_after_write:
  assumes "unat requested \<le> 2 ^ 63" "length (v_calls (service_run requested (es @ es'))) < 2 ^ 48"
    "op_of (service_run requested es) r = OPut k x" "v_answer (service_run requested es) r \<noteq> None"
    "length (v_calls (service_run requested es)) \<le> q"
    "op_of (service_run requested (es @ es')) q = OGet k" "v_answer (service_run requested (es @ es')) q = Some v"
  shows "\<exists>p. let h = take p (v_hist (service_run requested (es @ es')) (mesh_route k (mesh_size requested - 1))) in
    (Some r, k, x) \<in> set h \<and> v = apply_puts h k \<and> v \<noteq> None"
proof -
  define msk s s' where "msk = mesh_size requested - 1" and "s = service_run requested es" and "s' = service_run requested (es @ es')"
  have len: "length (v_calls s) < 2 ^ 48"
    using assms(2) grows_length(1) [OF run_grows, of requested es es'] unfolding s_def by linarith
  have inv: "service_inv (unat (mesh_size requested)) msk s" "service_inv (unat (mesh_size requested)) msk s'"
    using run_ok [OF assms(1,2)] run_ok [OF assms(1) len [unfolded s_def]] by (simp_all add: service_ok_def msk_def s_def s'_def)
  have "write_ok msk s r None" using service_invD(6) [OF inv(1), of r] assms(3,4) by (auto simp: s_def read_ok_def write_ok_def)
  then have w: "(Some r, k, x) \<in> set (v_hist s (mesh_route k msk))"
    using assms(3) by (auto simp: write_ok_def s_def dest: in_set_dropD)
  have "read_ok msk s' q v" using service_invD(6) [OF inv(2), of q] assms(6,7) by (auto simp: s'_def read_ok_def write_ok_def)
  then obtain p where p: "q < length (v_calls s')" "c_start (v_calls s' ! q) \<le> p" "v = apply_puts (take p (v_hist s' (mesh_route k msk))) k"
    using assms(6) by (auto simp: read_ok_def s'_def)
  have "length (v_hist s (mesh_route k msk)) \<le> p"
    using later_start [OF assms(5) p(1) [unfolded s'_def]] p(2) assms(6) by (simp add: Let_def s_def s'_def msk_def)
  moreover obtain hs where "v_hist s' (mesh_route k msk) = v_hist s (mesh_route k msk) @ hs"
    using run_grows [of requested es es'] unfolding grows_def s_def s'_def by blast
  ultimately have e: "(Some r, k, x) \<in> set (take p (v_hist s' (mesh_route k msk)))" using w by simp
  then have "k \<in> dom (apply_puts (take p (v_hist s' (mesh_route k msk))))" unfolding dom_apply_puts by force
  then show ?thesis using e p(3) by (auto simp: Let_def msk_def s'_def intro!: exI [of _ p])
qed

text \<open>A put on two shards, and then a get through the worker that does not own the key.\<close>

lemma size_two: "mesh_size 2 = 2"
  by code_simp

lemma route_nil: "mesh_route [] 1 = 1"
  by (simp add: mesh_route_def)

lemmas run_eval = service_run_def service_start_def service_step_def begin_call_def submit_push_def v_scan_def v_push_reply_def
  v_collect_def v_drain_def v_serve_def v_push_def v_check_stop_def v_check_head_def v_insert_def fifo_deq_def fifo_enq_def
  mesh_cap_def token_of_def size_two route_nil

definition demo_put :: "event list" where
  "demo_put = [Call (APut [] [7]), Push 0, Work 1, Work 1, Work 1, Work 1, Work 1, Work 1, Work 1, Work 1, Work 1]"

definition demo_get :: "event list" where
  "demo_get = [Call (ARoundRobin []), Push 0, Work 0, Work 0, Work 0, Work 0, Work 0, Work 0, Work 0, Work 0, Work 0,
     Work 1, Work 1, Work 1, Work 1, Work 0, Work 0, Work 0, Work 0, Work 0, Work 0, Work 0, Work 0]"

lemma service_demo:
  "v_answer (service_run 2 demo_put) 0 = Some None" "v_calls (service_run 2 demo_put) = [\<lparr>c_op = OPut [] [7], c_accept = 1, c_start = 0\<rparr>]"
  "v_answer (service_run 2 (demo_put @ demo_get)) 1 = Some (Some [7])"
  "v_calls (service_run 2 (demo_put @ demo_get)) =
     [\<lparr>c_op = OPut [] [7], c_accept = 1, c_start = 0\<rparr>, \<lparr>c_op = OGet [], c_accept = 0, c_start = 1\<rparr>]"
  by (simp_all add: demo_put_def demo_get_def run_eval)

theorem service_linearizable_witness:
  "v_answer (service_run 2 (demo_put @ demo_get)) 1 = Some (Some [7]) \<and>
   read_ok 1 (service_run 2 (demo_put @ demo_get)) 1 (Some [7])"
proof -
  have "length (v_calls (service_run 2 (demo_put @ demo_get))) < 2 ^ 48" unfolding service_demo(4) by simp
  from service_linearizable [OF _ this] have "read_ok 1 (service_run 2 (demo_put @ demo_get)) 1 (Some [7]) \<or>
      write_ok 1 (service_run 2 (demo_put @ demo_get)) 1 (Some [7])" using service_demo(3) unfolding Let_def size_two by auto
  then show ?thesis using service_demo(3) unfolding write_ok_def by blast
qed

theorem read_after_write_witness:
  "\<exists>p. let h = take p (v_hist (service_run 2 (demo_put @ demo_get)) 1) in
    (Some 0, [], [7]) \<in> set h \<and> Some [7] = apply_puts h [] \<and> Some [7] \<noteq> None"
proof -
  have "length (v_calls (service_run 2 (demo_put @ demo_get))) < 2 ^ 48" unfolding service_demo(4) by simp
  from read_after_write [OF _ this, of 0 "[]" "[7]" 1 "Some [7]"] show ?thesis
    using service_demo(1,3) by (simp add: op_of_def service_demo(2,4) size_two route_nil)
qed

end
