(* ===== verification/ServiceProgress.thy ===== *)
theory ServiceProgress
  imports ServiceRuns
begin

text \<open>
  Progress of the mesh service: as long as nobody calls \<open>shutdown\<close>, every request can still be answered,
  however full the channels are.  An unanswered request is somewhere, a forwarded one is carried by a
  message, and whatever is somewhere can be moved on by some worker.
\<close>

section \<open>No request is lost\<close>

fun fulfilling :: "vpc \<Rightarrow> nat set" where
  "fulfilling (VFulfill r v pc) = insert r (fulfilling pc)"
| "fulfilling pc = {}"

fun cmd_token :: "command \<Rightarrow> u64 set" where
  "cmd_token (CGet k i t) = {t}"
| "cmd_token (CPut k v) = {}"

fun out_k :: "vcont \<Rightarrow> u64 set" where
  "out_k VLoop = {}"
| "out_k (VRetry c ack rs) = cmd_token c"

fun out_tokens :: "vpc \<Rightarrow> u64 set" where
  "out_tokens (VScan p src k) = out_k k"
| "out_tokens (VReply r i src k) = out_k k"
| "out_tokens (VReplyDrain d r i src k) = out_k k"
| "out_tokens (VCollect p d k) = out_k k"
| "out_tokens (VPush c ack rs) = cmd_token c"
| "out_tokens (VFulfill r v pc) = out_tokens pc"
| "out_tokens pc = {}"

fun reply_tokens :: "nat \<Rightarrow> vpc \<Rightarrow> u64 set" where
  "reply_tokens j (VReply r i src k) = (if i = j then {rp_token r} else {})"
| "reply_tokens j (VReplyDrain d r i src k) = (if i = j then {rp_token r} else {})"
| "reply_tokens j (VFulfill r v pc) = reply_tokens j pc"
| "reply_tokens j pc = {}"

fun alive :: "vpc \<Rightarrow> bool" where
  "alive VHead \<longleftrightarrow> False"
| "alive VExit \<longleftrightarrow> False"
| "alive VPanic \<longleftrightarrow> False"
| "alive (VFulfill r v pc) \<longleftrightarrow> alive pc"
| "alive pc \<longleftrightarrow> True"

definition found :: "nat \<Rightarrow> service \<Rightarrow> nat \<Rightarrow> bool" where
  "found n s r \<longleftrightarrow> r \<in> set (v_pend s) \<or>
     (\<exists>i < n. r \<in> set (v_ingress s i) \<or> r \<in> set (vhand (v_pc s i)) \<or> r \<in> fulfilling (v_pc s i) \<or> r \<in> ran (v_waiters s i))"

definition carried :: "nat \<Rightarrow> service \<Rightarrow> nat \<Rightarrow> u64 \<Rightarrow> bool" where
  "carried n s i t \<longleftrightarrow> t \<in> out_tokens (v_pc s i) \<or>
     (\<exists>j < n. (\<exists>c \<in> set (v_cmd s (i, j)). t \<in> cmd_token c) \<or> t \<in> reply_tokens i (v_pc s j) \<or> t \<in> rp_token ` set (v_reply s (j, i)))"

lemma foundI:
  "r \<in> set (v_pend s) \<Longrightarrow> found n s r"
  "i < n \<Longrightarrow> r \<in> set (v_ingress s i) \<Longrightarrow> found n s r"
  "i < n \<Longrightarrow> r \<in> set (vhand (v_pc s i)) \<Longrightarrow> found n s r"
  "i < n \<Longrightarrow> r \<in> fulfilling (v_pc s i) \<Longrightarrow> found n s r"
  "i < n \<Longrightarrow> v_waiters s i t = Some r \<Longrightarrow> found n s r"
  unfolding found_def ran_def by blast+

lemma foundE:
  assumes "found n s r"
  obtains (pend) "r \<in> set (v_pend s)"
    | (ingress) i where "i < n" "r \<in> set (v_ingress s i)"
    | (hand) i where "i < n" "r \<in> set (vhand (v_pc s i))"
    | (fulfill) i where "i < n" "r \<in> fulfilling (v_pc s i)"
    | (waiter) i t where "i < n" "v_waiters s i t = Some r"
  using assms unfolding found_def ran_def by blast

lemma carriedI:
  "t \<in> out_tokens (v_pc s i) \<Longrightarrow> carried n s i t"
  "j < n \<Longrightarrow> c \<in> set (v_cmd s (i, j)) \<Longrightarrow> t \<in> cmd_token c \<Longrightarrow> carried n s i t"
  "j < n \<Longrightarrow> t \<in> reply_tokens i (v_pc s j) \<Longrightarrow> carried n s i t"
  "j < n \<Longrightarrow> rep \<in> set (v_reply s (j, i)) \<Longrightarrow> t = rp_token rep \<Longrightarrow> carried n s i t"
  unfolding carried_def by blast+

lemma carriedE:
  assumes "carried n s i t"
  obtains (out) "t \<in> out_tokens (v_pc s i)"
    | (cmd) j c where "j < n" "c \<in> set (v_cmd s (i, j))" "t \<in> cmd_token c"
    | (hand) j where "j < n" "t \<in> reply_tokens i (v_pc s j)"
    | (queue) j rep where "j < n" "rep \<in> set (v_reply s (j, i))" "t = rp_token rep"
  using assms unfolding carried_def by blast

definition live_inv :: "nat \<Rightarrow> service \<Rightarrow> bool" where
  "live_inv n s \<longleftrightarrow> \<not> v_stop s \<and> (\<forall>w. alive (v_pc s w)) \<and> (\<forall>r < length (v_calls s). v_answer s r = None \<longrightarrow> found n s r) \<and>
     (\<forall>i t r. v_waiters s i t = Some r \<longrightarrow> i < n \<and> carried n s i t)"

lemma live_invD:
  assumes "live_inv n s"
  shows "\<not> v_stop s" "\<And>w. alive (v_pc s w)" "\<And>r. r < length (v_calls s) \<Longrightarrow> v_answer s r = None \<Longrightarrow> found n s r"
    "\<And>i t r. v_waiters s i t = Some r \<Longrightarrow> i < n \<and> carried n s i t"
  using assms unfolding live_inv_def by blast+

lemma live_inv_start: "live_inv n service_start"
  by (simp add: live_inv_def service_start_def)

lemma live_keep:
  assumes "live_inv n s" "v_stop s' = v_stop s" "\<And>w. alive (v_pc s' w)" "v_calls s' = v_calls s"
    "\<And>r. v_answer s' r = None \<Longrightarrow> v_answer s r = None" "\<And>r. v_answer s' r = None \<Longrightarrow> found n s r \<Longrightarrow> found n s' r"
    "\<And>i t r. v_waiters s' i t = Some r \<Longrightarrow> v_waiters s i t = Some r \<and> (carried n s i t \<longrightarrow> carried n s' i t) \<or> i < n \<and> carried n s' i t"
  shows "live_inv n s'"
proof -
  note l = live_invD [OF assms(1)]
  have "i < n \<and> carried n s' i t" if "v_waiters s' i t = Some r" for i t r using assms(7) [OF that] l(4) by blast
  then show ?thesis using l assms(2-6) by (simp add: live_inv_def)
qed

text \<open>A step that only moves the worker.\<close>

lemma live_at:
  assumes "live_inv n s" "alive pc" "vhand pc = vhand (v_pc s w)" "fulfilling pc = fulfilling (v_pc s w)"
    "out_tokens pc = out_tokens (v_pc s w)" "\<And>j. reply_tokens j pc = reply_tokens j (v_pc s w)"
  shows "live_inv n (v_at w pc s)"
proof (rule live_keep [OF assms(1)])
  show "alive (v_pc (v_at w pc s) u)" for u using assms(2) live_invD(2) [OF assms(1)] by simp
  have e: "f (v_pc (v_at w pc s) u) = f (v_pc s u)" if "f pc = f (v_pc s w)" for f :: "vpc \<Rightarrow> 'x" and u using that by simp
  show "found n (v_at w pc s) r" if "found n s r" for r
    using that e [of vhand] e [of fulfilling] assms(3,4) by (simp add: found_def del: fun_upd_apply)
  show "v_waiters s i t = Some r \<and> (carried n s i t \<longrightarrow> carried n (v_at w pc s) i t) \<or> i < n \<and> carried n (v_at w pc s) i t"
    if "v_waiters (v_at w pc s) i t = Some r" for i t r
    using that e [of out_tokens] e [of "reply_tokens i"] assms(5,6) by (simp add: carried_def del: fun_upd_apply)
qed simp_all

lemma live_call: "live_inv n s \<Longrightarrow> live_inv n (begin_call n msk a s)"
  by (auto simp: live_inv_def begin_call_def found_def carried_def less_Suc_eq split: prod.split)

lemma live_push:
  assumes "live_inv n s" "\<And>r. r \<in> set (v_pend s) \<Longrightarrow> c_accept (v_calls s ! r) < n"
  shows "live_inv n (submit_push i s)"
proof (cases "i < length (v_pend s)")
  case True
  define r a where "r = v_pend s ! i" and "a = c_accept (v_calls s ! r)"
  let ?s = "s\<lparr>v_pend := take i (v_pend s) @ drop (Suc i) (v_pend s), v_ingress := (v_ingress s)(a := r # v_ingress s a)\<rparr>"
  have "v_pend s = take i (v_pend s) @ r # drop (Suc i) (v_pend s)" using True by (simp add: r_def id_take_nth_drop)
  then have pend: "set (v_pend s) = insert r (set (take i (v_pend s) @ drop (Suc i) (v_pend s)))"
    by (metis Un_insert_right list.simps(15) set_append)
  have a: "a < n" using assms(2) [of r] True by (simp add: r_def a_def)
  have "live_inv n ?s"
  proof (rule live_keep [OF assms(1)])
    show "found n ?s q" if "found n s q" for q
      using that a unfolding found_def pend by (auto split: if_splits)
    show "v_waiters s j t = Some q \<and> (carried n s j t \<longrightarrow> carried n ?s j t) \<or> j < n \<and> carried n ?s j t"
      if "v_waiters ?s j t = Some q" for j t q using that by (simp add: carried_def)
  qed (simp_all add: live_invD [OF assms(1)])
  then show ?thesis using True by (simp add: submit_push_def Let_def r_def a_def)
qed (simp add: submit_push_def assms(1))

lemma live_scan:
  assumes "live_inv n s" "service_inv n msk s" "w < n" "v_pc s w = VScan p src k"
  shows "live_inv n (v_scan n w p src k s)"
proof (cases "n \<le> src \<or> v_cmd s (src, w) = []")
  case True
  then show ?thesis using live_at [OF assms(1)] assms(4) by (auto simp: v_scan_def fifo_deq_def)
next
  case False
  then obtain c q where q: "v_cmd s (src, w) = c # q" "src < n" by (cases "v_cmd s (src, w)") auto
  then obtain key t where c: "c = CGet key src t" using service_invD(1) [OF assms(2), of c src w] unfolding cmd_ok_def by auto
  let ?s = "v_at w (VReply \<lparr>rp_token = t, rp_val = v_shard s w key\<rparr> src src k) s\<lparr>v_cmd := (v_cmd s)((src, w) := q)\<rparr>"
  have "live_inv n ?s"
  proof (rule live_keep [OF assms(1)])
    show "found n ?s r" if "found n s r" for r using that assms(4) by (auto simp: found_def)
    show "v_waiters s i u = Some r \<and> (carried n s i u \<longrightarrow> carried n ?s i u) \<or> i < n \<and> carried n ?s i u"
      if "v_waiters ?s i u = Some r" for i u r
    proof -
      have "carried n ?s i u" if h: "carried n s i u"
        using h
      proof (cases rule: carriedE)
        case out
        then show ?thesis using assms(4) by (intro carriedI(1)) auto
      next
        case (cmd j d)
        show ?thesis
        proof (cases "i = src \<and> j = w \<and> d = c")
          case True
          then show ?thesis using cmd c assms(3) by (intro carriedI(3) [of w]) auto
        next
          case False
          then show ?thesis using cmd q(1) by (intro carriedI(2) [of j _ d]) auto
        qed
      next
        case (hand j)
        then show ?thesis using assms(4) by (intro carriedI(3) [of j]) auto
      next
        case (queue j rep)
        then show ?thesis by (intro carriedI(4) [of j _ rep]) auto
      qed
      then show ?thesis using that by simp
    qed
  qed (simp_all add: live_invD [OF assms(1)])
  then show ?thesis using q c by (simp add: v_scan_def fifo_deq_def)
qed

lemma live_push_reply:
  assumes "live_inv n s" "w < n" "i < n" "v_pc s w = VReply r i src k"
  shows "live_inv n (v_push_reply n w r i src k s)"
proof (cases "length (v_reply s (w, i)) < mesh_cap")
  case True
  let ?s = "v_at w (VScan True src k) s\<lparr>v_reply := (v_reply s)((w, i) := v_reply s (w, i) @ [r])\<rparr>"
  have "live_inv n ?s"
  proof (rule live_keep [OF assms(1)])
    show "found n ?s q" if "found n s q" for q using that assms(4) by (auto simp: found_def)
    have "carried n ?s j u" if "carried n s j u" for j u
      using that
    proof (cases rule: carriedE)
      case (hand x)
      then show ?thesis using assms(2,4) by (cases "x = w") (auto split: if_splits intro: carriedI(3) [of x] carriedI(4) [of w _ r])
    next
      case (queue x rep)
      then show ?thesis by (intro carriedI(4) [of x _ rep]) auto
    next
      case out
      then show ?thesis using assms(4) by (intro carriedI(1)) auto
    next
      case (cmd x c)
      then show ?thesis by (intro carriedI(2) [of x _ c]) auto
    qed
    then show "v_waiters s j u = Some q \<and> (carried n s j u \<longrightarrow> carried n ?s j u) \<or> j < n \<and> carried n ?s j u"
      if "v_waiters ?s j u = Some q" for j u q using that by simp
  qed (simp_all add: live_invD [OF assms(1)])
  then show ?thesis using True assms(3) by (simp add: v_push_reply_def fifo_enq_def)
next
  case False
  then show ?thesis using live_at [OF assms(1)] assms(3,4) by (simp add: v_push_reply_def fifo_enq_def)
qed

lemma live_collect:
  assumes "live_inv n s" "w < n"
    "\<And>pc. pc \<in> insert fin (range (case_prod at)) \<Longrightarrow> alive pc \<and> vhand pc = vhand (v_pc s w) \<and> fulfilling pc = {} \<and>
       out_tokens pc = out_tokens (v_pc s w) \<and> (\<forall>j. reply_tokens j pc = reply_tokens j (v_pc s w))"
    "fulfilling (v_pc s w) = {}"
  shows "live_inv n (v_collect n w d at fin s)"
proof -
  have at: "alive (at b e)" "vhand (at b e) = vhand (v_pc s w)" "fulfilling (at b e) = {}" "out_tokens (at b e) = out_tokens (v_pc s w)"
    "\<And>j. reply_tokens j (at b e) = reply_tokens j (v_pc s w)" for b e using assms(3) [of "at b e"] by auto
  have fin: "alive fin" "vhand fin = vhand (v_pc s w)" "fulfilling fin = {}" "out_tokens fin = out_tokens (v_pc s w)"
    "\<And>j. reply_tokens j fin = reply_tokens j (v_pc s w)" using assms(3) [of fin] by auto
  show ?thesis
  proof (cases "n \<le> d \<or> v_reply s (d, w) = []")
    case True
    then show ?thesis using live_at [OF assms(1), of fin w] live_at [OF assms(1), of "at False (d + 1)" w] at fin assms(4)
      by (auto simp: v_collect_def fifo_deq_def)
  next
    case False
    then obtain rep q where q: "v_reply s (d, w) = rep # q" "d < n" by (cases "v_reply s (d, w)") auto
    define pc where "pc = (case v_waiters s w (rp_token rep) of None \<Rightarrow> at True d | Some r \<Rightarrow> VFulfill r (rp_val rep) (at True d))"
    let ?s = "v_at w pc s\<lparr>v_reply := (v_reply s)((d, w) := q), v_waiters := (v_waiters s)(w := (v_waiters s w)(rp_token rep := None))\<rparr>"
    have pc: "alive pc" "vhand pc = vhand (v_pc s w)" "out_tokens pc = out_tokens (v_pc s w)" "\<And>j. reply_tokens j pc = reply_tokens j (v_pc s w)"
      "\<And>r. v_waiters s w (rp_token rep) = Some r \<Longrightarrow> r \<in> fulfilling pc" using at by (simp_all add: pc_def split: option.split)
    have "live_inv n ?s"
    proof (rule live_keep [OF assms(1)])
      show "found n ?s r" if "found n s r" for r
        using that
      proof (cases rule: foundE)
        case (hand i)
        then show ?thesis using pc(2) by (intro foundI(3) [of i]) auto
      next
        case (fulfill i)
        then show ?thesis using assms(4) by (intro foundI(4) [of i]) auto
      next
        case (waiter i u)
        then show ?thesis
          using assms(2) pc(5) by (cases "i = w \<and> u = rp_token rep") (auto intro: foundI(4) [of w] foundI(5) [of i _ _ u])
      next
        case (ingress i)
        then show ?thesis by (intro foundI(2) [of i]) auto
      qed (auto intro: foundI(1))
      have "carried n ?s j u" if "carried n s j u" "(j, u) \<noteq> (w, rp_token rep)" for j u
        using that(1)
      proof (cases rule: carriedE)
        case out
        then show ?thesis using pc(3) by (intro carriedI(1)) auto
      next
        case (hand x)
        then show ?thesis using pc(4) by (intro carriedI(3) [of x]) auto
      next
        case (queue x r)
        then show ?thesis using that(2) q(1) by (intro carriedI(4) [of x _ r]) auto
      next
        case (cmd x c)
        then show ?thesis by (intro carriedI(2) [of x _ c]) auto
      qed
      then show "v_waiters s j u = Some r \<and> (carried n s j u \<longrightarrow> carried n ?s j u) \<or> j < n \<and> carried n ?s j u"
        if "v_waiters ?s j u = Some r" for j u r using that by (auto split: if_splits)
    qed (use pc(1) live_invD [OF assms(1)] in simp_all)
    moreover have "v_collect n w d at fin s = ?s"
      using q by (cases "v_waiters s w (rp_token rep)") (simp_all add: v_collect_def fifo_deq_def pc_def fun_upd_idem)
    ultimately show ?thesis by simp
  qed
qed

lemma live_drain:
  assumes "live_inv n s" "v_pc s w = VIngress p"
  shows "live_inv n (v_drain w p s)"
proof (cases "v_ingress s w")
  case Nil
  then show ?thesis using live_at [OF assms(1)] assms(2) by (simp add: v_drain_def)
next
  case (Cons r rs)
  let ?s = "v_at w (VServe (r # rs)) s\<lparr>v_ingress := (v_ingress s)(w := [])\<rparr>"
  have "live_inv n ?s"
  proof (rule live_keep [OF assms(1)])
    show "found n ?s q" if "found n s q" for q using that assms(2) Cons by (fastforce simp: found_def)
    have "out_tokens (v_pc ?s j) = out_tokens (v_pc s j)" "reply_tokens i (v_pc ?s j) = reply_tokens i (v_pc s j)" for i j
      using assms(2) by simp_all
    then have "carried n ?s j u" if "carried n s j u" for j u using that by (simp add: carried_def)
    then show "v_waiters s j u = Some q \<and> (carried n s j u \<longrightarrow> carried n ?s j u) \<or> j < n \<and> carried n ?s j u"
      if "v_waiters ?s j u = Some q" for j u q using that by simp
  qed (simp_all add: live_invD [OF assms(1)])
  then show ?thesis by (simp add: v_drain_def Cons)
qed

text \<open>The worker's own requests: a new place for the served one, and possibly a new token.\<close>

lemma live_serve_at:
  assumes "live_inv n s" "w < n" "v_pc s w = VServe (r # rs)" "alive pc" "vhand pc = rs" "\<And>j. reply_tokens j pc = {}"
    "v_pc s' = (v_pc s)(w := pc)" "v_pend s' = v_pend s" "v_ingress s' = v_ingress s" "v_cmd s' = v_cmd s" "v_reply s' = v_reply s"
    "v_stop s' = v_stop s" "v_calls s' = v_calls s" "v_answer s' = v_answer s"
    "v_waiters s' = v_waiters s \<and> r \<in> fulfilling pc \<or>
     (\<exists>t. v_waiters s w t = None \<and> v_waiters s' = (v_waiters s)(w := (v_waiters s w)(t \<mapsto> r)) \<and> t \<in> out_tokens pc)"
  shows "live_inv n s'"
proof (rule live_keep [OF assms(1) assms(12) _ assms(13)])
  show "alive (v_pc s' u)" for u using live_invD(2) [OF assms(1)] assms(4,7) by simp
  have pc: "v_pc s' u = v_pc s u" if "u \<noteq> w" for u using assms(7) that by simp
  have pcw: "v_pc s' w = pc" using assms(7) by simp
  have r: "found n s' r" using assms(2,15) pcw by (auto intro: foundI(4) [of w] foundI(5) [of w])
  show "found n s' q" if "found n s q" for q
    using that
  proof (cases rule: foundE)
    case (hand i)
    then show ?thesis using assms(3,5) r pc pcw by (cases "i = w") (auto intro: foundI(3) [of i])
  next
    case (fulfill i)
    then show ?thesis using assms(3) pc by (cases "i = w") (auto intro: foundI(4) [of i])
  next
    case (waiter i u)
    then show ?thesis using assms(15) by (cases "i = w") (auto intro!: foundI(5) [of i _ _ u])
  qed (use assms(8,9) in \<open>auto intro: foundI(1,2)\<close>)
  have car: "carried n s' i u" if "carried n s i u" for i u
    using that
  proof (cases rule: carriedE)
    case out
    then show ?thesis using assms(3) pc by (cases "i = w") (auto intro: carriedI(1))
  next
    case (hand j)
    then show ?thesis using assms(3) pc by (cases "j = w") (auto intro: carriedI(3) [of j])
  qed (use assms(10,11) in \<open>auto intro: carriedI(2,4)\<close>)
  have new: "carried n s' w u" if "u \<in> out_tokens pc" for u using that pcw by (intro carriedI(1)) simp
  show "v_waiters s i u = Some q \<and> (carried n s i u \<longrightarrow> carried n s' i u) \<or> i < n \<and> carried n s' i u"
    if "v_waiters s' i u = Some q" for i u q
    using that assms(2,15) car new by (auto split: if_splits)
qed (simp_all add: assms(14))

lemma live_serve:
  assumes "live_inv n s" "service_inv n msk s" "w < n" "v_pc s w = VServe rs" "unat (v_next s w) < 2 ^ 48"
  shows "live_inv n (v_serve msk w rs s)"
proof (cases rs)
  case Nil
  then show ?thesis using live_at [OF assms(1)] assms(4) by (simp add: v_serve_def)
next
  case (Cons r rs')
  note pc = assms(4) [unfolded Cons]
  note serve = live_serve_at [OF assms(1,3) pc]
  show ?thesis
  proof (cases "c_op (v_calls s ! r)")
    case (OPut key val)
    have "r < length (v_calls s)" "c_accept (v_calls s ! r) = w" using service_invD(3) [OF assms(2), of w] pc by (simp_all add: req_ok_def)
    then have "mesh_route key msk = w" using service_invD(8) [OF assms(2), of r] OPut by (simp add: call_ok_def op_of_def)
    then show ?thesis unfolding Cons by (intro serve [of "VFulfill r None (VServe rs')"]) (simp_all add: v_serve_def OPut v_insert_def)
  next
    case (OGet key)
    show ?thesis
    proof (cases "mesh_route key msk = w")
      case True
      then show ?thesis unfolding Cons by (intro serve [of "VFulfill r (v_shard s w key) (VServe rs')"]) (simp_all add: v_serve_def OGet)
    next
      case False
      let ?t = "token_of w (v_next s w)"
      have "\<not> tok_used s w ?t" by (rule token_fresh [OF assms(5)])
      then have "v_waiters s w ?t = None" using service_invD(7) [OF assms(2), of w ?t] by (cases "v_waiters s w ?t") auto
      then have "\<exists>t. v_waiters s w t = None \<and> v_waiters (v_serve msk w (r # rs') s) = (v_waiters s)(w := (v_waiters s w)(t \<mapsto> r)) \<and>
          t \<in> out_tokens (VPush (CGet key w ?t) None rs')"
        using False by (intro exI [of _ ?t]) (simp add: v_serve_def OGet Let_def)
      then show ?thesis using False unfolding Cons
        by (intro serve [of "VPush (CGet key w ?t) None rs'"] disjI2) (simp_all add: v_serve_def OGet Let_def)
    qed
  qed
qed

lemma live_push_cmd:
  assumes "live_inv n s" "w < n" "v_pc s w = VPush c None rs" "mesh_route (cmd_key c) msk < n"
  shows "live_inv n (v_push n msk w c None rs s)"
proof (cases "length (v_cmd s (w, mesh_route (cmd_key c) msk)) < mesh_cap")
  case True
  let ?j = "mesh_route (cmd_key c) msk"
  let ?s = "v_at w (VServe rs) s\<lparr>v_cmd := (v_cmd s)((w, ?j) := v_cmd s (w, ?j) @ [c])\<rparr>"
  have "live_inv n ?s"
  proof (rule live_keep [OF assms(1)])
    show "found n ?s q" if "found n s q" for q using that assms(3) by (auto simp: found_def)
    have "carried n ?s i u" if "carried n s i u" for i u
      using that
    proof (cases rule: carriedE)
      case out
      show ?thesis
      proof (cases "i = w")
        case True
        then show ?thesis using out assms(3,4) by (intro carriedI(2) [of ?j _ c]) auto
      next
        case False
        then show ?thesis using out by (intro carriedI(1)) simp
      qed
    next
      case (cmd j d)
      then show ?thesis by (intro carriedI(2) [of j _ d]) auto
    next
      case (hand j)
      then show ?thesis using assms(3) by (intro carriedI(3) [of j]) auto
    next
      case (queue j rep)
      then show ?thesis by (intro carriedI(4) [of j _ rep]) auto
    qed
    then show "v_waiters s i u = Some q \<and> (carried n s i u \<longrightarrow> carried n ?s i u) \<or> i < n \<and> carried n ?s i u"
      if "v_waiters ?s i u = Some q" for i u q using that by simp
  qed (simp_all add: live_invD [OF assms(1)])
  then show ?thesis using True assms(4) by (simp add: v_push_def fifo_enq_def Let_def)
next
  case False
  then show ?thesis using live_at [OF assms(1)] assms(3,4) by (simp add: v_push_def fifo_enq_def Let_def)
qed

lemma live_fulfill:
  assumes "live_inv n s" "v_pc s w = VFulfill r v pc"
  shows "live_inv n (v_at w pc s\<lparr>v_answer := (v_answer s)(r \<mapsto> v)\<rparr>)" (is "live_inv n ?s")
proof (rule live_keep [OF assms(1)])
  have "alive pc" using live_invD(2) [OF assms(1), of w] assms(2) by simp
  then show "alive (v_pc ?s u)" for u using live_invD(2) [OF assms(1)] by simp
  show "found n ?s q" if "v_answer ?s q = None" "found n s q" for q
    using that(2) that(1)
  proof (cases rule: foundE)
    case (hand i)
    then show ?thesis using assms(2) by (intro foundI(3) [of i]) auto
  next
    case (fulfill i)
    then show ?thesis using assms(2) that(1) by (intro foundI(4) [of i]) (auto split: if_splits)
  next
    case (waiter i t)
    then show ?thesis by (intro foundI(5) [of i _ _ t]) auto
  next
    case (ingress i)
    then show ?thesis by (intro foundI(2) [of i]) auto
  qed (auto intro: foundI(1))
  have "out_tokens (v_pc ?s j) = out_tokens (v_pc s j)" "reply_tokens i (v_pc ?s j) = reply_tokens i (v_pc s j)" for i j
    using assms(2) by simp_all
  then have "carried n ?s j u" if "carried n s j u" for j u using that by (simp add: carried_def)
  then show "v_waiters s j u = Some q \<and> (carried n s j u \<longrightarrow> carried n ?s j u) \<or> j < n \<and> carried n ?s j u"
    if "v_waiters ?s j u = Some q" for j u q using that by simp
qed (auto split: if_splits)

lemma resume_facts: "alive (v_resume p k)" "fulfilling (v_resume p k) = {}" "out_tokens (v_resume p k) = out_k k" "reply_tokens j (v_resume p k) = {}"
  by (cases k; simp)+

lemma live_step:
  assumes "live_inv n s" "service_inv n msk s" "w < n" "\<And>k. mesh_route k msk < n" "unat (v_next s w) < 2 ^ 48"
  shows "live_inv n (service_step n msk w s)"
proof (cases "v_pc s w")
  case (VReply r i src k)
  then have "i < n" using service_invD(3) [OF assms(2), of w] by simp
  then show ?thesis using live_push_reply [OF assms(1,3) _ VReply] VReply by (simp add: service_step_def)
next
  case (VReplyDrain d r i src k)
  have "live_inv n (v_collect n w d (\<lambda>_ d. VReplyDrain d r i src k) (VReply r i src k) s)"
    by (rule live_collect [OF assms(1,3)]) (auto simp: VReplyDrain)
  then show ?thesis by (simp add: service_step_def VReplyDrain)
next
  case (VCollect p d k)
  have "live_inv n (v_collect n w d (\<lambda>b d. VCollect (p \<or> b) d k) (v_resume p k) s)"
    by (rule live_collect [OF assms(1,3)]) (auto simp: VCollect resume_facts)
  then show ?thesis by (simp add: service_step_def VCollect)
next
  case (VPush c ack rs)
  then have "ack = None" using service_invD(3) [OF assms(2), of w] by simp
  then show ?thesis using live_push_cmd [OF assms(1,3) _ assms(4)] VPush by (simp add: service_step_def)
next
  case (VStop p)
  then show ?thesis using live_at [OF assms(1)] live_invD(1) [OF assms(1)] by (simp add: service_step_def v_check_stop_def)
qed (use live_invD(2) [OF assms(1), of w] live_scan [OF assms(1-3)] live_drain [OF assms(1)] live_serve [OF assms(1-3) _ assms(5)] live_fulfill [OF assms(1)]
    in \<open>simp_all add: service_step_def\<close>)

lemma run_live:
  assumes "unat requested \<le> 2 ^ 63" "length (v_calls (service_run requested es)) < 2 ^ 48" "Stop \<notin> set es"
  shows "live_inv (unat (mesh_size requested)) (service_run requested es)"
  using assms(2,3)
proof (induction es rule: rev_induct)
  case Nil
  show ?case by (simp add: service_run_def live_inv_start)
next
  case (snoc e es)
  note size = size_routes [OF assms(1)]
  have len: "length (v_calls (service_run requested es)) < 2 ^ 48"
    using grows_length(1) [OF run_grows, of requested es "[e]"] snoc.prems(1) by linarith
  have ok: "service_ok (unat (mesh_size requested)) (mesh_size requested - 1) (service_run requested es)" by (rule run_ok [OF assms(1) len])
  then have inv: "service_inv (unat (mesh_size requested)) (mesh_size requested - 1) (service_run requested es)" by (simp add: service_ok_def)
  have next48: "unat (v_next (service_run requested es) w) < 2 ^ 48" for w by (rule next_bound [OF ok len])
  have live: "live_inv (unat (mesh_size requested)) (service_run requested es)" using snoc.IH [OF len] snoc.prems(2) by simp
  have "c_accept (v_calls (service_run requested es) ! r) < unat (mesh_size requested)" if "r \<in> set (v_pend (service_run requested es))" for r
    using service_invD(5,8) [OF inv] that by (simp add: call_ok_def)
  then show ?case unfolding run_append
    using snoc.prems(2) live live_call [OF live] live_push [OF live] live_step [OF live inv _ size(1) next48]
    by (cases e) simp_all
qed

end
