(* ===== verification/ServiceAnswers.thy ===== *)
theory ServiceAnswers
  imports ServiceProgress
begin

text \<open>
  Every request can be answered: a measure of the work ahead, that a worker on its own lowers it unless it
  has nothing to do or waits for room in a channel, and that some worker is never in that position while
  there is work.
\<close>

section \<open>The work ahead\<close>

fun push_weight :: "vcont \<Rightarrow> nat" where
  "push_weight VLoop = 0"
| "push_weight (VRetry c ack rs) = 6"

fun pc_weight :: "vpc \<Rightarrow> nat" where
  "pc_weight (VScan p src k) = push_weight k"
| "pc_weight (VReply r i src k) = 3 + push_weight k"
| "pc_weight (VReplyDrain d r i src k) = 3 + push_weight k"
| "pc_weight (VCollect p d k) = push_weight k"
| "pc_weight (VPush c ack rs) = 6"
| "pc_weight (VFulfill r v pc) = 1 + pc_weight pc"
| "pc_weight pc = 0"

definition own_work :: "service \<Rightarrow> nat \<Rightarrow> nat" where
  "own_work s i = 8 * length (v_ingress s i) + 7 * length (vhand (v_pc s i)) + pc_weight (v_pc s i)"

definition queue_work :: "service \<Rightarrow> nat \<times> nat \<Rightarrow> nat" where
  "queue_work s q = 4 * length (v_cmd s q) + 2 * length (v_reply s q)"

definition ahead :: "nat \<Rightarrow> service \<Rightarrow> nat" where
  "ahead n s = 9 * length (v_pend s) + tally n (own_work s) id + (\<Sum>q \<in> {..<n} \<times> {..<n}. queue_work s q)"

lemma sum_upd:
  fixes f g :: "'x \<Rightarrow> nat"
  assumes "finite A" "a \<in> A" "\<And>x. x \<noteq> a \<Longrightarrow> f x = g x"
  shows "sum f A + g a = sum g A + f a"
proof -
  have "sum f (A - {a}) = sum g (A - {a})" using assms(3) by (intro sum.cong) auto
  then show ?thesis using sum.remove [OF assms(1,2), of f] sum.remove [OF assms(1,2), of g] by simp
qed

text \<open>A step of worker \<open>w\<close> that touches its own work and one channel.\<close>

lemma ahead_less:
  assumes "w < n" "q \<in> {..<n} \<times> {..<n}" "v_pend s' = v_pend s" "\<And>i. i \<noteq> w \<Longrightarrow> own_work s' i = own_work s i"
    "\<And>x. x \<noteq> q \<Longrightarrow> queue_work s' x = queue_work s x" "own_work s' w + queue_work s' q < own_work s w + queue_work s q"
  shows "ahead n s' < ahead n s"
proof -
  have "tally n (own_work s') id + own_work s w = tally n (own_work s) id + own_work s' w"
    unfolding tally_def id_def using assms(1,4) by (intro sum_upd) auto
  moreover have "(\<Sum>q \<in> {..<n} \<times> {..<n}. queue_work s' q) + queue_work s q = (\<Sum>q \<in> {..<n} \<times> {..<n}. queue_work s q) + queue_work s' q"
    using assms(2,5) by (intro sum_upd) auto
  ultimately show ?thesis using assms(3,6) by (simp add: ahead_def)
qed

section \<open>Steps that do work\<close>

lemma less_scan:
  assumes "w < n" "v_pc s w = VScan p src k" "src < n" "v_cmd s (src, w) \<noteq> []"
  shows "ahead n (service_step n msk w s) < ahead n s"
proof -
  obtain c q where q: "v_cmd s (src, w) = c # q" using assms(4) by (cases "v_cmd s (src, w)") auto
  show ?thesis using assms(1-3) q
    by (intro ahead_less [OF assms(1), of "(src, w)"])
      (simp_all add: service_step_def v_scan_def fifo_deq_def v_insert_def own_work_def queue_work_def split: command.split)
qed

lemma less_reply:
  assumes "w < n" "v_pc s w = VReply r i src k" "i < n" "length (v_reply s (w, i)) < mesh_cap"
  shows "ahead n (service_step n msk w s) < ahead n s"
  using assms by (intro ahead_less [OF assms(1), of "(w, i)"])
    (simp_all add: service_step_def v_push_reply_def fifo_enq_def own_work_def queue_work_def)

lemma less_collect:
  assumes "w < n" "v_pc s w = VCollect p d k \<or> v_pc s w = VReplyDrain d r i src k" "d < n" "v_reply s (d, w) \<noteq> []"
  shows "ahead n (service_step n msk w s) < ahead n s"
proof -
  obtain rep q where q: "v_reply s (d, w) = rep # q" using assms(4) by (cases "v_reply s (d, w)") auto
  show ?thesis using assms(1-3) q
    by (intro ahead_less [OF assms(1), of "(d, w)"]; cases "v_waiters s w (rp_token rep)")
      (auto simp: service_step_def v_collect_def fifo_deq_def own_work_def queue_work_def split: if_splits)
qed

lemma less_ingress:
  assumes "w < n" "v_pc s w = VIngress p" "v_ingress s w \<noteq> []"
  shows "ahead n (service_step n msk w s) < ahead n s"
proof -
  obtain r rs where "v_ingress s w = r # rs" using assms(3) by (cases "v_ingress s w") auto
  then show ?thesis using assms(1,2) by (intro ahead_less [OF assms(1), of "(w, w)"])
    (simp_all add: service_step_def v_drain_def own_work_def queue_work_def)
qed

lemma less_serve:
  assumes "w < n" "v_pc s w = VServe (r # rs)"
  shows "ahead n (service_step n msk w s) < ahead n s"
  using assms by (intro ahead_less [OF assms(1), of "(w, w)"]; cases "c_op (v_calls s ! r)")
    (simp_all add: service_step_def v_serve_def v_insert_def own_work_def queue_work_def Let_def)

lemma less_fulfill:
  assumes "w < n" "v_pc s w = VFulfill r v pc"
  shows "ahead n (service_step n msk w s) < ahead n s"
  using assms by (intro ahead_less [OF assms(1), of "(w, w)"]) (simp_all add: service_step_def own_work_def queue_work_def)

lemma less_push:
  assumes "w < n" "v_pc s w = VPush c ack rs" "mesh_route (cmd_key c) msk = j" "j < n" "length (v_cmd s (w, j)) < mesh_cap"
  shows "ahead n (service_step n msk w s) < ahead n s"
  using assms by (intro ahead_less [OF assms(1), of "(w, j)"])
    (auto simp: service_step_def v_push_def fifo_enq_def own_work_def queue_work_def Let_def split: option.split if_splits)

lemma less_submit:
  assumes "i < length (v_pend s)" "c_accept (v_calls s ! (v_pend s ! i)) < n"
  shows "ahead n (submit_push i s) < ahead n s"
proof -
  let ?a = "c_accept (v_calls s ! (v_pend s ! i))"
  have "tally n (own_work (submit_push i s)) id + own_work s ?a = tally n (own_work s) id + own_work (submit_push i s) ?a"
    unfolding tally_def id_def using assms by (intro sum_upd) (auto simp: submit_push_def Let_def own_work_def)
  moreover have "queue_work (submit_push i s) = queue_work s" using assms(1) by (simp add: fun_eq_iff submit_push_def Let_def queue_work_def)
  ultimately show ?thesis using assms(1) by (simp add: ahead_def) (simp add: submit_push_def Let_def own_work_def)
qed

section \<open>A worker on its own\<close>

text \<open>\<open>w\<close> comes to \<open>pc\<close> by itself while nothing else changes; \<open>w\<close> does some work by itself.\<close>

definition moves :: "nat \<Rightarrow> u64 \<Rightarrow> nat \<Rightarrow> service \<Rightarrow> vpc \<Rightarrow> bool" where
  "moves n msk w s pc \<longleftrightarrow> (\<exists>m. (service_step n msk w ^^ m) s = v_at w pc s) \<and>
     vhand pc = vhand (v_pc s w) \<and> pc_weight pc = pc_weight (v_pc s w)"

definition advances :: "nat \<Rightarrow> u64 \<Rightarrow> nat \<Rightarrow> service \<Rightarrow> bool" where
  "advances n msk w s \<longleftrightarrow> (\<exists>m. ahead n ((service_step n msk w ^^ m) s) < ahead n s)"

lemma moves_refl: "moves n msk w s (v_pc s w)"
  unfolding moves_def by (intro conjI exI [of _ 0]) (simp_all add: fun_upd_idem)

lemma moves_step:
  assumes "moves n msk w s pc" "service_step n msk w (v_at w pc s) = v_at w pc' s" "vhand pc' = vhand pc" "pc_weight pc' = pc_weight pc"
  shows "moves n msk w s pc'"
proof -
  obtain m where "(service_step n msk w ^^ m) s = v_at w pc s" using assms(1) by (auto simp: moves_def)
  then have "(service_step n msk w ^^ Suc m) s = v_at w pc' s" using assms(2) by simp
  then show ?thesis using assms(1,3,4) unfolding moves_def by metis
qed

lemma ahead_at: "moves n msk w s pc \<Longrightarrow> ahead n (v_at w pc s) = ahead n s"
proof -
  assume "moves n msk w s pc"
  then have "own_work (v_at w pc s) = own_work s" "queue_work (v_at w pc s) = queue_work s"
    by (auto simp: moves_def own_work_def queue_work_def fun_eq_iff)
  then show ?thesis by (simp add: ahead_def)
qed

lemma advancesI:
  assumes "moves n msk w s pc" "ahead n (service_step n msk w (v_at w pc s)) < ahead n (v_at w pc s)"
  shows "advances n msk w s"
proof -
  obtain m where "(service_step n msk w ^^ m) s = v_at w pc s" using assms(1) by (auto simp: moves_def)
  then have "ahead n ((service_step n msk w ^^ Suc m) s) < ahead n s" using assms(2) ahead_at [OF assms(1)] by simp
  then show ?thesis unfolding advances_def by blast
qed

text \<open>A worker that does no work passes all inboxes and finds them empty.\<close>

lemma pass_scan:
  assumes "w < n" "\<not> advances n msk w s" "moves n msk w s (VScan p src k)"
  shows "moves n msk w s (VCollect p 0 k) \<and> (\<forall>i. src \<le> i \<and> i < n \<longrightarrow> v_cmd s (i, w) = [])"
  using assms(3)
proof (induction "n - src" arbitrary: src)
  case 0
  then have "moves n msk w s (VCollect p 0 k)" by (intro moves_step [OF 0(2)]) (simp_all add: service_step_def v_scan_def)
  then show ?case using 0 by auto
next
  case (Suc x)
  have e: "v_cmd s (src, w) = []"
  proof (rule ccontr)
    assume "v_cmd s (src, w) \<noteq> []"
    then show False using assms(2) advancesI [OF Suc.prems less_scan [OF assms(1)]] Suc.hyps(2) by simp
  qed
  then have "moves n msk w s (VScan p (src + 1) k)"
    using Suc.hyps(2) by (intro moves_step [OF Suc.prems]) (simp_all add: service_step_def v_scan_def fifo_deq_def)
  moreover have "x = n - (src + 1)" using Suc.hyps(2) by simp
  ultimately have "moves n msk w s (VCollect p 0 k) \<and> (\<forall>i. src + 1 \<le> i \<and> i < n \<longrightarrow> v_cmd s (i, w) = [])" using Suc.hyps(1) by blast
  then show ?case using e by (metis Suc_eq_plus1 Suc_leI le_neq_implies_less)
qed

lemma pass_collect:
  assumes "w < n" "\<not> advances n msk w s" "moves n msk w s (VCollect p d k)"
  shows "moves n msk w s (v_resume p k) \<and> (\<forall>i. d \<le> i \<and> i < n \<longrightarrow> v_reply s (i, w) = [])"
  using assms(3)
proof (induction "n - d" arbitrary: d)
  case 0
  have "vhand (v_resume p k) = vhand (VCollect p d k)" "pc_weight (v_resume p k) = pc_weight (VCollect p d k)" by (cases k; simp)+
  then have "moves n msk w s (v_resume p k)" using 0(1) by (intro moves_step [OF 0(2)]) (simp_all add: service_step_def v_collect_def)
  then show ?case using 0 by auto
next
  case (Suc x)
  have e: "v_reply s (d, w) = []"
  proof (rule ccontr)
    assume "v_reply s (d, w) \<noteq> []"
    then show False using assms(2) advancesI [OF Suc.prems less_collect [OF assms(1)]] Suc.hyps(2) by simp
  qed
  then have "moves n msk w s (VCollect p (d + 1) k)"
    using Suc.hyps(2) by (intro moves_step [OF Suc.prems]) (simp_all add: service_step_def v_collect_def fifo_deq_def)
  moreover have "x = n - (d + 1)" using Suc.hyps(2) by simp
  ultimately have "moves n msk w s (v_resume p k) \<and> (\<forall>i. d + 1 \<le> i \<and> i < n \<longrightarrow> v_reply s (i, w) = [])" using Suc.hyps(1) by blast
  then show ?case using e by (metis Suc_eq_plus1 Suc_leI le_neq_implies_less)
qed

lemma pass_reply_drain:
  assumes "w < n" "\<not> advances n msk w s" "moves n msk w s (VReplyDrain d r j src k)"
  shows "moves n msk w s (VReply r j src k) \<and> (\<forall>i. d \<le> i \<and> i < n \<longrightarrow> v_reply s (i, w) = [])"
  using assms(3)
proof (induction "n - d" arbitrary: d)
  case 0
  then have "moves n msk w s (VReply r j src k)" by (intro moves_step [OF 0(2)]) (simp_all add: service_step_def v_collect_def)
  then show ?case using 0 by auto
next
  case (Suc x)
  have e: "v_reply s (d, w) = []"
  proof (rule ccontr)
    assume "v_reply s (d, w) \<noteq> []"
    then show False using assms(2) advancesI [OF Suc.prems less_collect [OF assms(1)]] Suc.hyps(2) by simp
  qed
  then have "moves n msk w s (VReplyDrain (d + 1) r j src k)"
    using Suc.hyps(2) by (intro moves_step [OF Suc.prems]) (simp_all add: service_step_def v_collect_def fifo_deq_def)
  moreover have "x = n - (d + 1)" using Suc.hyps(2) by simp
  ultimately have "moves n msk w s (VReply r j src k) \<and> (\<forall>i. d + 1 \<le> i \<and> i < n \<longrightarrow> v_reply s (i, w) = [])" using Suc.hyps(1) by blast
  then show ?case using e by (metis Suc_eq_plus1 Suc_leI le_neq_implies_less)
qed

text \<open>It comes back to the first inbox, unless it has a reply to push.\<close>

fun replying :: "vpc \<Rightarrow> bool" where
  "replying (VReply r i src k) \<longleftrightarrow> True"
| "replying (VReplyDrain d r i src k) \<longleftrightarrow> True"
| "replying pc \<longleftrightarrow> False"

lemma pass_stop: "\<not> v_stop s \<Longrightarrow> moves n msk w s (VStop p) \<Longrightarrow> moves n msk w s (VScan False 0 VLoop)"
  by (erule moves_step) (simp_all add: service_step_def v_check_stop_def)

lemma pass_resume:
  assumes "w < n" "\<not> advances n msk w s" "\<not> v_stop s" "\<And>k. mesh_route k msk < n" "moves n msk w s (v_resume p k)"
  shows "\<exists>p'. moves n msk w s (VScan p' 0 k)"
proof (cases k)
  case VLoop
  then have m: "moves n msk w s (VIngress p)" using assms(5) by simp
  have "v_ingress s w = []"
  proof (rule ccontr)
    assume "v_ingress s w \<noteq> []"
    then show False using assms(2) advancesI [OF m less_ingress [OF assms(1)]] by simp
  qed
  then have "moves n msk w s (VStop p)" by (intro moves_step [OF m]) (simp_all add: service_step_def v_drain_def)
  then show ?thesis using pass_stop [OF assms(3)] VLoop by blast
next
  case (VRetry c ack rs)
  then have m: "moves n msk w s (VPush c ack rs)" using assms(5) by simp
  have "\<not> length (v_cmd s (w, mesh_route (cmd_key c) msk)) < mesh_cap"
  proof
    assume "length (v_cmd s (w, mesh_route (cmd_key c) msk)) < mesh_cap"
    then show False using assms(2,4) advancesI [OF m less_push [OF assms(1)]] by simp
  qed
  then have "moves n msk w s (VScan False 0 (VRetry c ack rs))" using assms(4) [of "cmd_key c"]
    by (intro moves_step [OF m]) (simp_all add: service_step_def v_push_def fifo_enq_def Let_def)
  then show ?thesis using VRetry by blast
qed

lemma pass_loop:
  assumes "w < n" "\<not> advances n msk w s" "\<not> v_stop s" "\<And>k. mesh_route k msk < n" "alive (v_pc s w)" "\<not> replying (v_pc s w)"
  shows "\<exists>p k. moves n msk w s (VScan p 0 k)"
proof -
  note start = moves_refl [of n msk w s]
  note resume = pass_resume [OF assms(1-4)] and collect = pass_collect [OF assms(1,2)] and stop = pass_stop [OF assms(3)]
  show ?thesis
  proof (cases "v_pc s w")
    case (VScan p src k)
    then show ?thesis using start pass_scan [OF assms(1,2), of p src k] collect [of p 0 k] resume [of p k] by auto
  next
    case (VCollect p d k)
    then show ?thesis using start collect [of p d k] resume [of p k] by auto
  next
    case (VIngress p)
    then show ?thesis using start resume [of p VLoop] by auto
  next
    case (VServe rs)
    show ?thesis
    proof (cases rs)
      case Nil
      have "moves n msk w s (VStop True)" using VServe Nil by (intro moves_step [OF start]) (simp_all add: service_step_def v_serve_def)
      then show ?thesis using stop by blast
    next
      case (Cons r rs')
      have "advances n msk w s" using advancesI [OF start] less_serve [OF assms(1), of s r rs'] VServe Cons by (simp add: fun_upd_idem)
      then show ?thesis using assms(2) by blast
    qed
  next
    case (VPush c ack rs)
    then show ?thesis using start resume [of False "VRetry c ack rs"] by auto
  next
    case (VFulfill r v pc)
    have "advances n msk w s" using advancesI [OF start] less_fulfill [OF assms(1) VFulfill] by (simp add: fun_upd_idem)
    then show ?thesis using assms(2) by blast
  next
    case (VStop p)
    then show ?thesis using start stop [of n msk w p] by auto
  qed (use assms(5,6) in simp_all)
qed

text \<open>Otherwise the channel for the reply is full, and there are no replies for the worker itself.\<close>

lemma pass_reply:
  assumes "w < n" "\<not> advances n msk w s" "vpc_ok n msk s w (v_pc s w)" "replying (v_pc s w)"
  shows "\<exists>j < n. v_reply s (w, j) \<noteq> [] \<and> (\<forall>i < n. v_reply s (i, w) = [])"
proof -
  note start = moves_refl [of n msk w s]
  obtain r j src k where m: "moves n msk w s (VReply r j src k)" "j < n"
  proof (cases "v_pc s w")
    case (VReply r j src k)
    then show ?thesis using that start assms(3) by auto
  next
    case (VReplyDrain d r j src k)
    then show ?thesis using that start assms(3) pass_reply_drain [OF assms(1,2), of d r j src k] by auto
  qed (use assms(4) in simp_all)
  have full: "\<not> length (v_reply s (w, j)) < mesh_cap"
  proof
    assume "length (v_reply s (w, j)) < mesh_cap"
    then show False using assms(2) m(2) advancesI [OF m(1) less_reply [OF assms(1)]] by simp
  qed
  then have "moves n msk w s (VReplyDrain 0 r j src k)" using m(2)
    by (intro moves_step [OF m(1)]) (simp_all add: service_step_def v_push_reply_def fifo_enq_def)
  then have "\<forall>i < n. v_reply s (i, w) = []" using pass_reply_drain [OF assms(1,2)] by blast
  moreover have "v_reply s (w, j) \<noteq> []" using full by (auto simp: mesh_cap_def)
  ultimately show ?thesis using m(2) by blast
qed

section \<open>Some worker advances\<close>

lemma advance_replies:
  assumes "live_inv n s" "service_inv n msk s" "\<And>k. mesh_route k msk < n" "w < n" "d < n" "v_reply s (d, w) \<noteq> []"
  shows "advances n msk w s"
proof (rule ccontr)
  assume na: "\<not> advances n msk w s"
  show False
  proof (cases "replying (v_pc s w)")
    case True
    then show ?thesis using pass_reply [OF assms(4) na service_invD(3) [OF assms(2)]] assms(5,6) by blast
  next
    case False
    then obtain p k where "moves n msk w s (VScan p 0 k)"
      using pass_loop [OF assms(4) na live_invD(1) [OF assms(1)] assms(3) live_invD(2) [OF assms(1)]] by blast
    then show ?thesis using pass_scan [OF assms(4) na] pass_collect [OF assms(4) na] assms(5,6) by blast
  qed
qed

lemma advance_commands:
  assumes "live_inv n s" "service_inv n msk s" "\<And>k. mesh_route k msk < n" "w < n" "i < n" "v_cmd s (i, w) \<noteq> []"
  shows "\<exists>u < n. advances n msk u s"
proof (rule ccontr)
  assume na: "\<not> (\<exists>u < n. advances n msk u s)"
  then have nw: "\<not> advances n msk w s" using assms(4) by blast
  show False
  proof (cases "replying (v_pc s w)")
    case True
    then obtain j where "j < n" "v_reply s (w, j) \<noteq> []" using pass_reply [OF assms(4) nw service_invD(3) [OF assms(2)]] by blast
    then show ?thesis using advance_replies [OF assms(1-3) _ assms(4)] na by blast
  next
    case False
    then obtain p k where "moves n msk w s (VScan p 0 k)"
      using pass_loop [OF assms(4) nw live_invD(1) [OF assms(1)] assms(3) live_invD(2) [OF assms(1)]] by blast
    then show ?thesis using pass_scan [OF assms(4) nw] assms(5,6) by blast
  qed
qed

lemma advance_own:
  assumes "live_inv n s" "service_inv n msk s" "\<And>k. mesh_route k msk < n" "w < n" "own_work s w \<noteq> 0"
    "\<forall>i < n. \<forall>j < n. v_cmd s (i, j) = [] \<and> v_reply s (i, j) = []"
  shows "advances n msk w s"
proof (rule ccontr)
  assume na: "\<not> advances n msk w s"
  have "\<not> replying (v_pc s w)" using pass_reply [OF assms(4) na service_invD(3) [OF assms(2)]] assms(4,6) by blast
  then obtain p k where m: "moves n msk w s (VScan p 0 k)"
    using pass_loop [OF assms(4) na live_invD(1) [OF assms(1)] assms(3) live_invD(2) [OF assms(1)]] by blast
  then have r: "moves n msk w s (v_resume p k)" using pass_scan [OF assms(4) na] pass_collect [OF assms(4) na] by blast
  show False
  proof (cases k)
    case VLoop
    then have "v_ingress s w \<noteq> []" using m assms(5) by (auto simp: moves_def own_work_def)
    moreover have "moves n msk w s (VIngress p)" using r VLoop by simp
    ultimately show ?thesis using na advancesI [OF _ less_ingress [OF assms(4)]] by fastforce
  next
    case (VRetry c ack rs)
    then have v: "moves n msk w s (VPush c ack rs)" using r by simp
    have "length (v_cmd s (w, mesh_route (cmd_key c) msk)) < mesh_cap" using assms(3,4,6) by (simp add: mesh_cap_def)
    then show ?thesis using na advancesI [OF v less_push [OF assms(4)]] assms(3) by simp
  qed
qed

section \<open>Properties\<close>

text \<open>Events by which clients finish their calls and workers step.\<close>

fun going_on :: "event \<Rightarrow> bool" where
  "going_on (Push i) \<longleftrightarrow> True"
| "going_on (Work w) \<longleftrightarrow> True"
| "going_on e \<longleftrightarrow> False"

lemma run_work: "w < unat (mesh_size requested) \<Longrightarrow> service_run requested (es @ replicate m (Work w)) =
    (service_step (unat (mesh_size requested)) (mesh_size requested - 1) w ^^ m) (service_run requested es)"
proof (induction m)
  case (Suc m)
  have "es @ replicate (Suc m) (Work w) = (es @ replicate m (Work w)) @ [Work w]" by (simp add: replicate_append_same)
  then show ?case using Suc by (simp only: run_append) simp
qed simp

lemma going_on_calls: "list_all going_on es' \<Longrightarrow> v_calls (service_run requested (es @ es')) = v_calls (service_run requested es)"
proof (induction es' rule: rev_induct)
  case (snoc e es')
  have "v_calls (service_run requested ((es @ es') @ [e])) = v_calls (service_run requested (es @ es'))"
    using snoc.prems unfolding run_append by (cases e) (simp_all add: submit_push_def step_calls Let_def)
  then show ?case using snoc by simp
qed simp

lemma some_advance:
  assumes "unat requested \<le> 2 ^ 63" "length (v_calls (service_run requested es)) < 2 ^ 48" "Stop \<notin> set es"
    "ahead (unat (mesh_size requested)) (service_run requested es) \<noteq> 0"
  shows "\<exists>es'. list_all going_on es' \<and>
    ahead (unat (mesh_size requested)) (service_run requested (es @ es')) < ahead (unat (mesh_size requested)) (service_run requested es)"
proof -
  define n msk s where "n = unat (mesh_size requested)" and "msk = mesh_size requested - 1" and "s = service_run requested es"
  have live: "live_inv n s" using run_live [OF assms(1-3)] by (simp add: n_def s_def)
  have inv: "service_inv n msk s" using run_ok [OF assms(1,2)] by (simp add: service_ok_def n_def msk_def s_def)
  have size: "mesh_route k msk < n" for k using size_routes(1) [OF assms(1)] by (simp add: n_def msk_def)
  have solo: ?thesis if w: "w < n" "advances n msk w s" for w
  proof -
    obtain m where "ahead n ((service_step n msk w ^^ m) s) < ahead n s" using w(2) unfolding advances_def by blast
    then show ?thesis using run_work [of w requested es m] w(1)
      by (intro exI [of _ "replicate m (Work w)"]) (simp add: n_def msk_def s_def list_all_iff)
  qed
  show ?thesis
  proof (cases "v_pend s = []")
    case False
    then have "c_accept (v_calls s ! (v_pend s ! 0)) < n" using service_invD(5,8) [OF inv] by (simp add: call_ok_def)
    then have "ahead n (submit_push 0 s) < ahead n s" using less_submit [of 0 s n] False by simp
    then show ?thesis using run_append [of requested es "Push 0"] by (intro exI [of _ "[Push 0]"]) (simp add: n_def s_def)
  next
    case pend: True
    show ?thesis
    proof (cases "\<forall>i < n. \<forall>j < n. v_cmd s (i, j) = [] \<and> v_reply s (i, j) = []")
      case True
      then have "queue_work s q = 0" if "q \<in> {..<n} \<times> {..<n}" for q using that by (auto simp: queue_work_def)
      then have "tally n (own_work s) id \<noteq> 0" using assms(4) pend by (simp add: ahead_def n_def s_def)
      then obtain w where "w < n" "own_work s w \<noteq> 0" by (auto simp: tally_def)
      then show ?thesis using advance_own [OF live inv size _ _ True] solo by blast
    next
      case False
      then show ?thesis using advance_replies [OF live inv size] advance_commands [OF live inv size] solo by blast
    qed
  qed
qed

lemma comes_to_rest:
  assumes "unat requested \<le> 2 ^ 63" "length (v_calls (service_run requested es)) < 2 ^ 48" "Stop \<notin> set es"
  shows "\<exists>es'. list_all going_on es' \<and> ahead (unat (mesh_size requested)) (service_run requested (es @ es')) = 0"
  using assms(2,3)
proof (induction "ahead (unat (mesh_size requested)) (service_run requested es)" arbitrary: es rule: less_induct)
  case less
  show ?case
  proof (cases "ahead (unat (mesh_size requested)) (service_run requested es) = 0")
    case True
    then show ?thesis by (intro exI [of _ "[]"]) simp
  next
    case False
    then obtain es1 where e: "list_all going_on es1" "ahead (unat (mesh_size requested)) (service_run requested (es @ es1)) <
        ahead (unat (mesh_size requested)) (service_run requested es)" using some_advance [OF assms(1) less.prems] by blast
    have "Stop \<notin> set (es @ es1)" using e(1) less.prems(2) by (auto simp: list_all_iff)
    then obtain es2 where "list_all going_on es2" "ahead (unat (mesh_size requested)) (service_run requested ((es @ es1) @ es2)) = 0"
      using less.hyps [OF e(2)] less.prems(1) going_on_calls [OF e(1), of requested es] by auto
    then show ?thesis using e(1) by (intro exI [of _ "es1 @ es2"]) simp
  qed
qed

lemma at_rest:
  assumes "ahead n s = 0" "live_inv n s" "r < length (v_calls s)"
  shows "v_answer s r \<noteq> None"
proof
  assume "v_answer s r = None"
  then have f: "found n s r" using live_invD(3) [OF assms(2,3)] by blast
  have own: "v_pend s = []" "\<And>i. i < n \<Longrightarrow> own_work s i = 0" and que: "\<And>i j. i < n \<Longrightarrow> j < n \<Longrightarrow> queue_work s (i, j) = 0"
    using assms(1) by (auto simp: ahead_def tally_def)
  have k: "push_weight k = 0 \<Longrightarrow> out_k k = {}" for k by (cases k) simp_all
  have pc: "fulfilling (v_pc s i) = {} \<and> out_tokens (v_pc s i) = {} \<and> reply_tokens j (v_pc s i) = {}" if "i < n" for i j
    using own(2) [OF that] k by (cases "v_pc s i") (auto simp: own_work_def)
  have "\<not> carried n s i t" if "i < n" for i t
  proof
    assume "carried n s i t"
    then show False by (cases rule: carriedE) (use pc que that in \<open>auto simp: queue_work_def\<close>)
  qed
  then have w: "v_waiters s i t \<noteq> Some r" if "i < n" for i t using live_invD(4) [OF assms(2)] that by blast
  from f show False by (cases rule: foundE) (use own pc w in \<open>auto simp: own_work_def\<close>)
qed

text \<open>C11: The service cannot get stuck, as long as it is not shut down: whatever clients and workers have done so far, and
  however full the channels are, some continuation, in which clients push the requests they have begun and workers
  step, answers all of them.\<close>

theorem service_answers_all:
  assumes "unat requested \<le> 2 ^ 63" "length (v_calls (service_run requested es)) < 2 ^ 48" "Stop \<notin> set es"
  shows "\<exists>es'. list_all going_on es' \<and> (\<forall>r < length (v_calls (service_run requested es)). v_answer (service_run requested (es @ es')) r \<noteq> None)"
proof -
  obtain es' where e: "list_all going_on es'" "ahead (unat (mesh_size requested)) (service_run requested (es @ es')) = 0"
    using comes_to_rest [OF assms] by blast
  have c: "v_calls (service_run requested (es @ es')) = v_calls (service_run requested es)" by (rule going_on_calls [OF e(1)])
  have "Stop \<notin> set (es @ es')" using e(1) assms(3) by (auto simp: list_all_iff)
  then have "live_inv (unat (mesh_size requested)) (service_run requested (es @ es'))" using run_live [OF assms(1)] assms(2) c by simp
  then show ?thesis using e at_rest c by auto
qed

theorem service_answers_all_witness:
  "\<exists>es'. v_answer (service_run 2 ([Call (ARoundRobin []), Push 0, Work 0] @ es')) 0 \<noteq> None"
proof -
  have c: "v_calls (service_run 2 [Call (ARoundRobin []), Push 0, Work 0]) = [\<lparr>c_op = OGet [], c_accept = 0, c_start = 0\<rparr>]"
    by (simp add: run_eval)
  show ?thesis using service_answers_all [of 2 "[Call (ARoundRobin []), Push 0, Work 0]"] unfolding c by auto
qed

end
