(* ===== verification/ServiceShutdown.thy ===== *)
theory ServiceShutdown
  imports ServiceRuns
begin

text \<open>
  The end of the mesh service.  A worker leaves \<open>service_loop\<close> when it has nothing to do itself; another
  worker may forward a request to it afterwards, and then waits for a reply that never comes.
\<close>

section \<open>A worker that waits for one that has left\<close>

text \<open>
  Two workers.  Worker 1 has left, worker 0 waits for its reply to request 0, and nothing worker 0 can
  still do answers that request.
\<close>

fun kept_k :: "vcont \<Rightarrow> bool" where
  "kept_k VLoop \<longleftrightarrow> True"
| "kept_k (VRetry c ack rs) \<longleftrightarrow> mesh_route (cmd_key c) 1 \<noteq> 0 \<and> ack \<noteq> Some 0 \<and> 0 \<notin> set rs"

fun kept :: "vpc \<Rightarrow> bool" where
  "kept (VScan p src k) \<longleftrightarrow> kept_k k"
| "kept (VCollect p d k) \<longleftrightarrow> kept_k k"
| "kept (VIngress p) \<longleftrightarrow> True"
| "kept (VServe rs) \<longleftrightarrow> 0 \<notin> set rs"
| "kept (VPush c ack rs) \<longleftrightarrow> kept_k (VRetry c ack rs)"
| "kept (VFulfill r v pc) \<longleftrightarrow> r \<noteq> 0 \<and> kept pc"
| "kept (VStop p) \<longleftrightarrow> True"
| "kept pc \<longleftrightarrow> False"

definition deserted :: "service \<Rightarrow> bool" where
  "deserted s \<longleftrightarrow> v_pc s 1 = VExit \<and> kept (v_pc s 0) \<and> v_waiters s 0 \<noteq> Map.empty \<and> v_answer s 0 = None \<and>
     v_cmd s (0, 0) = [] \<and> v_cmd s (1, 0) = [] \<and> v_reply s (0, 0) = [] \<and> v_reply s (1, 0) = [] \<and>
     v_calls s \<noteq> [] \<and> 0 \<notin> set (v_pend s) \<and> 0 \<notin> set (v_ingress s 0)"

lemma route_two: "mesh_route k 1 < 2"
  using size_routes(1) [of 2 k] by (simp add: size_two)

lemma kept_resume: "kept_k k \<Longrightarrow> kept (v_resume p k)"
  by (cases k) simp_all

lemma deserted_at: "deserted s \<Longrightarrow> kept pc \<Longrightarrow> deserted (v_at 0 pc s)"
  by (simp add: deserted_def)

lemma deserted_inbox:
  assumes "deserted s" "src < 2"
  shows "v_cmd s (src, 0) = []" "v_reply s (src, 0) = []"
  using assms by (auto simp: deserted_def less_2_cases_iff)

lemma deserted_scan:
  assumes "deserted s" "kept_k k"
  shows "deserted (v_scan 2 0 p src k s)"
  using deserted_at [OF assms(1)] assms(2) deserted_inbox(1) [OF assms(1)] by (simp add: v_scan_def fifo_deq_def)

lemma deserted_collect:
  assumes "deserted s" "kept_k k"
  shows "deserted (v_collect 2 0 d (\<lambda>b d. VCollect (p \<or> b) d k) (v_resume p k) s)"
  using deserted_at [OF assms(1)] kept_resume assms(2) deserted_inbox(2) [OF assms(1)] by (simp add: v_collect_def fifo_deq_def)

lemma deserted_serve:
  assumes "deserted s" "0 \<notin> set rs"
  shows "deserted (v_serve 1 0 rs s)"
  using assms deserted_at [OF assms(1)]
  by (auto simp: v_serve_def v_insert_def deserted_def Let_def split: list.split client_op.split)

lemma deserted_push:
  assumes "deserted s" "kept_k (VRetry c ack rs)"
  shows "deserted (v_push 2 1 0 c ack rs s)"
proof -
  have "mesh_route (cmd_key c) 1 = 1" using route_two [of "cmd_key c"] assms(2) by auto
  then show ?thesis using assms by (auto simp: v_push_def fifo_enq_def deserted_def split: option.split)
qed

lemma deserted_step:
  assumes "deserted s"
  shows "deserted (service_step 2 1 0 s)"
proof (cases "v_pc s 0")
  case (VIngress p)
  then show ?thesis using assms by (auto simp: service_step_def v_drain_def deserted_def split: list.split)
next
  case (VFulfill r v pc)
  then show ?thesis using assms by (simp add: service_step_def deserted_def)
next
  case (VStop p)
  then show ?thesis using assms by (simp add: service_step_def v_check_stop_def deserted_def)
qed (use assms in \<open>simp_all add: service_step_def deserted_scan deserted_collect deserted_serve deserted_push deserted_def [of s]\<close>)

lemma deserted_event:
  assumes "deserted s"
  shows "deserted (service_event 2 1 e s)"
proof (cases e)
  case (Call a)
  then show ?thesis using assms by (auto simp: deserted_def begin_call_def split: prod.split)
next
  case (Push i)
  have "v_pend s ! i \<noteq> 0" if "i < length (v_pend s)" using assms nth_mem [OF that] by (auto simp: deserted_def)
  then show ?thesis using assms Push by (auto simp: deserted_def submit_push_def Let_def dest: in_set_takeD in_set_dropD)
next
  case Stop
  then show ?thesis using assms by (simp add: deserted_def)
next
  case (Work w)
  then consider "w = 0" | "w = 1" | "2 \<le> w" by linarith
  then show ?thesis
  proof cases
    case 2
    then show ?thesis using assms Work by (simp add: service_step_def deserted_def)
  qed (use assms Work deserted_step in simp_all)
qed

lemma deserted_run: "deserted s \<Longrightarrow> deserted (foldl (\<lambda>s e. service_event 2 1 e s) s es)"
  by (induction es arbitrary: s) (simp_all add: deserted_event)

section \<open>Properties\<close>

text \<open>A request is published at worker 0, then \<open>shutdown\<close> stores its flag, and worker 1 leaves before worker 0 forwards the request.\<close>

definition shutdown_race :: "event list" where
  "shutdown_race = [Call (ARoundRobin []), Push 0, Stop,
     Work 1, Work 1, Work 1, Work 1, Work 1, Work 1, Work 1, Work 1, Work 1,
     Work 0, Work 0, Work 0, Work 0, Work 0, Work 0, Work 0, Work 0, Work 0]"

text \<open>C12: \<open>shutdown\<close> can wait for ever: after this run of two workers, in which the only request was published
  before the flag was stored, worker 0 never leaves its loop and the request is never answered,
  whatever clients and workers do.\<close>

theorem shutdown_hangs:
  "v_pc (service_run 2 (shutdown_race @ es)) 0 \<noteq> VExit \<and> v_answer (service_run 2 (shutdown_race @ es)) 0 = None"
proof -
  have "deserted (service_run 2 shutdown_race)"
    by (simp add: shutdown_race_def run_eval deserted_def)
  then have "deserted (service_run 2 (shutdown_race @ es))"
    using deserted_run [of "service_run 2 shutdown_race" es] by (simp add: service_run_def size_two)
  then show ?thesis by (auto simp: deserted_def)
qed

end
