(* ===== verification/Ingress.thy ===== *)
theory Ingress
  imports Treiber Interfaces
begin

text \<open>
  The ingress of a service worker, \<open>Ingress\<close> of \<open>crates/zerokv/src/mesh.rs\<close>: any number of client
  threads push requests, the worker detaches them all.  First the operations of one thread alone,
  which are an instance of the stack interface; then every interleaving of the clients' and the
  worker's accesses.
\<close>

section \<open>Operations\<close>

record 'a ingress =
  in_head :: usize
  in_heap :: "'a theap"

definition ingress_new :: "'a ingress" where
  "ingress_new = \<lparr>in_head = 0, in_heap = Map.empty\<rparr>"

text \<open>
  \<open>push\<close>.  \<open>box\<close> is the allocator.  Alone, the weak compare-and-swap fails only spuriously: \<open>spur i\<close>
  says that the \<open>i\<close>-th one does.
\<close>

partial_function (option) push_loop :: "(nat \<Rightarrow> bool) \<Rightarrow> nat \<Rightarrow> usize \<Rightarrow> 'a ingress \<Rightarrow> 'a ingress run" where
  "push_loop spur i node q =
     (let q' = q\<lparr>in_heap := t_set_next node (in_head q) (in_heap q)\<rparr> in
      if spur i then push_loop spur (Suc i) node q' else Some (Inr (q'\<lparr>in_head := node\<rparr>)))"

definition ingress_push :: "('a theap \<Rightarrow> usize) \<Rightarrow> (nat \<Rightarrow> bool) \<Rightarrow> 'a \<Rightarrow> 'a ingress \<Rightarrow> 'a ingress run" where
  "ingress_push box spur x q =
     (let node = box (in_heap q) in push_loop spur 0 node (q\<lparr>in_heap := t_new node x (in_heap q)\<rparr>))"

definition ingress_drain :: "'a ingress \<Rightarrow> ('a list \<times> 'a ingress) run" where
  "ingress_drain q =
     run_bind (drain (in_head q) (in_heap q)) (\<lambda>(out, h). Some (Inr (out, \<lparr>in_head = 0, in_heap = h\<rparr>)))"

section \<open>Every interleaving\<close>

text \<open>A client: idle, with its own node, or with a node whose link is the head it loaded.\<close>

datatype ipc = IIdle | INode usize | ILoaded usize usize

text \<open>The worker: idle, or with a detached stack to walk.\<close>

datatype dpc = DIdle | DWalk usize | DFault fault

text \<open>The last two fields are history: what was published, in order, and what each \<open>drain\<close> returned.\<close>

record 'a ing_sys =
  is_q :: "'a ingress"
  is_pc :: "nat \<Rightarrow> ipc"
  is_worker :: dpc
  is_pub :: "'a list"
  is_out :: "'a list list"

definition ing_init :: "'a ing_sys" where
  "ing_init = \<lparr>is_q = ingress_new, is_pc = \<lambda>_. IIdle, is_worker = DIdle, is_pub = [], is_out = []\<rparr>"

abbreviation client_at :: "nat \<Rightarrow> ipc \<Rightarrow> 'a ing_sys \<Rightarrow> 'a ing_sys" where
  "client_at t pc s \<equiv> s\<lparr>is_pc := (is_pc s)(t := pc)\<rparr>"

inductive ing_step :: "'a ing_sys \<Rightarrow> 'a ing_sys \<Rightarrow> bool" where
  box: "\<lbrakk>is_pc s t = IIdle; a \<noteq> 0; in_heap (is_q s) a = None\<rbrakk> \<Longrightarrow>
    ing_step s (client_at t (INode a) s\<lparr>is_q := (is_q s)\<lparr>in_heap := t_new a x (in_heap (is_q s))\<rparr>\<rparr>)"
| load: "is_pc s t = INode a \<Longrightarrow>
    ing_step s (client_at t (ILoaded a (in_head (is_q s))) s
      \<lparr>is_q := (is_q s)\<lparr>in_heap := t_set_next a (in_head (is_q s)) (in_heap (is_q s))\<rparr>\<rparr>)"
| cas: "\<lbrakk>is_pc s t = ILoaded a p; in_head (is_q s) = p; in_heap (is_q s) a = Some nd\<rbrakk> \<Longrightarrow>
    ing_step s (client_at t IIdle s\<lparr>is_q := (is_q s)\<lparr>in_head := a\<rparr>, is_pub := is_pub s @ [tn_item nd]\<rparr>)"
| cas_fail: "is_pc s t = ILoaded a p \<Longrightarrow> ing_step s (client_at t (INode a) s)"
| swap: "is_worker s = DIdle \<Longrightarrow>
    ing_step s (s\<lparr>is_worker := DWalk (in_head (is_q s)), is_q := (is_q s)\<lparr>in_head := 0\<rparr>\<rparr>)"
| walk: "\<lbrakk>is_worker s = DWalk node; drain node (in_heap (is_q s)) = Some (Inr (xs, h))\<rbrakk> \<Longrightarrow>
    ing_step s (s\<lparr>is_worker := DIdle, is_q := (is_q s)\<lparr>in_heap := h\<rparr>, is_out := is_out s @ [xs]\<rparr>)"
| walk_fault: "\<lbrakk>is_worker s = DWalk node; drain node (in_heap (is_q s)) = Some (Inl e)\<rbrakk> \<Longrightarrow>
    ing_step s (s\<lparr>is_worker := DFault e\<rparr>)"

section \<open>The operations implement a stack\<close>

definition ingress_ok :: "'a ingress \<Rightarrow> bool" where
  "ingress_ok q \<longleftrightarrow> (\<exists>as. stack_inv (in_heap q) (in_head q) as {})"

definition ingress_items :: "'a ingress \<Rightarrow> 'a list" where
  "ingress_items q = (case drain (in_head q) (in_heap q) of Some (Inr (xs, _)) \<Rightarrow> xs | _ \<Rightarrow> [])"

text \<open>The allocator returns fresh memory, and the compare-and-swap does not fail spuriously for ever.\<close>

definition ingress_env :: "('a theap \<Rightarrow> usize) \<times> (nat \<Rightarrow> bool) \<Rightarrow> bool" where
  "ingress_env e \<longleftrightarrow> (\<forall>h. finite (dom h) \<longrightarrow> fst e h \<noteq> 0 \<and> h (fst e h) = None) \<and> (\<exists>i. \<not> snd e i)"

lemma stack_inv_items:
  assumes "stack_inv (in_heap q) (in_head q) as {}"
  shows "drain (in_head q) (in_heap q) = Some (Inr (tn_items (in_heap q) as, Map.empty))" "ingress_items q = tn_items (in_heap q) as"
proof -
  have "drain (in_head q) (in_heap q) = Some (Inr (tn_items (in_heap q) as, in_heap q |` (- set as)))"
    using assms by (intro drain_chain) (auto simp: stack_inv_def)
  moreover have "in_heap q |` (- set as) = Map.empty" using assms by (auto simp: stack_inv_def restrict_map_def fun_eq_iff)
  ultimately show "drain (in_head q) (in_heap q) = Some (Inr (tn_items (in_heap q) as, Map.empty))" by simp
  then show "ingress_items q = tn_items (in_heap q) as" by (simp add: ingress_items_def)
qed

lemma push_loop_ends:
  assumes "\<not> spur k" "i \<le> k" "stack_inv (in_heap q) (in_head q) as {node}" "in_heap q node = Some nd" "tn_item nd = x"
  shows "\<exists>q'. push_loop spur i node q = Some (Inr q') \<and> stack_inv (in_heap q') (in_head q') (node # as) {} \<and>
    tn_items (in_heap q') (node # as) = x # tn_items (in_heap q) as"
  using assms
proof (induction "k - i" arbitrary: i q nd)
  case 0
  let ?h = "t_set_next node (in_head q) (in_heap q)"
  have nd: "?h node = Some (nd\<lparr>tn_next := in_head q\<rparr>)" using 0(5) by (simp add: t_set_next_def)
  have st: "stack_inv ?h (in_head q) as {node}" by (rule stack_inv_set_next [OF 0(4)]) simp
  have "push_loop spur i node q = Some (Inr (q\<lparr>in_heap := ?h, in_head := node\<rparr>))"
    using 0 by (subst push_loop.simps) (simp add: Let_def)
  then show ?case using stack_inv_push [OF st _ nd] 0(6) by simp
next
  case (Suc d)
  let ?h = "t_set_next node (in_head q) (in_heap q)"
  have nd: "?h node = Some (nd\<lparr>tn_next := in_head q\<rparr>)" using Suc(6) by (simp add: t_set_next_def)
  have st: "stack_inv ?h (in_head q) as {node}" by (rule stack_inv_set_next [OF Suc(5)]) simp
  show ?case
  proof (cases "spur i")
    case True
    from Suc(1) [of "Suc i" "q\<lparr>in_heap := ?h\<rparr>" "nd\<lparr>tn_next := in_head q\<rparr>"] show ?thesis
      using Suc(2-) True st nd by (subst push_loop.simps) (simp add: Let_def)
  next
    case False
    then have "push_loop spur i node q = Some (Inr (q\<lparr>in_heap := ?h, in_head := node\<rparr>))"
      by (subst push_loop.simps) (simp add: Let_def)
    then show ?thesis using stack_inv_push [OF st _ nd] Suc(7) by simp
  qed
qed

interpretation ing: drained_stack ingress_env ingress_ok ingress_items "\<lambda>e. ingress_push (fst e) (snd e)" ingress_drain
proof unfold_locales
  fix e :: "('a theap \<Rightarrow> usize) \<times> (nat \<Rightarrow> bool)" and q :: "'a ingress" and x
  assume e: "ingress_env e" and q: "ingress_ok q"
  then obtain as k where st: "stack_inv (in_heap q) (in_head q) as {}" and k: "\<not> snd e k"
    by (auto simp: ingress_ok_def ingress_env_def)
  have "finite (dom (in_heap q))" using st by (simp add: stack_inv_def)
  then have a: "fst e (in_heap q) \<noteq> 0" "in_heap q (fst e (in_heap q)) = None" using e by (simp_all add: ingress_env_def)
  note n = stack_inv_new [OF st a, of x]
  obtain q' where "ingress_push (fst e) (snd e) x q = Some (Inr q')"
      "stack_inv (in_heap q') (in_head q') (fst e (in_heap q) # as) {}"
      "tn_items (in_heap q') (fst e (in_heap q) # as) = x # tn_items (in_heap q) as"
    using push_loop_ends [of "snd e" k 0 "q\<lparr>in_heap := t_new (fst e (in_heap q)) x (in_heap q)\<rparr>" as "fst e (in_heap q)" _ x] k n
    by (auto simp: ingress_push_def Let_def)
  then show "\<exists>q'. ingress_push (fst e) (snd e) x q = Some (Inr q') \<and> ingress_ok q' \<and> ingress_items q' = x # ingress_items q"
    using stack_inv_items(2) [of q'] stack_inv_items(2) [OF st] by (auto simp: ingress_ok_def)
next
  fix q :: "'a ingress" assume "ingress_ok q"
  then obtain as where st: "stack_inv (in_heap q) (in_head q) as {}" by (auto simp: ingress_ok_def)
  then show "\<exists>q'. ingress_drain q = Some (Inr (ingress_items q, q')) \<and> ingress_ok q' \<and> ingress_items q' = []"
    using stack_inv_items [OF st] stack_inv_items(2) [of ingress_new "[]"]
    by (auto simp: ingress_drain_def ingress_ok_def ingress_new_def tn_items_def intro!: exI [of _ "[]"])
qed

section \<open>The invariant of all interleavings\<close>

fun ipc_node :: "ipc \<Rightarrow> usize set" where
  "ipc_node IIdle = {}"
| "ipc_node (INode a) = {a}"
| "ipc_node (ILoaded a p) = {a}"

fun ipc_ok :: "'a theap \<Rightarrow> ipc \<Rightarrow> bool" where
  "ipc_ok h IIdle \<longleftrightarrow> True"
| "ipc_ok h (INode a) \<longleftrightarrow> (\<exists>nd. h a = Some nd)"
| "ipc_ok h (ILoaded a p) \<longleftrightarrow> (\<exists>nd. h a = Some nd \<and> tn_next nd = p)"

fun dpc_ok :: "'a theap \<Rightarrow> usize list \<Rightarrow> dpc \<Rightarrow> bool" where
  "dpc_ok h ds DIdle \<longleftrightarrow> ds = []"
| "dpc_ok h ds (DWalk node) \<longleftrightarrow> chain h node ds"
| "dpc_ok h ds (DFault e) \<longleftrightarrow> False"

abbreviation own_nodes :: "'a ing_sys \<Rightarrow> nat \<Rightarrow> usize set" where
  "own_nodes s \<equiv> ipc_node \<circ> is_pc s"

text \<open>\<open>as\<close> are the nodes of the stack, \<open>ds\<close> those of the detached one.\<close>

definition ing_mem :: "usize list \<Rightarrow> usize list \<Rightarrow> 'a ing_sys \<Rightarrow> bool" where
  "ing_mem as ds s \<longleftrightarrow> (let h = in_heap (is_q s) in
     stack_inv h (in_head (is_q s)) as (\<Union>(range (own_nodes s)) \<union> set ds) \<and> exclusive (own_nodes s) \<and>
     \<Union>(range (own_nodes s)) \<inter> set ds = {} \<and> distinct ds \<and> (\<forall>t. ipc_ok h (is_pc s t)) \<and> dpc_ok h ds (is_worker s))"

definition ing_hist :: "usize list \<Rightarrow> usize list \<Rightarrow> 'a ing_sys \<Rightarrow> bool" where
  "ing_hist as ds s \<longleftrightarrow>
     is_pub s = concat (map rev (is_out s)) @ rev (tn_items (in_heap (is_q s)) ds) @ rev (tn_items (in_heap (is_q s)) as)"

definition ing_inv :: "'a ing_sys \<Rightarrow> bool" where
  "ing_inv s \<longleftrightarrow> (\<exists>as ds. ing_mem as ds s \<and> ing_hist as ds s)"

lemma ing_memD:
  assumes "ing_mem as ds s"
  shows "stack_inv (in_heap (is_q s)) (in_head (is_q s)) as (\<Union>(range (own_nodes s)) \<union> set ds)" "exclusive (own_nodes s)"
    "\<Union>(range (own_nodes s)) \<inter> set ds = {}" "distinct ds" "\<And>t. ipc_ok (in_heap (is_q s)) (is_pc s t)"
    "dpc_ok (in_heap (is_q s)) ds (is_worker s)"
  using assms by (simp_all add: ing_mem_def Let_def)

lemma ipc_ok_cong: "(\<And>a. a \<in> ipc_node pc \<Longrightarrow> h a = h' a) \<Longrightarrow> ipc_ok h pc \<longleftrightarrow> ipc_ok h' pc"
  by (cases pc) auto

lemma dpc_ok_cong: "(\<And>a. a \<in> set ds \<Longrightarrow> h a = h' a) \<Longrightarrow> dpc_ok h ds d \<longleftrightarrow> dpc_ok h' ds d"
  by (cases d) (auto cong: chain_cong)

lemma ing_inv_init: "ing_inv ing_init"
  by (auto simp: ing_inv_def ing_mem_def ing_hist_def ing_init_def ingress_new_def tn_items_def exclusive_def stack_inv_def comp_def
      intro!: exI [of _ "[]"])

lemma ing_inv_box:
  assumes "ing_inv s" "is_pc s t = IIdle" "a \<noteq> 0" "in_heap (is_q s) a = None"
  shows "ing_inv (client_at t (INode a) s\<lparr>is_q := (is_q s)\<lparr>in_heap := t_new a x (in_heap (is_q s))\<rparr>\<rparr>)" (is "ing_inv ?s")
proof -
  from assms(1) obtain as ds where i: "ing_mem as ds s" "ing_hist as ds s" by (auto simp: ing_inv_def)
  note m = ing_memD [OF i(1)]
  note st = stack_inv_new [OF m(1) assms(3,4), of x]
  let ?h = "t_new a x (in_heap (is_q s))"
  have free: "a \<notin> \<Union>(range (own_nodes s)) \<union> set ds" using m(1) assms(4) unfolding stack_inv_def by blast
  then have e: "exclusive ((own_nodes s)(t := {a}))" "\<Union>(range ((own_nodes s)(t := {a}))) = {a} \<union> \<Union>(range (own_nodes s))"
    using exclusive_add [OF m(2), of t "{a}"] assms(2) by auto
  have n: "own_nodes ?s = (own_nodes s)(t := {a})" by (simp add: upd_comp)
  have h: "?h b = in_heap (is_q s) b" if "b \<noteq> a" for b using that by (simp add: t_new_def)
  have hds: "?h b = in_heap (is_q s) b" if "b \<in> set ds" for b using free that by (intro h) blast
  have "ipc_ok ?h (is_pc ?s u)" for u
  proof (cases "u = t")
    case False
    moreover have "ipc_ok ?h (is_pc s u) \<longleftrightarrow> ipc_ok (in_heap (is_q s)) (is_pc s u)"
      using free by (intro ipc_ok_cong h) auto
    ultimately show ?thesis using m(5) [of u] by simp
  qed (simp add: st(3))
  moreover have "dpc_ok ?h ds (is_worker s) \<longleftrightarrow> dpc_ok (in_heap (is_q s)) ds (is_worker s)"
    by (intro dpc_ok_cong hds)
  ultimately have "ing_mem as ds ?s" unfolding ing_mem_def n e(2) Let_def
    using st(1) e(1) free m(3,4,6) by (simp add: insert_is_Un [symmetric] del: fun_upd_apply)
  moreover have "tn_items ?h ds = tn_items (in_heap (is_q s)) ds" by (intro items_cong hds)
  then have "ing_hist as ds ?s" using i(2) st(2) by (simp add: ing_hist_def)
  ultimately show ?thesis unfolding ing_inv_def by blast
qed

lemma ing_inv_load:
  assumes "ing_inv s" "is_pc s t = INode a"
  shows "ing_inv (client_at t (ILoaded a (in_head (is_q s))) s
    \<lparr>is_q := (is_q s)\<lparr>in_heap := t_set_next a (in_head (is_q s)) (in_heap (is_q s))\<rparr>\<rparr>)" (is "ing_inv ?s")
proof -
  from assms(1) obtain as ds where i: "ing_mem as ds s" "ing_hist as ds s" by (auto simp: ing_inv_def)
  note m = ing_memD [OF i(1)]
  let ?h = "t_set_next a (in_head (is_q s)) (in_heap (is_q s))"
  have "a \<in> own_nodes s t" by (simp add: assms(2))
  then have own: "a \<in> \<Union>(range (own_nodes s))" by blast
  obtain nd where nd: "in_heap (is_q s) a = Some nd" using m(5) [of t] assms(2) by auto
  have h: "?h = (in_heap (is_q s))(a \<mapsto> nd\<lparr>tn_next := in_head (is_q s)\<rparr>)" by (simp add: t_set_next_def nd)
  have "ipc_ok ?h (is_pc ?s u)" for u
  proof (cases "u = t")
    case False
    then have "own_nodes s t \<inter> own_nodes s u = {}" using m(2) unfolding exclusive_def by blast
    then have "a \<notin> ipc_node (is_pc s u)" using assms(2) by auto
    then have "ipc_ok ?h (is_pc s u) \<longleftrightarrow> ipc_ok (in_heap (is_q s)) (is_pc s u)"
      unfolding h by (intro ipc_ok_cong) auto
    then show ?thesis using False m(5) [of u] by simp
  qed (simp add: h)
  moreover have "a \<notin> set ds" using own m(3) by blast
  then have "dpc_ok ?h ds (is_worker s) \<longleftrightarrow> dpc_ok (in_heap (is_q s)) ds (is_worker s)"
    unfolding h by (intro dpc_ok_cong) auto
  moreover have "own_nodes ?s = own_nodes s" by (simp add: keep_upd assms(2))
  moreover have "stack_inv ?h (in_head (is_q s)) as (\<Union>(range (own_nodes s)) \<union> set ds)"
    using own by (intro stack_inv_set_next [OF m(1)]) simp
  ultimately have "ing_mem as ds ?s" using m(2-4,6) by (simp add: ing_mem_def Let_def del: fun_upd_apply)
  moreover have "ing_hist as ds ?s" using i(2) by (simp add: ing_hist_def)
  ultimately show ?thesis unfolding ing_inv_def by blast
qed

lemma ing_inv_cas:
  assumes "ing_inv s" "is_pc s t = ILoaded a (in_head (is_q s))" "in_heap (is_q s) a = Some nd"
  shows "ing_inv (client_at t IIdle s\<lparr>is_q := (is_q s)\<lparr>in_head := a\<rparr>, is_pub := is_pub s @ [tn_item nd]\<rparr>)" (is "ing_inv ?s")
proof -
  from assms(1) obtain as ds where i: "ing_mem as ds s" "ing_hist as ds s" by (auto simp: ing_inv_def)
  note m = ing_memD [OF i(1)]
  have own: "own_nodes s t = {a}" by (simp add: assms(2))
  then have a: "a \<in> \<Union>(range (own_nodes s))" by blast
  then have ds: "a \<notin> set ds" using m(3) by blast
  have nd: "tn_next nd = in_head (is_q s)" using m(5) [of t] assms(2,3) by auto
  have n: "own_nodes ?s = (own_nodes s)(t := {})" by (simp add: upd_comp)
  note e = exclusive_drop [OF m(2), of t, unfolded own]
  have st: "stack_inv (in_heap (is_q s)) a (a # as) (\<Union>(range (own_nodes s)) \<union> set ds - {a})"
    "tn_items (in_heap (is_q s)) (a # as) = tn_item nd # tn_items (in_heap (is_q s)) as"
    using stack_inv_push [OF m(1) _ assms(3) nd] a by simp_all
  have "\<Union>(range (own_nodes s)) \<union> set ds - {a} = \<Union>(range (own_nodes s)) - {a} \<union> set ds" using ds by blast
  moreover have "ipc_ok (in_heap (is_q s)) (is_pc ?s u)" for u using m(5) [of u] by simp
  ultimately have "ing_mem (a # as) ds ?s" unfolding ing_mem_def n e(2) Let_def
    using st(1) e(1) m(3,4,6) by (auto simp del: fun_upd_apply)
  moreover have "ing_hist (a # as) ds ?s" using i(2) st(2) by (simp add: ing_hist_def)
  ultimately show ?thesis unfolding ing_inv_def by blast
qed

lemma ing_inv_swap:
  assumes "ing_inv s" "is_worker s = DIdle"
  shows "ing_inv (s\<lparr>is_worker := DWalk (in_head (is_q s)), is_q := (is_q s)\<lparr>in_head := 0\<rparr>\<rparr>)" (is "ing_inv ?s")
proof -
  from assms(1) obtain as ds where i: "ing_mem as ds s" "ing_hist as ds s" by (auto simp: ing_inv_def)
  note m = ing_memD [OF i(1)]
  have ds: "ds = []" using m(6) assms(2) by simp
  have "ing_mem [] as ?s" using stack_inv_swap [OF m(1)] m by (auto simp: ing_mem_def ds)
  moreover have "ing_hist [] as ?s" using i(2) by (simp add: ing_hist_def ds tn_items_def)
  ultimately show ?thesis unfolding ing_inv_def by blast
qed

lemma ing_inv_walk:
  assumes "ing_inv s" "is_worker s = DWalk node"
  shows "\<exists>xs h. drain node (in_heap (is_q s)) = Some (Inr (xs, h)) \<and>
    ing_inv (s\<lparr>is_worker := DIdle, is_q := (is_q s)\<lparr>in_heap := h\<rparr>, is_out := is_out s @ [xs]\<rparr>)"
proof -
  from assms(1) obtain as ds where i: "ing_mem as ds s" "ing_hist as ds s" by (auto simp: ing_inv_def)
  note m = ing_memD [OF i(1)]
  have ch: "chain (in_heap (is_q s)) node ds" using m(6) assms(2) by simp
  note st = stack_inv_drain [OF m(1) ch m(4), simplified]
  let ?h = "in_heap (is_q s) |` (- set ds)" and ?b = "tn_items (in_heap (is_q s)) ds"
  let ?s = "s\<lparr>is_worker := DIdle, is_q := (is_q s)\<lparr>in_heap := ?h\<rparr>, is_out := is_out s @ [?b]\<rparr>"
  have "ipc_ok ?h (is_pc s t)" for t
  proof -
    have "own_nodes s t \<inter> set ds = {}" using m(3) by blast
    then have "ipc_ok (in_heap (is_q s)) (is_pc s t) = ipc_ok ?h (is_pc s t)" by (intro ipc_ok_cong) (auto simp: restrict_map_def)
    then show ?thesis using m(5) by blast
  qed
  moreover have "\<Union>(range (own_nodes s)) \<union> set ds - set ds = \<Union>(range (own_nodes s))" using m(3) by blast
  ultimately have "ing_mem as [] ?s" using st(2) m(2) by (simp add: ing_mem_def)
  moreover have "ing_hist as [] ?s" using i(2) st(3) by (simp add: ing_hist_def) (simp add: tn_items_def)
  ultimately show ?thesis using st(1) unfolding ing_inv_def by blast
qed

lemma ing_inv_step: "ing_step s s' \<Longrightarrow> ing_inv s \<Longrightarrow> ing_inv s'"
proof (induction rule: ing_step.induct)
  case (cas_fail s t a p)
  then obtain as ds where i: "ing_mem as ds s" "ing_hist as ds s" by (auto simp: ing_inv_def)
  have "own_nodes (client_at t (INode a) s) = own_nodes s" using cas_fail by (simp add: keep_upd)
  moreover have "ipc_ok (in_heap (is_q s)) (is_pc (client_at t (INode a) s) u)" for u
    using ing_memD(5) [OF i(1), of u] cas_fail by auto
  ultimately have "ing_mem as ds (client_at t (INode a) s)" using ing_memD [OF i(1)]
    by (simp add: ing_mem_def Let_def del: fun_upd_apply)
  moreover have "ing_hist as ds (client_at t (INode a) s)" using i(2) by (simp add: ing_hist_def)
  ultimately show ?case unfolding ing_inv_def by blast
next
  case (walk s node xs h)
  then show ?case using ing_inv_walk by fastforce
next
  case (walk_fault s node e)
  then show ?case using ing_inv_walk by fastforce
qed (use ing_inv_box ing_inv_load ing_inv_cas ing_inv_swap in auto)

lemma ing_inv_reach: "ing_step\<^sup>*\<^sup>* ing_init s \<Longrightarrow> ing_inv s"
  by (induction rule: rtranclp_induct) (auto intro: ing_inv_step ing_inv_init)

section \<open>Properties\<close>

fun detached :: "dpc \<Rightarrow> usize" where
  "detached (DWalk node) = node"
| "detached d = 0"

text \<open>C23: The ingress loses, repeats and leaks nothing: in whatever order clients and worker interleave,
  also when the memory of freed nodes is used again, no walk touches freed memory, what the worker has
  drained, what it is about to walk and what is still stacked are together exactly the published requests
  in their order, each part reversed, and apart from these nodes only those in the hands of clients are allocated.\<close>

theorem ingress_loses_nothing:
  assumes "ing_step\<^sup>*\<^sup>* ing_init s"
  shows "(\<forall>e. is_worker s \<noteq> DFault e) \<and> (\<exists>xs h ys h'. drain (detached (is_worker s)) (in_heap (is_q s)) = Some (Inr (xs, h)) \<and>
    drain (in_head (is_q s)) h = Some (Inr (ys, h')) \<and> is_pub s = concat (map rev (is_out s)) @ rev xs @ rev ys \<and>
    dom h' = \<Union>(range (own_nodes s)))"
proof -
  obtain as ds where i: "ing_mem as ds s" "ing_hist as ds s" using ing_inv_reach [OF assms] by (auto simp: ing_inv_def)
  note m = ing_memD [OF i(1)]
  let ?h = "in_heap (is_q s) |` (- set ds)"
  have "chain (in_heap (is_q s)) (detached (is_worker s)) ds" using m(6) by (cases "is_worker s") auto
  note st = stack_inv_drain [OF m(1) this m(4) Un_upper2]
  have own: "\<Union>(range (own_nodes s)) \<union> set ds - set ds = \<Union>(range (own_nodes s))" using m(3) by blast
  have "chain ?h (in_head (is_q s)) as" "distinct as" "dom ?h = set as \<union> \<Union>(range (own_nodes s))" "set as \<inter> \<Union>(range (own_nodes s)) = {}"
    using st(2) unfolding own stack_inv_def by - (elim conjE, assumption)+
  then have "drain (in_head (is_q s)) ?h = Some (Inr (tn_items ?h as, ?h |` (- set as)))" "dom (?h |` (- set as)) = \<Union>(range (own_nodes s))"
    by (auto simp: drain_chain simp del: restrict_restrict)
  moreover have "\<forall>e. is_worker s \<noteq> DFault e" using m(6) by auto
  ultimately show ?thesis using st(1,3) i(2) unfolding ing_hist_def by metis
qed

text \<open>A drain overtakes a client, which then pushes at the address of a freed node.\<close>

theorem ingress_loses_nothing_witness:
  "\<exists>s. ing_step\<^sup>*\<^sup>* ing_init s \<and> is_out s = [[7]] \<and> (\<exists>ys. is_pub s = 7 # rev ys \<and> ys = [8 :: nat])"
proof -
  let ?q = "\<lambda>hd h. \<lparr>in_head = hd, in_heap = h\<rparr>"
  define s1 where "s1 = (ing_init :: nat ing_sys)\<lparr>is_pc := (\<lambda>_. IIdle)(0 := INode 16), is_q := ?q 0 [16 \<mapsto> \<lparr>tn_item = 7, tn_next = 0\<rparr>]\<rparr>"
  define s2 where "s2 = s1\<lparr>is_pc := (\<lambda>_. IIdle)(0 := ILoaded 16 0)\<rparr>"
  define s3 where "s3 = s2\<lparr>is_pc := \<lambda>_. IIdle, is_q := ?q 16 [16 \<mapsto> \<lparr>tn_item = 7, tn_next = 0\<rparr>], is_pub := [7]\<rparr>"
  define s4 where "s4 = s3\<lparr>is_worker := DWalk 16, is_q := ?q 0 [16 \<mapsto> \<lparr>tn_item = 7, tn_next = 0\<rparr>]\<rparr>"
  define s5 where "s5 = s4\<lparr>is_worker := DIdle, is_q := ?q 0 Map.empty, is_out := [[7]]\<rparr>"
  define s6 where "s6 = s5\<lparr>is_pc := (\<lambda>_. IIdle)(0 := INode 16), is_q := ?q 0 [16 \<mapsto> \<lparr>tn_item = 8, tn_next = 0\<rparr>]\<rparr>"
  define s7 where "s7 = s6\<lparr>is_pc := (\<lambda>_. IIdle)(0 := ILoaded 16 0)\<rparr>"
  define s8 where "s8 = s7\<lparr>is_pc := \<lambda>_. IIdle, is_q := ?q 16 [16 \<mapsto> \<lparr>tn_item = 8, tn_next = 0\<rparr>], is_pub := [7, 8]\<rparr>"
  note defs = s1_def s2_def s3_def s4_def s5_def s6_def s7_def s8_def ing_init_def ingress_new_def
  have d: "drain 16 [16 \<mapsto> \<lparr>tn_item = x, tn_next = 0\<rparr>] = Some (Inr ([x], Map.empty))" for x :: nat
    by (subst drain.simps, simp, subst drain.simps, simp)
  have d0: "drain 0 h = Some (Inr ([], h))" for h :: "nat theap" by (subst drain.simps) simp
  have idle: "(\<lambda>_. IIdle)(0 := IIdle) = (\<lambda>_ :: nat. IIdle)" by auto
  have "ing_step ing_init s1" using ing_step.box [of ing_init 0 16 7] by (simp add: defs t_new_def)
  moreover have "ing_step s1 s2" using ing_step.load [of s1 0 16] by (simp add: defs t_set_next_def)
  moreover have "ing_step s2 s3" using ing_step.cas [of s2 0 16 0] by (simp add: defs idle)
  moreover have "ing_step s3 s4" using ing_step.swap [of s3] by (simp add: defs)
  moreover have "ing_step s4 s5" using ing_step.walk [of s4 16 "[7]" Map.empty] by (simp add: defs d)
  moreover have "ing_step s5 s6" using ing_step.box [of s5 0 16 8] by (simp add: defs t_new_def)
  moreover have "ing_step s6 s7" using ing_step.load [of s6 0 16] by (simp add: defs t_set_next_def)
  moreover have "ing_step s7 s8" using ing_step.cas [of s7 0 16 0] by (simp add: defs idle)
  ultimately have run: "ing_step\<^sup>*\<^sup>* ing_init s8" by (meson rtranclp.rtrancl_into_rtrancl rtranclp.rtrancl_refl)
  then show ?thesis using ingress_loses_nothing [OF run] by (auto simp: defs d d0 intro!: exI [of _ s8])
qed

end
