(* ===== verification/ReqCompletion.thy ===== *)
theory ReqCompletion
  imports Prelude
begin

text \<open>
  The completion of a client request, \<open>ReqCompletion\<close> of \<open>crates/zerokv/src/mesh.rs\<close>: \<open>wait\<close> spins and
  then parks the client, \<open>fulfill\<close> stores the value, publishes it and unparks the client; one access
  to shared memory per step.  The token of \<open>park\<close> belongs to the thread, so it may still be set by
  the completion of an earlier request, and \<open>park\<close> may return without cause.
\<close>

section \<open>Model\<close>

definition SPIN :: nat where
  "SPIN = 2000"

text \<open>\<open>wait\<close>: spinning with \<open>k\<close> loads left, before the load of the second loop, before or in \<open>park\<close>,
  before the value is taken, returned.\<close>

datatype wait_pc = WSpin nat | WCheck | WPark | WTake | WGot "bytes option"

text \<open>\<open>fulfill\<close>: not begun, value stored, flag set, returned.\<close>

datatype fulfill_pc = FIdle | FStored | FPublished | FEnd

record req_completion =
  rc_done :: bool
  rc_value :: "bytes option"
  rc_token :: bool
  rc_wait :: wait_pc
  rc_fulfill :: fulfill_pc

text \<open>\<open>new\<close>, by a thread whose token is \<open>tok\<close>.\<close>

definition req_new :: "bool \<Rightarrow> req_completion" where
  "req_new tok = \<lparr>rc_done = False, rc_value = None, rc_token = tok, rc_wait = WSpin SPIN, rc_fulfill = FIdle\<rparr>"

text \<open>A step of \<open>wait\<close>; in \<open>park\<close> without a token there is none.\<close>

definition wait_step :: "req_completion \<Rightarrow> req_completion option" where
  "wait_step s = (case rc_wait s of
     WSpin k \<Rightarrow> Some (s\<lparr>rc_wait := (if k = 0 then WCheck else if rc_done s then WTake else WSpin (k - 1))\<rparr>)
   | WCheck \<Rightarrow> Some (s\<lparr>rc_wait := (if rc_done s then WTake else WPark)\<rparr>)
   | WPark \<Rightarrow> if rc_token s then Some (s\<lparr>rc_token := False, rc_wait := WCheck\<rparr>) else None
   | WTake \<Rightarrow> Some (s\<lparr>rc_value := None, rc_wait := WGot (rc_value s)\<rparr>)
   | WGot v \<Rightarrow> None)"

text \<open>A step of \<open>fulfill\<close> with the value \<open>val\<close>.\<close>

definition fulfill_step :: "bytes option \<Rightarrow> req_completion \<Rightarrow> req_completion option" where
  "fulfill_step val s = (case rc_fulfill s of
     FIdle \<Rightarrow> Some (s\<lparr>rc_value := val, rc_fulfill := FStored\<rparr>)
   | FStored \<Rightarrow> Some (s\<lparr>rc_done := True, rc_fulfill := FPublished\<rparr>)
   | FPublished \<Rightarrow> Some (s\<lparr>rc_token := True, rc_fulfill := FEnd\<rparr>)
   | FEnd \<Rightarrow> None)"

inductive rc_step :: "bytes option \<Rightarrow> req_completion \<Rightarrow> req_completion \<Rightarrow> bool" for val where
  wait: "wait_step s = Some s' \<Longrightarrow> rc_step val s s'"
| fulfill: "fulfill_step val s = Some s' \<Longrightarrow> rc_step val s s'"
| spurious: "rc_wait s = WPark \<Longrightarrow> rc_step val s (s\<lparr>rc_wait := WCheck\<rparr>)"
| unpark: "rc_step val s (s\<lparr>rc_token := True\<rparr>)"

text \<open>The client alone, for \<open>k\<close> steps.\<close>

fun run_wait :: "nat \<Rightarrow> req_completion \<Rightarrow> req_completion" where
  "run_wait 0 s = s"
| "run_wait (Suc k) s = (case wait_step s of None \<Rightarrow> s | Some s' \<Rightarrow> run_wait k s')"

section \<open>The handshake\<close>

fun wait_ok :: "bytes option \<Rightarrow> req_completion \<Rightarrow> wait_pc \<Rightarrow> bool" where
  "wait_ok val s (WGot v) \<longleftrightarrow> rc_done s \<and> v = val"
| "wait_ok val s pc \<longleftrightarrow> (rc_done s \<longrightarrow> rc_value s = val) \<and> (pc = WTake \<longrightarrow> rc_done s) \<and>
     (pc = WPark \<longrightarrow> rc_fulfill s = FEnd \<longrightarrow> rc_token s)"

definition rc_inv :: "bytes option \<Rightarrow> req_completion \<Rightarrow> bool" where
  "rc_inv val s \<longleftrightarrow> (rc_done s \<longleftrightarrow> rc_fulfill s \<in> {FPublished, FEnd}) \<and>
     (rc_fulfill s = FStored \<longrightarrow> rc_value s = val) \<and> wait_ok val s (rc_wait s)"

lemma rc_inv_new: "rc_inv val (req_new tok)"
  by (simp add: rc_inv_def req_new_def)

lemma rc_inv_wait: "wait_step s = Some s' \<Longrightarrow> rc_inv val s \<Longrightarrow> rc_inv val s'"
  by (cases "rc_wait s") (auto simp: wait_step_def rc_inv_def split: if_splits)

lemma rc_inv_fulfill: "fulfill_step val s = Some s' \<Longrightarrow> rc_inv val s \<Longrightarrow> rc_inv val s'"
  by (cases "rc_fulfill s"; cases "rc_wait s") (auto simp: fulfill_step_def rc_inv_def)

lemma rc_inv_step: "rc_step val s s' \<Longrightarrow> rc_inv val s \<Longrightarrow> rc_inv val s'"
proof (induction rule: rc_step.induct)
  case (spurious s)
  then show ?case by (auto simp: rc_inv_def)
next
  case (unpark s)
  then show ?case by (cases "rc_wait s") (auto simp: rc_inv_def)
qed (rule rc_inv_wait rc_inv_fulfill; assumption)+

lemma rc_inv_reach: "(rc_step val)\<^sup>*\<^sup>* (req_new tok) s \<Longrightarrow> rc_inv val s"
  by (induction rule: rtranclp_induct) (auto intro: rc_inv_step rc_inv_new)

lemma run_wait_returns:
  assumes "rc_inv val s" "rc_fulfill s = FEnd"
  shows "rc_wait (run_wait 3 s) = WGot val"
proof -
  have "rc_done s" using assms by (simp add: rc_inv_def)
  then show ?thesis using assms by (cases "rc_wait s") (auto simp: rc_inv_def numeral_3_eq_3 wait_step_def)
qed

text \<open>C22: The completion of a request is safe against lost wake-ups: however the accesses of \<open>wait\<close> and
  \<open>fulfill\<close> interleave, with any stale or spurious unpark, \<open>wait\<close> returns only what \<open>fulfill\<close> was given,
  and once \<open>fulfill\<close> has returned, the client is not blocked and returns that value within three of
  its own steps.\<close>

theorem wait_gets_the_value:
  assumes "(rc_step val)\<^sup>*\<^sup>* (req_new tok) s"
  shows "(\<forall>v. rc_wait s = WGot v \<longrightarrow> v = val) \<and> (rc_fulfill s = FEnd \<longrightarrow> rc_wait (run_wait 3 s) = WGot val)"
proof -
  have inv: "rc_inv val s" by (rule rc_inv_reach [OF assms])
  then have "v = val" if "rc_wait s = WGot v" for v using that by (auto simp: rc_inv_def)
  then show ?thesis using run_wait_returns [OF inv] by blast
qed

text \<open>The client spins to the end, checks the flag, and is overtaken by all of \<open>fulfill\<close> before it parks.\<close>

lemma spin_down: "rc_wait s = WSpin k \<Longrightarrow> \<not> rc_done s \<Longrightarrow> (rc_step val)\<^sup>*\<^sup>* s (s\<lparr>rc_wait := WCheck\<rparr>)"
proof (induction k arbitrary: s)
  case 0
  then have "rc_step val s (s\<lparr>rc_wait := WCheck\<rparr>)" by (intro rc_step.wait) (simp add: wait_step_def)
  then show ?case by (rule r_into_rtranclp)
next
  case (Suc k)
  then have "rc_step val s (s\<lparr>rc_wait := WSpin k\<rparr>)" by (intro rc_step.wait) (simp add: wait_step_def)
  moreover have "(rc_step val)\<^sup>*\<^sup>* (s\<lparr>rc_wait := WSpin k\<rparr>) (s\<lparr>rc_wait := WCheck\<rparr>)"
    using Suc.IH [of "s\<lparr>rc_wait := WSpin k\<rparr>"] Suc.prems by simp
  ultimately show ?case by (rule converse_rtranclp_into_rtranclp)
qed

theorem wait_gets_the_value_witness:
  "\<exists>s. (rc_step (Some [5]))\<^sup>*\<^sup>* (req_new False) s \<and> rc_wait s = WPark \<and> rc_wait (run_wait 3 s) = WGot (Some [5])"
proof -
  define s1 where "s1 = (req_new False)\<lparr>rc_wait := WCheck\<rparr>"
  define s2 where "s2 = s1\<lparr>rc_wait := WPark\<rparr>"
  define s3 where "s3 = s2\<lparr>rc_value := Some [5], rc_fulfill := FStored\<rparr>"
  define s4 where "s4 = s3\<lparr>rc_done := True, rc_fulfill := FPublished\<rparr>"
  define s5 where "s5 = s4\<lparr>rc_token := True, rc_fulfill := FEnd\<rparr>"
  note defs = s1_def s2_def s3_def s4_def s5_def req_new_def
  have "(rc_step (Some [5]))\<^sup>*\<^sup>* (req_new False) s1" unfolding s1_def by (rule spin_down) (simp_all add: req_new_def)
  moreover have "rc_step (Some [5]) s1 s2" by (rule rc_step.wait) (simp add: defs wait_step_def)
  moreover have "rc_step (Some [5]) s2 s3" by (rule rc_step.fulfill) (simp add: defs fulfill_step_def)
  moreover have "rc_step (Some [5]) s3 s4" by (rule rc_step.fulfill) (simp add: defs fulfill_step_def)
  moreover have "rc_step (Some [5]) s4 s5" by (rule rc_step.fulfill) (simp add: defs fulfill_step_def)
  ultimately have run: "(rc_step (Some [5]))\<^sup>*\<^sup>* (req_new False) s5" by (meson rtranclp.rtrancl_into_rtrancl)
  have "rc_wait s5 = WPark" "rc_fulfill s5 = FEnd" by (simp_all add: defs)
  then show ?thesis using wait_gets_the_value [OF run] run by blast
qed

end
