(* ===== verification/Demo.thy ===== *)
theory Demo
  imports Store ZeroCopy
begin

text \<open>
  The functional part of the demo program, \<open>crates/zerokv/src/main.rs\<close>: the two demos, which print what
  they read back, the keys of the benchmarks and the closures that the benchmark threads run.  Times,
  output and threads are left out: a benchmark here runs one thread after the other.
\<close>

section \<open>Demos\<close>

text \<open>A byte-string literal.\<close>

definition ascii :: "string \<Rightarrow> bytes" where
  "ascii s = map of_char s"

text \<open>What \<open>functional_demo\<close> prints: three lookups and the length.\<close>

definition functional_demo ::
    "(usize \<Rightarrow> nat) \<Rightarrow> store_env \<Rightarrow> u64 \<Rightarrow> (bytes option \<times> bytes option \<times> bytes option \<times> usize) run" where
  "functional_demo ceil_log4 env rng =
     step_bind (in_memory ceil_log4 env 8 1024) (\<lambda>store.
     run_bind (kv_put env rng (ascii ''user:1'') (ascii ''alice'') store) (\<lambda>(_, rng, store).
     run_bind (kv_put env rng (ascii ''user:2'') (ascii ''bob'') store) (\<lambda>(_, rng, store).
     run_bind (kv_get (ascii ''user:1'') store) (\<lambda>g1.
     run_bind (kv_put env rng (ascii ''user:1'') (ascii ''alice-v2'') store) (\<lambda>(_, rng, store).
     run_bind (kv_get (ascii ''user:1'') store) (\<lambda>g2.
     run_bind (kv_delete (ascii ''user:2'') store) (\<lambda>(_, store).
     run_bind (kv_get (ascii ''user:2'') store) (\<lambda>g3.
       Some (Inr (g1, g2, g3, kv_len store))))))))))"

text \<open>\<open>Trade\<close>, with its \<open>repr(C)\<close> layout, and the record of the demo.\<close>

definition trade :: "field_ty list" where
  "trade = [Prim U64, Prim U64, Prim U32, Prim U32]"

definition trade_layout :: layout where
  "trade_layout = repr_c None trade"

definition demo_trade :: "u8 option list" where
  "demo_trade = record_mem trade trade_layout
     [le_bytes 8 (7 :: u64), le_bytes 8 (10125 :: u64), le_bytes 4 (50 :: u32), le_bytes 4 (1 :: u32)]"

text \<open>\<open>derive_demo\<close>, with the buffer at address \<open>buf\<close>: the printed size and whether the view equals the record.\<close>

definition derive_demo :: "usize \<Rightarrow> (nat \<times> bool) res" where
  "derive_demo buf =
     try_bind (encode trade_layout demo_trade (replicate (ly_size trade_layout) 0)) (\<lambda>bs.
       case view trade_layout buf bs of None \<Rightarrow> Inl Panic | Some v \<Rightarrow> Inr (ly_size trade_layout, v = demo_trade))"

section \<open>Benchmarks\<close>

definition bench_key :: "usize \<Rightarrow> usize \<Rightarrow> usize \<Rightarrow> bytes" where
  "bench_key t i per_thread = le_bytes 8 (t * per_thread + i)"

text \<open>The closures of \<open>bench_writes\<close> and \<open>bench_reads_owned\<close>.\<close>

definition write_closure :: "usize \<Rightarrow> usize \<Rightarrow> kv_op list" where
  "write_closure t per_thread =
     map (\<lambda>i. let k = bench_key t (of_nat i) per_thread in Put k k) [0..<unat per_thread]"

definition read_closure :: "usize \<Rightarrow> usize \<Rightarrow> kv_op list" where
  "read_closure t per_thread = map (\<lambda>i. Get (bench_key t (of_nat i) per_thread)) [0..<unat per_thread]"

definition scoped :: "usize \<Rightarrow> (usize \<Rightarrow> kv_op list) \<Rightarrow> kv_op list" where
  "scoped threads f = concat (map (\<lambda>t. f (of_nat t)) [0..<unat threads])"

text \<open>\<open>bench_mixed\<close>: the generator, and whether it chooses a write.\<close>

definition mixed_next :: "u64 \<Rightarrow> u64" where
  "mixed_next rng =
     (let rng = rng XOR push_bit 13 rng; rng = rng XOR drop_bit 7 rng in rng XOR push_bit 17 rng)"

definition mixed_writes :: "u64 \<Rightarrow> bool" where
  "mixed_writes rng \<longleftrightarrow> rng AND 9 = 9"

section \<open>Keys\<close>

lemma bit_le_bytes:
  fixes w :: u64
  assumes "j < 64"
  shows "bit (le_bytes 8 w ! (j div 8)) (j mod 8) = bit w j"
proof -
  have "j div 8 < 8" using assms by simp
  then show ?thesis by (simp add: le_bytes_def bit_ucast_iff bit_drop_bit_eq)
qed

lemma le_bytes_inj: "le_bytes 8 (v :: u64) = le_bytes 8 w \<Longrightarrow> v = w"
proof (rule bit_word_eqI)
  fix j assume "le_bytes 8 v = le_bytes 8 w" "j < LENGTH(64)"
  then show "bit v j = bit w j" using bit_le_bytes [of j v] bit_le_bytes [of j w] by simp
qed

definition nth_key :: "nat \<Rightarrow> bytes" where
  "nth_key j = le_bytes 8 (of_nat j :: u64)"

lemma nth_key_inj: "i < 2 ^ 64 \<Longrightarrow> j < 2 ^ 64 \<Longrightarrow> nth_key i = nth_key j \<Longrightarrow> i = j"
  unfolding nth_key_def by (drule le_bytes_inj) (simp add: word_of_nat_eq_iff take_bit_nat_eq_self)

lemma bench_key_eq: "bench_key (of_nat t) (of_nat i) per_thread = nth_key (t * unat per_thread + i)"
  by (simp add: bench_key_def nth_key_def)

lemma concat_blocks: "concat (map (\<lambda>t. map (\<lambda>i. f (t * n + i)) [0..<n]) [0..<m]) = map f [0..<m * n]"
proof (induction m)
  case (Suc m)
  have "map f [m * n..<m * n + n] = map (\<lambda>i. f (m * n + i)) [0..<n]"
    by (rule nth_equalityI) simp_all
  then show ?case using Suc upt_add_eq_append [of 0 "m * n" n] by (simp add: add.commute)
qed simp

lemma scoped_keys:
  "scoped threads (\<lambda>t. write_closure t per_thread) = map (\<lambda>j. Put (nth_key j) (nth_key j)) [0..<unat threads * unat per_thread]"
  "scoped threads (\<lambda>t. read_closure t per_thread) = map (\<lambda>j. Get (nth_key j)) [0..<unat threads * unat per_thread]"
  using concat_blocks [of "\<lambda>j. Put (nth_key j) (nth_key j)" "unat per_thread" "unat threads"]
    concat_blocks [of "\<lambda>j. Get (nth_key j)" "unat per_thread" "unat threads"]
  by (simp_all add: scoped_def write_closure_def read_closure_def bench_key_eq Let_def)

lemma map_ops_append: "map_ops (xs @ ys) m = (fst (map_ops xs m) @ fst (map_ops ys (snd (map_ops xs m))), snd (map_ops ys (snd (map_ops xs m))))"
  by (induction xs arbitrary: m) (simp_all add: Let_def split: prod.split)

lemma map_ops_writes:
  assumes "n \<le> 2 ^ 64"
  shows "map_ops (map (\<lambda>j. Put (nth_key j) (nth_key j)) [0..<n]) Map.empty =
    (replicate n (Inserted True), \<lambda>k. if k \<in> nth_key ` {..<n} then Some k else None)"
  using assms
proof (induction n)
  case (Suc n)
  have "nth_key n \<noteq> nth_key j" if "j < n" for j using nth_key_inj [of n j] that Suc.prems by auto
  then have "nth_key n \<notin> nth_key ` {..<n}" by blast
  then show ?case using Suc by (auto simp: map_ops_append lessThan_Suc fun_eq_iff simp flip: replicate_append_same)
qed simp

lemma map_ops_reads: "set js \<subseteq> {..<n} \<Longrightarrow>
    map_ops (map (\<lambda>j. Get (nth_key j)) js) (\<lambda>k. if k \<in> nth_key ` {..<n} then Some k else None) =
    (map (\<lambda>j. Got (Some (nth_key j))) js, \<lambda>k. if k \<in> nth_key ` {..<n} then Some k else None)"
  by (induction js) auto

section \<open>Properties\<close>

lemma in_memory_fault: "store_env_ok env \<Longrightarrow> in_memory ceil_log4 env 8 hint = Inl e \<Longrightarrow> e = Abort"
  using sh_new_panics_iff [of "snd env" ceil_log4 "fst env" 8 hint]
  by (cases e) (auto simp: in_memory_def store_env_ok_def try_bind_def split: sum.splits)

text \<open>A put goes on with the updated map, unless it aborts.\<close>

lemma put_then:
  assumes "store_env_ok env" "frame_fits k v" "store_repr st m"
    "\<And>new rng' st'. store_repr st' (m(k \<mapsto> v)) \<Longrightarrow> f (new, rng', st') \<in> {Some (Inl Abort), R}"
  shows "run_bind (kv_put env rng k v st) f \<in> {Some (Inl Abort), R}"
  using store.ins_law [OF assms(1-3), of rng] assms(4) by (elim disjE exE conjE) simp_all

lemma demo_script:
  assumes "store_env_ok env" "store_repr st Map.empty"
  shows "run_bind (kv_put env rng (ascii ''user:1'') (ascii ''alice'') st) (\<lambda>(_, rng, st).
     run_bind (kv_put env rng (ascii ''user:2'') (ascii ''bob'') st) (\<lambda>(_, rng, st).
     run_bind (kv_get (ascii ''user:1'') st) (\<lambda>g1.
     run_bind (kv_put env rng (ascii ''user:1'') (ascii ''alice-v2'') st) (\<lambda>(_, rng, st).
     run_bind (kv_get (ascii ''user:1'') st) (\<lambda>g2.
     run_bind (kv_delete (ascii ''user:2'') st) (\<lambda>(_, st).
     run_bind (kv_get (ascii ''user:2'') st) (\<lambda>g3. Some (Inr (g1, g2, g3, kv_len st)))))))))
    \<in> {Some (Inl Abort), Some (Inr (Some (ascii ''alice''), Some (ascii ''alice-v2''), None, 1))}"
proof -
  let ?u1 = "ascii ''user:1''" and ?u2 = "ascii ''user:2''"
  have ne: "?u1 \<noteq> ?u2" by (simp add: ascii_def of_char_def)
  show ?thesis
  proof (rule put_then [OF assms(1) _ assms(2)], simp add: frame_fits_def ascii_def, simp only: prod.case,
      rule put_then [OF assms(1)], simp add: frame_fits_def ascii_def, assumption, simp only: prod.case, goal_cases)
    case (1 new rng st new' rng' st')
    note r = 1(2)
    have "kv_get ?u1 st' = Some (Inr (Some (ascii ''alice'')))" using store.look_law [OF r] ne by simp
    show ?case unfolding \<open>kv_get ?u1 st' = _\<close> run_bind_simps
    proof (rule put_then [OF assms(1) _ r], simp add: frame_fits_def ascii_def, simp only: prod.case)
      fix new'' rng'' s assume s: "store_repr s ([?u1 \<mapsto> ascii ''alice'', ?u2 \<mapsto> ascii ''bob'', ?u1 \<mapsto> ascii ''alice-v2''])"
      obtain s' where s': "kv_delete ?u2 s = Some (Inr (True, s'))"
          "store_repr s' ([?u1 \<mapsto> ascii ''alice'', ?u2 \<mapsto> ascii ''bob'', ?u1 \<mapsto> ascii ''alice-v2''](?u2 := None))"
        using store.del_law [OF s, of ?u2] ne by auto
      have "dom ([?u1 \<mapsto> ascii ''alice'', ?u2 \<mapsto> ascii ''bob'', ?u1 \<mapsto> ascii ''alice-v2''](?u2 := None)) = {?u1}" using ne by auto
      then have "kv_len s' = 1" using store.count_law [OF s'(2)] by (simp del: dom_fun_upd)
      then show "run_bind (kv_get ?u1 s) (\<lambda>g2. run_bind (kv_delete ?u2 s) (\<lambda>(_, st). run_bind (kv_get ?u2 st)
          (\<lambda>g3. Some (Inr (Some (ascii ''alice''), g2, g3, kv_len st)))))
        \<in> {Some (Inl Abort), Some (Inr (Some (ascii ''alice''), Some (ascii ''alice-v2''), None, 1))}"
        using store.look_law [OF s, of ?u1] store.look_law [OF s'(2), of ?u2] s'(1) by simp
    qed
  qed
qed

text \<open>The demo prints \<open>alice\<close>, \<open>alice-v2\<close>, nothing and 1, unless the process aborts because memory runs out.\<close>

lemma functional_demo_prints:
  assumes "store_env_ok env"
  shows "functional_demo ceil_log4 env rng \<in>
    {Some (Inl Abort), Some (Inr (Some (ascii ''alice''), Some (ascii ''alice-v2''), None, 1))}"
proof (cases "in_memory ceil_log4 env 8 1024")
  case (Inl e)
  then show ?thesis using in_memory_fault [OF assms Inl] by (simp add: functional_demo_def)
next
  case (Inr st)
  then show ?thesis using demo_script [OF assms in_memory_repr [OF assms Inr]] by (simp only: functional_demo_def step_bind_simps)
qed

text \<open>
  The macro accepts \<open>Trade\<close>.  The second demo prints 24 and true when its byte buffer happens to lie
  at a multiple of eight, and panics otherwise.
\<close>

lemma trade_layout_eq: "trade_layout = \<lparr>ly_size = 24, ly_align = 8, ly_offs = [0, 8, 16, 20], ly_pack = None\<rparr>"
  by (simp add: trade_layout_def trade_def repr_c_def Let_def field_align_def round_up_def)

lemma trade_accepted: "derive_zero_copy pod (Struct [] trade) trade_layout = Some trade_layout"
  by (simp add: derive_zero_copy_def refs_compile_def trade_layout_eq trade_def)

lemma derive_demo_needs_luck:
  "derive_demo buf = (if unat buf mod 8 = 0 then Inr (24, True) else Inl Panic)"
proof -
  have t: "demo_trade = map Some [7, 0, 0, 0, 0, 0, 0, 0, 141, 39, 0, 0, 0, 0, 0, 0, 50, 0, 0, 0, 1, 0, 0, 0]" by code_simp
  have "encode trade_layout demo_trade (replicate (ly_size trade_layout) 0) = Inr (map the demo_trade)"
    unfolding t by (simp add: encode_def trade_layout_eq write_at_def)
  moreover have "length (map the demo_trade) = 24" "map Some (map the demo_trade) = demo_trade" by (simp_all add: t)
  ultimately show ?thesis by (simp add: derive_demo_def view_def) (simp add: trade_layout_eq)
qed

text \<open>\<open>get_owned\<close> serves the index interface as \<open>get\<close> does.\<close>

interpretation owned_reads: kv_index allocators some_may_fail "\<lambda>_ _. True" index_repr sh_insert sh_get_owned sh_remove sh_len
proof
  show "sh_get_owned k sh = Some (Inr (m k))" if "index_repr sh m" for sh m k
    using sharded.look_law [OF that, of k] index_reprD(1) [OF that refl, of k] by (simp add: sh_get_owned_def sh_get_def option.map_id)
qed (rule sharded.ins_law sharded.del_law sharded.count_law; assumption)+

text \<open>The write benchmark inserts as many different keys as it counts, and the read benchmark finds each
  of them, when the number of operations fits a word and the threads run one after the other.\<close>

lemma bench_reads_what_it_wrote:
  assumes "allocators al" "sh_new ceil_log4 reserve al shards hint = Inr idx" "unat threads * unat per_thread < 2 ^ 64"
  shows "(kv_run (sh_insert al) sh_get_owned sh_remove (scoped threads (\<lambda>t. write_closure t per_thread) @ scoped threads (\<lambda>t. read_closure t per_thread)) rng idx
      = Some (Inl Abort) \<and> some_may_fail al) \<or>
    (\<exists>rng' idx'. kv_run (sh_insert al) sh_get_owned sh_remove (scoped threads (\<lambda>t. write_closure t per_thread) @ scoped threads (\<lambda>t. read_closure t per_thread)) rng idx
      = Some (Inr (replicate (unat threads * unat per_thread) (Inserted True) @
          map (\<lambda>j. Got (Some (nth_key j))) [0..<unat threads * unat per_thread], rng', idx')) \<and> sh_len idx' = threads * per_thread)"
proof -
  define n where "n = unat threads * unat per_thread"
  let ?ops = "map (\<lambda>j. Put (nth_key j) (nth_key j)) [0..<n] @ map (\<lambda>j. Get (nth_key j)) [0..<n]"
  have n: "n \<le> 2 ^ 64" using assms(3) by (simp add: n_def)
  have ops: "map_ops ?ops Map.empty = (replicate n (Inserted True) @ map (\<lambda>j. Got (Some (nth_key j))) [0..<n],
      \<lambda>k. if k \<in> nth_key ` {..<n} then Some k else None)"
    using map_ops_writes [OF n] map_ops_reads [of "[0..<n]" n] by (simp add: map_ops_append lessThan_atLeast0)
  have "inj_on nth_key {..<n}" using nth_key_inj n by (intro inj_onI) simp
  then have "card (dom (\<lambda>k. if k \<in> nth_key ` {..<n} then Some k else None)) = n" by (simp add: dom_def card_image)
  moreover have "(of_nat n :: usize) = threads * per_thread" by (simp add: n_def)
  ultimately show ?thesis
    using owned_reads.run_refines [OF assms(1) new_index_repr [OF assms(1,2)], of ?ops rng] owned_reads.count_law
    unfolding scoped_keys n_def [symmetric] ops by auto
qed

text \<open>\<open>bench_mixed\<close> writes when the bits 0 and 3 are set, which four of the sixteen values of the low four bits have.\<close>

lemma mixed_write_share:
  "mixed_writes rng \<longleftrightarrow> bit rng 0 \<and> bit rng 3" "length (filter (\<lambda>j. mixed_writes (of_nat j)) [0..<16]) = 4"
proof -
  have nine: "bit (9 :: u64) j \<longleftrightarrow> j = 0 \<or> j = 3" for j
  proof -
    have "(9 :: u64) = push_bit 3 1 OR 1" by simp
    then show ?thesis by (simp only: bit_or_iff bit_push_bit_iff bit_1_iff) auto
  qed
  show "mixed_writes rng \<longleftrightarrow> bit rng 0 \<and> bit rng 3"
  proof
    assume "mixed_writes rng"
    then have "bit (rng AND 9) j \<longleftrightarrow> bit (9 :: u64) j" for j by (simp add: mixed_writes_def)
    then show "bit rng 0 \<and> bit rng 3" unfolding bit_and_iff nine by blast
  next
    assume "bit rng 0 \<and> bit rng 3"
    then show "mixed_writes rng" unfolding mixed_writes_def by (intro bit_word_eqI) (auto simp only: bit_and_iff nine)
  qed
  show "length (filter (\<lambda>j. mixed_writes (of_nat j)) [0..<16]) = 4" by code_simp
qed

end
