(* ===== verification/Spec2Isabelle.thy ===== *)
theory Spec2Isabelle
  imports Spsc Ebr Store ZeroCopy GroupCommitOrder CommitFuture BlockOn Executor DirectRead MeshProgress ServiceAnswers ServiceShutdown Ingress ReqCompletion Demo
begin

text \<open>
  A verification of zerokv, a key-value engine in Rust (sources under \<open>src/crates\<close>).

  \<^bold>\<open>The program.\<close>  \<open>store.rs\<close> is the public store: a hash-partitioned index (\<open>shard.rs\<close>) of skip lists
  (\<open>skiplist.rs\<close>) with an optional write-ahead log (\<open>mmap_log.rs\<close>).  What the skip lists unlink is freed by
  epoch-based reclamation (\<open>ebr.rs\<close>); contended loops back off (\<open>backoff.rs\<close>).  \<open>arena.rs\<close> is a bump allocator, with
  the zero-copy store of \<open>zerocopy.rs\<close> on top of it and the derive macro of \<open>zerokv-derive\<close> beside it.  \<open>regbuf.rs\<close> has a pool of
  registered buffers and the file backend of the group-commit log \<open>group_commit.rs\<close>, whose futures run on
  \<open>executor.rs\<close>.  \<open>mesh.rs\<close> is a second engine: workers that own one shard each and talk through the channels of
  \<open>spsc.rs\<close>, driven by a fixed workload or as a service for clients.  \<open>main.rs\<close> is a demo and benchmark.

  \<^bold>\<open>Conventions\<close> (\<open>Prelude\<close>).  \<open>usize\<close> and \<open>u64\<close> are 64-bit words and wrap, \<open>u32\<close> and \<open>u8\<close> likewise.  A panic,
  undefined behaviour or an abort is a value of the type \<open>fault\<close>; \<open>'a res\<close> is a fault or a result, \<open>'a run\<close> is in
  addition \<open>None\<close> for a loop that does not end, and all loops are \<open>partial_function\<close>s or structural, so there
  is no fuel: a statement that a loop ends says that its value is not \<open>None\<close>.  Memory is a map from
  addresses; a read of an address that is not allocated is undefined behaviour.  The allocator, system
  calls, spurious failures of a weak compare-and-swap, the clock and the logarithm of a float are arguments, and what is used of
  them is a named predicate (\<open>allocator\<close>, \<open>allocators\<close>, \<open>store_env_ok\<close>, \<open>ingress_env\<close>, ...).  Concurrent code is a step
  relation, or a step function run over schedules, with one access to shared memory per step; all
  interleavings are sequentially consistent.

  \<^bold>\<open>Interfaces\<close> (\<open>Interfaces\<close>).  Three locales carry the contracts between the parts: \<open>bounded_fifo\<close>, interpreted
  on the ring in \<open>Spsc\<close> and used by the mesh as \<open>fifo_enq\<close> and \<open>fifo_deq\<close>; \<open>drained_stack\<close>, interpreted on the ingress in
  \<open>Ingress\<close>; and \<open>kv_index\<close>, the operations of a finite map, interpreted on the skip list (\<open>SkipListMap\<close>),
  the sharded index (\<open>Shard\<close>, \<open>Demo\<close>) and the store (\<open>Store\<close>), each proved from the one below.

  \<^bold>\<open>The theories.\<close>
  \<^item> \<open>SkipList\<close> translates \<open>skiplist.rs\<close> on an explicit memory of nodes and value cells with tagged links.
    \<open>SkipListSearch\<close> has the shape invariant and the outcome of \<open>find\<close>, \<open>SkipListOps\<close> that \<open>insert\<close>, \<open>get\<close> and \<open>remove\<close>
    end without a fault and act as a map, \<open>SkipListMap\<close> the interpretation, the freeing of retired nodes at any
    later time, and the teardown, which frees every allocation once.
  \<^item> \<open>Shard\<close> (\<open>shard.rs\<close>): construction, routing and the operations; the partition refines one map.
  \<^item> \<open>MmapLog\<close> (\<open>mmap_log.rs\<close>): \<open>open\<close> with every failure, \<open>append\<close>, \<open>record\<close>, \<open>flush\<close>, \<open>drop\<close>; records read back, and
    a flushed file reopens with the same contents.  \<open>Store\<close> (\<open>store.rs\<close>): the store refines a map, and the log holds
    the frames of the puts.
  \<^item> \<open>Ebr\<close> (\<open>ebr.rs\<close>): the operations as functions, and any number of threads interleaved, with guards
    that may nest and may be used by other threads.  No allocation is freed while a guard may still
    reach it, in every run in which no thread pins while a guard of its own is alive; that a second guard breaks the
    promise of the first is a theorem as well.  \<open>Backoff\<close> (\<open>backoff.rs\<close>): the generators and the pauses.
  \<^item> \<open>Arena\<close> (\<open>arena.rs\<close>): the allocation loop alone and interleaved; blocks never overlap.  \<open>ZeroCopy\<close> (\<open>zerocopy.rs\<close> and
    \<open>zerokv-derive\<close>): the arena store, what the macro accepts for any layout, any packing and any \<open>Pod\<close> types, that packing never
    makes a struct acceptable, and the generated encode, decode and view.
  \<^item> \<open>RegBuf\<close> (\<open>regbuf.rs\<close>): the pool with its handles, and the backend with short writes.  \<open>Treiber\<close> is the memory of
    the stack that \<open>group_commit.rs\<close> and \<open>mesh.rs\<close> share.  \<open>GroupCommit\<close> and \<open>GroupCommitOrder\<close> (\<open>group_commit.rs\<close>): writers, batcher and
    drop interleaved; which records the file holds, in which order, and that drop ends with all of them
    written.  \<open>CommitFuture\<close>: \<open>poll\<close> against \<open>signal\<close>.
  \<^item> \<open>BlockOn\<close>, \<open>Executor\<close>, \<open>DirectRead\<close> (\<open>executor.rs\<close>): the reference-counted waker with \<open>block_on\<close>, the run queue
    with one thread in \<open>run\<close>, and the aligned read.
  \<^item> \<open>Spsc\<close> (\<open>spsc.rs\<close>): the ring as functions and as two interleaved threads; first in, first out, and no
    slot is read or written by both ends or uninitialised.
  \<^item> \<open>Mesh\<close> and \<open>MeshProgress\<close> (\<open>mesh.rs\<close>, up to \<open>run_put_workload\<close>): what the shards hold at the end, for every schedule, and that the
    workers cannot deadlock.  \<open>Ingress\<close> and \<open>ReqCompletion\<close>: the stack of requests and the blocking handshake of
    a client.  \<open>MeshService\<close> has the service over both, \<open>ServiceSafety\<close> its invariant, \<open>ServiceRuns\<close> that it is
    linearizable, \<open>ServiceProgress\<close> and \<open>ServiceAnswers\<close> that no request is lost and every one can be answered until \<open>shutdown\<close>,
    \<open>ServiceShutdown\<close> that \<open>shutdown\<close> can hang.
  \<^item> \<open>Demo\<close> (\<open>main.rs\<close>): what the demos print, and the keys of the benchmarks.

  \<^bold>\<open>Bounds.\<close>  Sizes are those of the code: requests of at most \<open>2 ^ 63\<close> workers (beyond, rounding up to a
  power of two overflows), fewer than \<open>2 ^ 64\<close> puts of a workload (the counters), fewer than \<open>2 ^ 48\<close> calls of
  a service (the tokens), fewer than \<open>2 ^ 62\<close> advances of the epoch (the value of \<open>UNPINNED\<close>), fewer than \<open>2 ^ 64\<close>
  tasks of an executor, and slices below \<open>2 ^ 63\<close> bytes.  Requested alignments are powers of two.  Sizes and alignments of the
  primitive types are those of 64-bit targets.

  \<^bold>\<open>Not modelled.\<close>  Memory orderings: every access is sequentially consistent, so nothing is
  shown about code that relies on weaker ones.  Two operations on one skip list at the same time: the
  marks, the helping and the retries of \<open>skiplist.rs\<close> are translated and exercised one operation at a time, on lists
  that may hold marked nodes.  The guard an operation of the index pins, which is modelled in \<open>Ebr\<close> only.  Several threads in \<open>run\<close> of one
  executor, which is documented as single-threaded.  Overflow checks and assertions of debug builds.  Core pinning, prefetching, the clock and printing, which do not
  change the state.  The token-level work of the derive macro, which belongs to the packages \<open>syn\<close> and \<open>quote\<close>.  The
  timing code and the comparison benchmarks of \<open>main.rs\<close>.  \<open>lib.rs\<close> declares modules only; \<open>benches\<close> and \<open>tests\<close> are not part of the program.
\<close>

section \<open>Lemmas across components\<close>

text \<open>The mesh and the sharded index route a key in the same way.\<close>

lemma routes_agree: "mesh_route key msk = route msk key"
  by (simp add: mesh_route_def route_def fnv1a_def)

text \<open>The rings the mesh allocates are its channels: empty at first, of the capacity of the model, and with the
  operations of the interface.\<close>

lemma mesh_rings:
  "ring_ok (channel 4096)" "contents (channel 4096) = []" "ring_capacity (channel 4096) = mesh_cap"
proof -
  have p: "next_power_of_two 4096 = 4096" by code_simp
  show "ring_capacity (channel 4096) = mesh_cap" by (simp add: channel_def p mesh_cap_def Let_def)
  show "ring_ok (channel 4096)" "contents (channel 4096) = []" by (simp_all add: ring_ok_channel contents_channel)
qed

end
